(* ===== verification/So3_Prelude.thy ===== *)
theory So3_Prelude
  imports Main "HOL-Library.Word" "HOL-Library.Monad_Syntax" "HOL-Library.Code_Target_Nat"
begin

section \<open>Prelude: machine types, collections of facts, generic lemmas\<close>

text \<open>
  Shared by every component: names for the machine integers and addresses of the C sources, the
  development's collections of facts, and lemmas on lists, on arithmetic with wrap-around and on
  words that do not mention the model.

  A kernel function that runs into \<open>BUG()\<close>, \<open>ASSERT\<close>, \<open>kernel_panic()\<close>, an access outside an object
  or an endless loop does not return. In all components its model is a function into an
  \<open>option\<close> type, with the value \<open>None\<close> in these cases, and the notation of the option monad
  sequences such functions. Errors that a function reports to its caller are values of its result.
\<close>

unbundle bit_operations_syntax

type_synonym u32 = "32 word"
type_synonym u64 = "64 word"

text \<open>Addresses are natural numbers; the null pointer is 0.\<close>

type_synonym addr = nat

abbreviation NULL :: addr where
  "NULL \<equiv> 0"

named_theorems tstate_simps \<open>thread states after an update of a control block\<close>

named_theorems word_bits \<open>bits of the words the functions build\<close>

subsection \<open>Lists\<close>

lemma upt_Cons: "n < m \<Longrightarrow> [n..<m] = n # [Suc n..<m]"
  by (rule upt_conv_Cons)

lemma those_map_Some: "those (map (\<lambda>x. Some (f x)) xs) = Some (map f xs)"
  by (induction xs) simp_all

lemma filter_split_rest:
  "(\<And>t. P t \<Longrightarrow> Q t) \<Longrightarrow> filter (\<lambda>t. \<not> Q t) (filter (\<lambda>t. \<not> P t) xs) = filter (\<lambda>t. \<not> Q t) xs"
  by (induction xs) auto

subsection \<open>Arithmetic with wrap-around\<close>

text \<open>Positions in a ring buffer, and the successor of a position.\<close>

lemma ring_index: "a < n \<Longrightarrow> i < n \<Longrightarrow> (a + i) mod n = (if a + i < n then a + i else a + i - n)" for n :: nat
  by (simp add: mod_if)

lemma ring_next: "a < n \<Longrightarrow> Suc a mod n = (if Suc a = n then 0 else Suc a)" for n :: nat
  by (simp add: mod_if)

text \<open>The difference of two times as an unsigned number of twice the range.\<close>

lemma wrapped_difference:
  assumes "n < M" "e < (M::nat)"
  shows "(2 * M + e - n) mod (2 * M) = (if n \<le> e then e - n else 2 * M + e - n)"
proof (cases "n \<le> e")
  case True
  then have "2 * M + e - n = (e - n) + 2 * M" by simp
  then have "(2 * M + e - n) mod (2 * M) = (e - n) mod (2 * M)" by (simp only: mod_add_self2)
  then show ?thesis using True assms by simp
next
  case False
  then show ?thesis using assms by (auto intro!: mod_less)
qed

lemma delta_signed:
  assumes "n < 2 ^ 63" "e < (2::nat) ^ 63"
  shows "(2 ^ 64 + e - n) mod 2 ^ 64 = (if n \<le> e then e - n else 2 * 2 ^ 63 + e - n)"
  using wrapped_difference [OF assms] by simp

text \<open>Division with rounding to the nearest number, and the distance of two readings of a counter.\<close>

lemma rounded_quotient:
  assumes "0 < (f::nat)" "q = (x + f div 2) div f"
  shows "2 * (q * f) \<le> 2 * x + f" "2 * x \<le> 2 * (q * f) + f"
proof -
  have a: "q * f \<le> x + f div 2" using assms(2) by simp
  have b: "x + f div 2 < q * f + f" using dividend_less_div_times [OF assms(1), of "x + f div 2"] assms(2) by simp
  show "2 * (q * f) \<le> 2 * x + f" using a by linarith
  show "2 * x \<le> 2 * (q * f) + f" using b by linarith
qed

lemma masked_difference:
  assumes "d < 2 ^ b" "cyc = (l + d) mod 2 ^ b" "l < 2 ^ b" "b \<le> 64" "l < (2::nat) ^ 64"
  shows "(2 ^ 64 + cyc - l) mod 2 ^ 64 mod 2 ^ b = d"
proof -
  have dv: "(2::nat) ^ b dvd 2 ^ 64" using assms(4) by (rule le_imp_power_dvd)
  have "(2 ^ 64 + cyc - l) mod 2 ^ 64 mod 2 ^ b = (2 ^ 64 + cyc - l) mod 2 ^ b" using dv by (rule mod_mod_cancel)
  moreover have "(2 ^ 64 + cyc - l) mod 2 ^ b = d"
  proof -
    obtain q where q: "(2::nat) ^ 64 = 2 ^ b * q" using dv by auto
    then have q1: "1 \<le> q" by (cases q) auto
    have "2 ^ 64 + cyc - l = d + 2 ^ b * (if l + d < 2 ^ b then q else q - 1)"
    proof (cases "l + d < 2 ^ b")
      case True
      then show ?thesis using assms(2) q by simp
    next
      case False
      then have "cyc = l + d - 2 ^ b" using assms(1-3) by (simp add: mod_if)
      moreover have "2 ^ b * q = 2 ^ b + 2 ^ b * (q - 1)" using q1 by (cases q) auto
      ultimately show ?thesis using False q assms(3) by simp
    qed
    then show ?thesis using assms(1) by simp
  qed
  ultimately show ?thesis by simp
qed

subsection \<open>Words\<close>

lemma unat_and_not_mask: "unat ((x :: u64) AND NOT (mask k)) = unat x - unat x mod 2 ^ k"
proof -
  have "x AND NOT (mask k) = push_bit k (drop_bit k x)"
    by (rule bit_eqI) (auto simp: bit_simps)
  then have "x AND NOT (mask k) = x - take_bit k x"
    using bits_ident [of k x] by (metis add_diff_cancel)
  moreover have "unat (take_bit k x) = unat x mod 2 ^ k"
    using unsigned_take_bit_eq [of k x, where ?'a = nat] by (simp only: take_bit_eq_mod)
  moreover have "take_bit k x \<le> x"
    using calculation(2) by (simp add: word_le_nat_alt del: take_bit_eq_mod)
  ultimately show ?thesis by (simp add: unat_sub)
qed

end
