(* ===== verification/So3_Interfaces.thy ===== *)
theory So3_Interfaces
  imports So3_Prelude
begin

section \<open>Interfaces between the components\<close>

text \<open>
  The contracts on which one component relies when it calls another, as locales. Each is
  interpreted on the model of the component that provides it.
\<close>

subsection \<open>Allocators of memory areas\<close>

text \<open>A client that asks for a list of areas in turn and keeps all of them.\<close>

fun alloc_seq :: "(nat \<Rightarrow> 's \<Rightarrow> (addr \<times> 's) option) \<Rightarrow> nat list \<Rightarrow> 's \<Rightarrow> ((addr \<times> nat) list \<times> 's) option" where
  "alloc_seq al [] s = Some ([], s)"
| "alloc_seq al (r # rs) s =
     do {
       (p, s1) \<leftarrow> al r s;
       (ps, s2) \<leftarrow> alloc_seq al rs s1;
       Some ((p, r) # ps, s2)
     }"

definition apart :: "addr \<times> nat \<Rightarrow> addr \<times> nat \<Rightarrow> bool" where
  "apart a b \<longleftrightarrow> fst a + snd a \<le> fst b \<or> fst b + snd b \<le> fst a"

locale area_allocator =
  fixes inv :: "'s \<Rightarrow> (addr \<times> nat) set \<Rightarrow> bool"
    and alloc :: "nat \<Rightarrow> 's \<Rightarrow> (addr \<times> 's) option"
    and release :: "addr \<Rightarrow> 's \<Rightarrow> 's option"
  assumes alloc_returns: "inv s L \<Longrightarrow>
      \<exists>p s'. alloc r s = Some (p, s') \<and> inv s' (if p = NULL then L else insert (p, r) L)"
    and alloc_apart: "inv s L \<Longrightarrow> alloc r s = Some (p, s') \<Longrightarrow> p \<noteq> NULL \<Longrightarrow> a \<in> L \<Longrightarrow> apart a (p, r)"
    and release_returns: "inv s L \<Longrightarrow> (p, r) \<in> L \<Longrightarrow>
      \<exists>s'. release p s = Some s' \<and> inv s' (L - {(p, r)})"
begin

lemma alloc_seq_ok:
  assumes "inv s L"
  shows "\<exists>ps s'. alloc_seq alloc rs s = Some (ps, s') \<and> map snd ps = rs \<and>
    inv s' (L \<union> {a \<in> set ps. fst a \<noteq> NULL}) \<and>
    (\<forall>a\<in>set ps. fst a \<noteq> NULL \<longrightarrow> (\<forall>b\<in>L. apart b a)) \<and>
    sorted_wrt (\<lambda>a b. fst a \<noteq> NULL \<longrightarrow> fst b \<noteq> NULL \<longrightarrow> apart a b) ps"
  using assms
proof (induction rs arbitrary: s L)
  case Nil
  then show ?case by simp
next
  case (Cons r rs)
  obtain p s1 where p: "alloc r s = Some (p, s1)" "inv s1 (if p = NULL then L else insert (p, r) L)"
    using alloc_returns [OF Cons.prems] by blast
  let ?L = "if p = NULL then L else insert (p, r) L"
  obtain ps s2 where ps: "alloc_seq alloc rs s1 = Some (ps, s2)" "map snd ps = rs"
      "inv s2 (?L \<union> {a \<in> set ps. fst a \<noteq> NULL})" "\<forall>a\<in>set ps. fst a \<noteq> NULL \<longrightarrow> (\<forall>b\<in>?L. apart b a)"
      "sorted_wrt (\<lambda>a b. fst a \<noteq> NULL \<longrightarrow> fst b \<noteq> NULL \<longrightarrow> apart a b) ps"
    using Cons.IH [OF p(2)] by blast
  have "?L \<union> {a \<in> set ps. fst a \<noteq> NULL} = L \<union> {a \<in> set ((p, r) # ps). fst a \<noteq> NULL}" by auto
  moreover have "\<forall>b\<in>L. apart b (p, r)" if "p \<noteq> NULL" using alloc_apart [OF Cons.prems p(1) that] by blast
  ultimately show ?case using p(1) ps by (auto split: if_splits)
qed

end

subsection \<open>Pools of numbered slots\<close>

text \<open>
  Page frames, stack slots, descriptors and event-channel ports are handed out and taken
  back one at a time. A client performs a sequence of requests; it gives back slots by
  their position among those it holds.
\<close>

datatype pool_op = Take | Give nat

fun pool_run :: "('s \<Rightarrow> nat option \<times> 's) \<Rightarrow> (nat \<Rightarrow> 's \<Rightarrow> 's) \<Rightarrow> pool_op list \<Rightarrow> nat list \<times> 's \<Rightarrow> nat list \<times> 's" where
  "pool_run tk gv [] (held, s) = (held, s)"
| "pool_run tk gv (Take # ops) (held, s) =
     (case tk s of (Some i, s') \<Rightarrow> pool_run tk gv ops (i # held, s')
      | (None, s') \<Rightarrow> pool_run tk gv ops (held, s'))"
| "pool_run tk gv (Give k # ops) (held, s) =
     (if k < length held then pool_run tk gv ops (remove1 (held ! k) held, gv (held ! k) s)
      else pool_run tk gv ops (held, s))"

locale slot_pool =
  fixes inv :: "'s \<Rightarrow> bool"
    and slots :: "'s \<Rightarrow> nat set"
    and all_slots :: "'s \<Rightarrow> nat set"
    and tk :: "'s \<Rightarrow> nat option \<times> 's"
    and gv :: "nat \<Rightarrow> 's \<Rightarrow> 's"
  assumes slots_subset: "inv s \<Longrightarrow> slots s \<subseteq> all_slots s"
    and take_some: "inv s \<Longrightarrow> tk s = (Some i, s') \<Longrightarrow>
      i \<in> slots s \<and> slots s' = slots s - {i} \<and> all_slots s' = all_slots s \<and> inv s'"
    and take_none: "inv s \<Longrightarrow> tk s = (None, s') \<Longrightarrow>
      slots s = {} \<and> slots s' = {} \<and> all_slots s' = all_slots s \<and> inv s'"
    and give_back: "inv s \<Longrightarrow> i \<in> all_slots s \<Longrightarrow>
      slots (gv i s) = insert i (slots s) \<and> all_slots (gv i s) = all_slots s \<and> inv (gv i s)"
begin

definition owned :: "nat list \<Rightarrow> 's \<Rightarrow> bool" where
  "owned held s \<longleftrightarrow> inv s \<and> distinct held \<and> set held \<inter> slots s = {} \<and> set held \<subseteq> all_slots s"

lemma pool_run_exclusive:
  assumes "owned held s" "pool_run tk gv ops (held, s) = (held', s')"
  shows "owned held' s' \<and> set held' \<union> slots s' = set held \<union> slots s \<and> all_slots s' = all_slots s"
  using assms
proof (induction ops arbitrary: held s)
  case (Cons p ops)
  show ?case
  proof (cases p)
    case Take
    obtain r s1 where r: "tk s = (r, s1)" by (cases "tk s")
    show ?thesis
    proof (cases r)
      case None
      then have "owned held s1" "slots s1 = {}" "slots s = {}" "all_slots s1 = all_slots s"
        using Cons.prems(1) take_none [of s s1] r by (auto simp: owned_def)
      then show ?thesis using Cons.IH [of held s1] Cons.prems(2) Take r None by auto
    next
      case (Some i)
      then have i: "i \<in> slots s" "slots s1 = slots s - {i}" "all_slots s1 = all_slots s" "inv s1"
        using Cons.prems(1) take_some [of s i s1] r by (auto simp: owned_def)
      then have "owned (i # held) s1" using Cons.prems(1) slots_subset [of s] by (auto simp: owned_def)
      then show ?thesis using Cons.IH [of "i # held" s1] Cons.prems(2) Take r Some i by auto
    qed
  next
    case (Give k)
    show ?thesis
    proof (cases "k < length held")
      case True
      let ?i = "held ! k"
      have i: "?i \<in> set held" using True by simp
      then have g: "slots (gv ?i s) = insert ?i (slots s)" "all_slots (gv ?i s) = all_slots s" "inv (gv ?i s)"
        using Cons.prems(1) give_back [of s ?i] by (auto simp: owned_def)
      have "owned (remove1 ?i held) (gv ?i s)"
        using Cons.prems(1) g set_remove1_subset [of ?i held] by (auto simp: owned_def)
      then show ?thesis using Cons.IH [of "remove1 ?i held" "gv ?i s"] Cons.prems Give True g i
        by (auto simp: owned_def)
    qed (use Cons Give in simp)
  qed
qed simp

text \<open>A request is refused only when every slot of the pool is held.\<close>

lemma take_refused:
  assumes "owned held s" "set held \<union> slots s = all_slots s" "tk s = (None, s')"
  shows "set held = all_slots s"
  using assms take_none [of s s'] by (auto simp: owned_def)

end

subsection \<open>Blocking and waking threads\<close>

text \<open>
  The contract the blocking primitives have with the scheduler: the current thread can be
  put to sleep, and a thread that sleeps can be made ready again. Waking a whole queue, as
  the broadcast operations do, wakes exactly its threads.
\<close>

fun wake_all :: "(nat \<Rightarrow> 's \<Rightarrow> 's option) \<Rightarrow> nat list \<Rightarrow> 's \<Rightarrow> 's option" where
  "wake_all wk [] s = Some s"
| "wake_all wk (t # ts) s = do { s1 \<leftarrow> wk t s; wake_all wk ts s1 }"

locale thread_blocking =
  fixes inv :: "'s \<Rightarrow> bool"
    and asleep :: "'s \<Rightarrow> nat set"
    and may_block :: "'s \<Rightarrow> nat \<Rightarrow> bool"
    and cur :: "'s \<Rightarrow> nat option"
    and blk :: "'s \<Rightarrow> 's option"
    and wk :: "nat \<Rightarrow> 's \<Rightarrow> 's option"
  assumes block_ok: "inv s \<Longrightarrow> cur s = Some c \<Longrightarrow> may_block s c \<Longrightarrow>
      \<exists>s'. blk s = Some s' \<and> inv s' \<and> asleep s' = insert c (asleep s)"
    and wake_ok: "inv s \<Longrightarrow> t \<in> asleep s \<Longrightarrow>
      \<exists>s'. wk t s = Some s' \<and> inv s' \<and> asleep s' = asleep s - {t} \<and> cur s' = cur s"
    and cur_awake: "inv s \<Longrightarrow> cur s = Some c \<Longrightarrow> c \<notin> asleep s"
begin

lemma wake_all_ok:
  "inv s \<Longrightarrow> distinct ts \<Longrightarrow> set ts \<subseteq> asleep s \<Longrightarrow>
    \<exists>s'. wake_all wk ts s = Some s' \<and> inv s' \<and> asleep s' = asleep s - set ts \<and> cur s' = cur s"
proof (induction ts arbitrary: s)
  case (Cons t ts)
  then obtain s1 where s1: "wk t s = Some s1" "inv s1" "asleep s1 = asleep s - {t}" "cur s1 = cur s"
    using wake_ok [of s t] by auto
  moreover have "asleep s - {t} - set ts = asleep s - insert t (set ts)" "set ts \<subseteq> asleep s - {t}"
    using Cons.prems by auto
  ultimately show ?case using Cons.IH [of s1] Cons.prems by simp
qed simp

text \<open>A thread that goes to sleep at the end of a queue of sleepers keeps it one.\<close>

lemma enqueue_block:
  assumes "inv s" "cur s = Some c" "may_block s c" "distinct q" "set q \<subseteq> asleep s"
  shows "\<exists>s'. blk s = Some s' \<and> inv s' \<and> distinct (q @ [c]) \<and> set (q @ [c]) \<subseteq> asleep s'"
  using block_ok [OF assms(1-3)] cur_awake [OF assms(1,2)] assms(4,5) by auto

end

end
