(* ===== verification/So3_Heap.thy ===== *)
theory So3_Heap
  imports So3_Prelude
begin

section \<open>The kernel heap\<close>

text \<open>
  Model of \<open>so3/mm/heap.c\<close>, the quick-fit allocator behind \<open>malloc\<close> and \<open>free\<close>, at
  the level of its pointers. Free chunks hang in a two-dimensional linked list:
  \<open>next_list\<close> links the first chunk of each size class in increasing size,
  \<open>next_chunk\<close> links the chunks of one size, and \<open>head\<close> points back to the first chunk
  of the class. The memory is a store from addresses to chunk headers, so every read and
  write of the source is a read or write of the store.

  All functions live in the option monad. \<open>None\<close> stands for a call that does not come
  back: an access through a null pointer, a failed \<open>ASSERT\<close>, \<open>kernel_panic()\<close>, or a
  pointer walk that never ends (the walks are \<open>partial_function\<close>s). The theorems of
  \<open>So3_Heap_Proofs\<close> show that \<open>None\<close> does not occur in a reachable heap.

  Sizes are natural numbers. The sums that the code computes are bounded by the heap size
  plus an alignment, far below the 64-bit range; the one product that is not bounded, in
  \<open>calloc\<close>, is taken modulo \<open>2 ^ 64\<close>. The functions run under \<open>heap_lock\<close> with
  interrupts off and are therefore atomic.
\<close>

record mem_chunk =
  sig :: u32
  next_list :: addr
  next_chunk :: addr
  head :: addr
  chunk_size :: nat
  req_size :: nat
  padding_bytes :: nat

record heap =
  quick_list :: addr
  mem :: "addr \<Rightarrow> mem_chunk"

text \<open>\<open>sizeof(mem_chunk_t)\<close> and \<open>sizeof(int)\<close> on AArch64.\<close>

definition HDR :: nat where
  "HDR = 56"

definition SIZEOF_INT :: nat where
  "SIZEOF_INT = 4"

definition CHUNK_SIG :: u32 where
  "CHUNK_SIG = 0xbeefdead"

subsection \<open>Access to the store\<close>

definition rd :: "heap \<Rightarrow> addr \<Rightarrow> mem_chunk option" where
  "rd s p = (if p = NULL then None else Some (mem s p))"

definition wr :: "addr \<Rightarrow> (mem_chunk \<Rightarrow> mem_chunk) \<Rightarrow> heap \<Rightarrow> heap option" where
  "wr p f s = (if p = NULL then None else Some (s\<lparr>mem := (mem s)(p := f (mem s p))\<rparr>))"

subsection \<open>Initialisation\<close>

definition zero_chunk :: mem_chunk where
  "zero_chunk = \<lparr>sig = 0, next_list = NULL, next_chunk = NULL, head = NULL,
     chunk_size = 0, req_size = 0, padding_bytes = 0\<rparr>"

definition heap_init :: "addr \<Rightarrow> nat \<Rightarrow> heap" where
  "heap_init base hsize =
     \<lparr>quick_list = base,
      mem = (\<lambda>_. zero_chunk)(base := zero_chunk
        \<lparr>next_list := NULL, next_chunk := NULL, head := base,
         chunk_size := hsize - HDR, padding_bytes := 0\<rparr>)\<rparr>"

subsection \<open>Size of the free chunks\<close>

partial_function (option) heap_size_chunks :: "heap \<Rightarrow> addr \<Rightarrow> nat \<Rightarrow> nat option" where
  "heap_size_chunks s chunk total_size =
     (if chunk = NULL then Some total_size
      else do {
        c \<leftarrow> rd s chunk;
        heap_size_chunks s (next_chunk c) ((total_size + chunk_size c) mod 2 ^ 32)
      })"

partial_function (option) heap_size_lists :: "heap \<Rightarrow> addr \<Rightarrow> nat \<Rightarrow> nat option" where
  "heap_size_lists s lst total_size =
     (if lst = NULL then Some total_size
      else do {
        total_size' \<leftarrow> heap_size_chunks s lst total_size;
        c \<leftarrow> rd s lst;
        heap_size_lists s (next_list c) total_size'
      })"

definition heap_size :: "heap \<Rightarrow> nat option" where
  "heap_size s = heap_size_lists s (quick_list s) 0"

subsection \<open>Removing a chunk from the quick list\<close>

definition reset_chunk :: "addr \<Rightarrow> heap \<Rightarrow> heap option" where
  "reset_chunk chunk s =
     wr chunk (\<lambda>c. c\<lparr>next_list := NULL, next_chunk := NULL, head := NULL\<rparr>) s"

text \<open>\<open>while (head->next_list != chunk) head = head->next_list;\<close>\<close>

partial_function (option) prev_list :: "heap \<Rightarrow> addr \<Rightarrow> addr \<Rightarrow> addr option" where
  "prev_list s h chunk =
     do {
       c \<leftarrow> rd s h;
       if next_list c \<noteq> chunk then prev_list s (next_list c) chunk else Some h
     }"

text \<open>\<open>while (head->next_chunk != chunk) head = head->next_chunk;\<close>\<close>

partial_function (option) prev_chunk :: "heap \<Rightarrow> addr \<Rightarrow> addr \<Rightarrow> addr option" where
  "prev_chunk s h chunk =
     do {
       c \<leftarrow> rd s h;
       if next_chunk c \<noteq> chunk then prev_chunk s (next_chunk c) chunk else Some h
     }"

text \<open>\<open>do { chunk->head = head; chunk = chunk->next_chunk; } while (chunk != NULL);\<close>\<close>

partial_function (option) set_heads :: "addr \<Rightarrow> addr \<Rightarrow> heap \<Rightarrow> heap option" where
  "set_heads h chunk s =
     do {
       s1 \<leftarrow> wr chunk (\<lambda>c. c\<lparr>head := h\<rparr>) s;
       c \<leftarrow> rd s1 chunk;
       if next_chunk c \<noteq> NULL then set_heads h (next_chunk c) s1 else Some s1
     }"

text \<open>The reference to the first chunk of a class is moved to \<open>n\<close>.\<close>

definition replace_head :: "addr \<Rightarrow> addr \<Rightarrow> heap \<Rightarrow> heap option" where
  "replace_head chunk n s =
     (if chunk = quick_list s then Some (s\<lparr>quick_list := n\<rparr>)
      else do {
        h \<leftarrow> prev_list s (quick_list s) chunk;
        wr h (\<lambda>x. x\<lparr>next_list := n\<rparr>) s
      })"

definition remove_chunk :: "addr \<Rightarrow> heap \<Rightarrow> heap option" where
  "remove_chunk chunk s =
     do {
       c \<leftarrow> rd s chunk;
       if head c = NULL then None
       else if head c = chunk then do {
         s1 \<leftarrow> replace_head chunk (if next_chunk c = NULL then next_list c else next_chunk c) s;
         c1 \<leftarrow> rd s1 chunk;
         s2 \<leftarrow> (if next_chunk c1 \<noteq> NULL
                then do {
                  s1' \<leftarrow> wr (next_chunk c1) (\<lambda>x. x\<lparr>next_list := next_list c1\<rparr>) s1;
                  set_heads (next_chunk c1) (next_chunk c1) s1'
                }
                else Some s1);
         reset_chunk chunk s2
       }
       else do {
         h \<leftarrow> prev_chunk s (head c) chunk;
         s1 \<leftarrow> wr h (\<lambda>x. x\<lparr>next_chunk := next_chunk c\<rparr>) s;
         reset_chunk chunk s1
       }
     }"

subsection \<open>Inserting a chunk into the quick list\<close>

text \<open>
  The scan for the first class that is not smaller, with the class before it
  (\<open>last\<close>, which the source leaves undefined when the scan stops at once).
\<close>

partial_function (option) scan_list :: "heap \<Rightarrow> addr \<Rightarrow> nat \<Rightarrow> addr \<Rightarrow> (addr \<times> addr) option" where
  "scan_list s tmp sz last0 =
     (if tmp = NULL then Some (NULL, last0)
      else do {
        c \<leftarrow> rd s tmp;
        if chunk_size c < sz then scan_list s (next_list c) sz tmp
        else Some (tmp, last0)
      })"

text \<open>\<open>while (p->next_chunk != NULL) p = p->next_chunk;\<close>\<close>

partial_function (option) last_chunk :: "heap \<Rightarrow> addr \<Rightarrow> addr option" where
  "last_chunk s p =
     do {
       c \<leftarrow> rd s p;
       if next_chunk c \<noteq> NULL then last_chunk s (next_chunk c) else Some p
     }"

text \<open>The three ways to link a reset chunk at the position the scan found.\<close>

definition link_chunk :: "addr \<Rightarrow> addr \<times> addr \<Rightarrow> heap \<Rightarrow> heap option" where
  "link_chunk chunk = (\<lambda>(tmp, last0) s.
     if tmp \<noteq> NULL then do {
       t \<leftarrow> rd s tmp;
       c \<leftarrow> rd s chunk;
       if chunk_size t = chunk_size c then do {
         l \<leftarrow> last_chunk s tmp;
         s1 \<leftarrow> wr l (\<lambda>x. x\<lparr>next_chunk := chunk\<rparr>) s;
         wr chunk (\<lambda>x. x\<lparr>head := tmp\<rparr>) s1
       }
       else if tmp = quick_list s then do {
         s1 \<leftarrow> wr chunk (\<lambda>x. x\<lparr>next_list := quick_list s, head := chunk\<rparr>) s;
         Some (s1\<lparr>quick_list := chunk\<rparr>)
       }
       else do {
         p \<leftarrow> prev_list s (quick_list s) tmp;
         s1 \<leftarrow> wr p (\<lambda>x. x\<lparr>next_list := chunk\<rparr>) s;
         wr chunk (\<lambda>x. x\<lparr>next_list := tmp, head := chunk\<rparr>) s1
       }
     }
     else do {
       s1 \<leftarrow> wr last0 (\<lambda>x. x\<lparr>next_list := chunk\<rparr>) s;
       wr chunk (\<lambda>x. x\<lparr>head := chunk\<rparr>) s1
     })"

definition append_chunk :: "addr \<Rightarrow> heap \<Rightarrow> heap option" where
  "append_chunk chunk s0 =
     do {
       s \<leftarrow> reset_chunk chunk s0;
       if quick_list s = NULL
       then wr chunk (\<lambda>c. c\<lparr>head := chunk\<rparr>) (s\<lparr>quick_list := chunk\<rparr>)
       else do {
         c \<leftarrow> rd s chunk;
         found \<leftarrow> scan_list s (quick_list s) (chunk_size c) NULL;
         link_chunk chunk found s
       }
     }"

subsection \<open>Merging neighbours\<close>

definition adjacent :: "heap \<Rightarrow> addr \<Rightarrow> addr \<Rightarrow> bool" where
  "adjacent s new tmp \<longleftrightarrow>
     new + chunk_size (mem s new) + HDR = tmp \<or> tmp + chunk_size (mem s tmp) + HDR = new"

partial_function (option) adj_in_class :: "heap \<Rightarrow> addr \<Rightarrow> addr \<Rightarrow> addr option" where
  "adj_in_class s new tmp =
     (if tmp = NULL then Some NULL
      else if adjacent s new tmp then Some tmp
      else do {
        c \<leftarrow> rd s tmp;
        adj_in_class s new (next_chunk c)
      })"

partial_function (option) adj_in_lists :: "heap \<Rightarrow> addr \<Rightarrow> addr \<Rightarrow> addr option" where
  "adj_in_lists s new tmp_list =
     (if tmp_list = NULL then Some NULL
      else do {
        t \<leftarrow> adj_in_class s new tmp_list;
        if t \<noteq> NULL then Some t
        else do {
          c \<leftarrow> rd s tmp_list;
          adj_in_lists s new (next_list c)
        }
      })"

partial_function (option) merge_chunks :: "addr \<Rightarrow> heap \<Rightarrow> heap option" where
  "merge_chunks new s =
     do {
       tmp \<leftarrow> adj_in_lists s new (quick_list s);
       if tmp = NULL then Some s
       else do {
         cn \<leftarrow> rd s new;
         ct \<leftarrow> rd s tmp;
         s1 \<leftarrow> (if new < tmp
                then wr new (\<lambda>x. x\<lparr>chunk_size := chunk_size cn + (chunk_size ct + HDR)\<rparr>) s
                else wr tmp (\<lambda>x. x\<lparr>chunk_size := chunk_size ct + (chunk_size cn + HDR)\<rparr>) s);
         s2 \<leftarrow> remove_chunk tmp s1;
         s3 \<leftarrow> remove_chunk new s2;
         s4 \<leftarrow> append_chunk (if new < tmp then new else tmp) s3;
         merge_chunks (if new < tmp then new else tmp) s4
       }
     }"

subsection \<open>Allocation\<close>

text \<open>\<open>((addr_t) addr + alignment - 1) & -((signed) alignment)\<close>\<close>

definition align_addr :: "addr \<Rightarrow> nat \<Rightarrow> addr" where
  "align_addr a alignment =
     unat (((of_nat a :: u64) + of_nat alignment - 1) AND (- of_nat alignment))"

partial_function (option) scan_fit :: "heap \<Rightarrow> addr \<Rightarrow> nat \<Rightarrow> addr option" where
  "scan_fit s victim requested =
     (if victim = NULL then Some NULL
      else do {
        c \<leftarrow> rd s victim;
        if chunk_size c < requested then scan_fit s (next_list c) requested
        else Some victim
      })"

text \<open>
  The search with its \<open>goto next_list\<close>: the address to return and the victim, or null.
\<close>

partial_function (option) find_victim ::
  "addr \<Rightarrow> nat \<Rightarrow> nat \<Rightarrow> heap \<Rightarrow> (addr \<times> addr \<times> heap) option" where
  "find_victim victim0 requested alignment0 s =
     do {
       v \<leftarrow> scan_fit s victim0 requested;
       if v = NULL then Some (NULL, NULL, s)
       else do {
         victim \<leftarrow> last_chunk s v;
         let adr = victim + HDR;
         s1 \<leftarrow> wr victim (\<lambda>x. x\<lparr>req_size := requested\<rparr>) s;
         let alignment = (if alignment0 = 0 then SIZEOF_INT else alignment0);
         let tmp_addr = align_addr adr alignment;
         if \<not> adr \<le> tmp_addr then None
         else do {
           c \<leftarrow> rd s1 victim;
           if (tmp_addr - adr) mod 2 ^ 32 + requested > chunk_size c
           then do {
             h \<leftarrow> rd s1 (head c);
             find_victim (next_list h) requested alignment s1
           }
           else do {
             s2 \<leftarrow> wr victim (\<lambda>x. x\<lparr>padding_bytes := tmp_addr - adr\<rparr>) s1;
             Some (tmp_addr, victim, s2)
           }
         }
       }
     }"

text \<open>
  A remainder that can hold a header and at least one byte becomes a free chunk of its own.
\<close>

definition split_victim :: "nat \<Rightarrow> addr \<Rightarrow> heap \<Rightarrow> heap option" where
  "split_victim requested victim s =
     do {
       c \<leftarrow> rd s victim;
       if chunk_size c > requested + padding_bytes c + HDR
       then do {
         let remaining = victim + HDR + requested + padding_bytes c;
         s1 \<leftarrow> wr remaining (\<lambda>x. x\<lparr>
           chunk_size := chunk_size c - requested - HDR - padding_bytes c,
           padding_bytes := 0\<rparr>) s;
         s2 \<leftarrow> wr victim (\<lambda>x. x\<lparr>chunk_size := requested + padding_bytes c\<rparr>) s1;
         append_chunk remaining s2
       }
       else Some s
     }"

text \<open>With padding bytes the header is moved next to the user area, through a temporary copy.\<close>

definition shift_header :: "addr \<Rightarrow> heap \<Rightarrow> heap option" where
  "shift_header victim s =
     do {
       c \<leftarrow> rd s victim;
       if padding_bytes c \<noteq> 0
       then wr (victim + padding_bytes c) (\<lambda>_. c) s
       else Some s
     }"

definition malloc_aligned :: "nat \<Rightarrow> nat \<Rightarrow> heap \<Rightarrow> (addr \<times> heap) option" where
  "malloc_aligned requested alignment s =
     do {
       (adr, victim, s1) \<leftarrow> find_victim (quick_list s) requested alignment s;
       if victim = NULL then Some (NULL, s1)
       else do {
         s2 \<leftarrow> remove_chunk victim s1;
         s3 \<leftarrow> wr victim (\<lambda>x. x\<lparr>sig := CHUNK_SIG\<rparr>) s2;
         s4 \<leftarrow> split_victim requested victim s3;
         s5 \<leftarrow> shift_header victim s4;
         Some (adr, s5)
       }
     }"

definition malloc :: "nat \<Rightarrow> heap \<Rightarrow> (addr \<times> heap) option" where
  "malloc requested s = malloc_aligned requested 0 s"

definition memalign :: "nat \<Rightarrow> nat \<Rightarrow> heap \<Rightarrow> (addr \<times> heap) option" where
  "memalign requested alignment s = malloc_aligned requested alignment s"

subsection \<open>Release\<close>

text \<open>The test that leads to the kernel panic: the header no longer carries the signature.\<close>

definition already_freed :: "addr \<Rightarrow> heap \<Rightarrow> bool option" where
  "already_freed chunk s = do { c \<leftarrow> rd s chunk; Some (sig c \<noteq> CHUNK_SIG) }"

definition free :: "addr \<Rightarrow> heap \<Rightarrow> heap option" where
  "free ptr s =
     (if ptr = NULL then Some s
      else do {
        let chunk = ptr - HDR;
        panics \<leftarrow> already_freed chunk s;
        if panics then None
        else do {
          s1 \<leftarrow> wr chunk (\<lambda>x. x\<lparr>sig := 0\<rparr>) s;
          c1 \<leftarrow> rd s1 chunk;
          (chunk', s2) \<leftarrow>
            (if padding_bytes c1 \<noteq> 0
             then do {
               s' \<leftarrow> wr (chunk - padding_bytes c1) (\<lambda>_. c1\<lparr>padding_bytes := 0\<rparr>) s1;
               Some (chunk - padding_bytes c1, s')
             }
             else Some (chunk, s1));
          s3 \<leftarrow> append_chunk chunk' s2;
          merge_chunks chunk' s3
        }
      })"

subsection \<open>\<open>calloc\<close> and \<open>realloc\<close>\<close>

text \<open>
  The store holds headers and not the bytes of the user areas. The two functions that
  write user areas return the byte operation they perform next to the pointer.
\<close>

datatype byte_op = Memset addr nat | Memcpy addr addr nat

definition calloc :: "nat \<Rightarrow> nat \<Rightarrow> heap \<Rightarrow> (addr \<times> byte_op list \<times> heap) option" where
  "calloc nmemb sz s =
     do {
       (ptr, s1) \<leftarrow> malloc (nmemb * sz mod 2 ^ 64) s;
       if ptr = NULL then Some (ptr, [], s1)
       else Some (ptr, [Memset ptr (nmemb * sz mod 2 ^ 64)], s1)
     }"

definition realloc :: "addr \<Rightarrow> nat \<Rightarrow> heap \<Rightarrow> (addr \<times> byte_op list \<times> heap) option" where
  "realloc ptr sz0 s =
     do {
       let chunk = ptr - HDR;
       c \<leftarrow> rd s chunk;
       let sz = (if sz0 < req_size c then req_size c else sz0);
       (alloc, s1) \<leftarrow> malloc sz s;
       if alloc = NULL then Some (NULL, [], s1)
       else do {
         c1 \<leftarrow> rd s1 chunk;
         s2 \<leftarrow> free ptr s1;
         Some (alloc, [Memcpy alloc ptr (if sz < req_size c1 then sz else req_size c1)], s2)
       }
     }"

end
