(* ===== verification/So3_Heap_List.thy ===== *)
theory So3_Heap_List
  imports So3_Heap
begin

section \<open>The quick list\<close>

text \<open>
  What \<open>remove_chunk\<close> and \<open>append_chunk\<close> of \<^theory_text>\<open>So3_Heap\<close> do to the two-dimensional
  linked list. \<open>ql_links\<close> says that the pointers of a heap represent a list of size classes;
  on such a heap both functions return, and they act as \<open>ql_del\<close> and \<open>ql_ins\<close> on the list of
  classes and change nothing but links (\<open>relinked\<close>). \<open>ql_sizes\<close> states that the classes are
  sorted and that each holds one size.
\<close>

subsection \<open>The shape of the quick list\<close>

fun first :: "addr list \<Rightarrow> addr \<Rightarrow> addr" where
  "first [] e = e"
| "first (x # _) e = x"

fun class_seg :: "(addr \<Rightarrow> mem_chunk) \<Rightarrow> addr \<Rightarrow> addr list \<Rightarrow> addr \<Rightarrow> bool" where
  "class_seg m h [] e = True"
| "class_seg m h (x # xs) e \<longleftrightarrow>
     x \<noteq> NULL \<and> head (m x) = h \<and> next_chunk (m x) = first xs e \<and> class_seg m h xs e"

fun lfirst :: "addr list list \<Rightarrow> addr \<Rightarrow> addr" where
  "lfirst [] e = e"
| "lfirst (c # _) e = hd c"

fun list_seg :: "(addr \<Rightarrow> mem_chunk) \<Rightarrow> addr list list \<Rightarrow> addr \<Rightarrow> bool" where
  "list_seg m [] e = True"
| "list_seg m (c # cs) e \<longleftrightarrow>
     c \<noteq> [] \<and> class_seg m (hd c) c NULL \<and> next_list (m (hd c)) = lfirst cs e \<and> list_seg m cs e"

definition ql_links :: "heap \<Rightarrow> addr list list \<Rightarrow> bool" where
  "ql_links s cs \<longleftrightarrow>
     quick_list s = lfirst cs NULL \<and> list_seg (mem s) cs NULL \<and> distinct (concat cs)"

subsection \<open>Segments\<close>

lemma first_append [simp]: "first (xs @ ys) e = first xs (first ys e)"
  by (cases xs) auto

lemma lfirst_append [simp]: "lfirst (xs @ ys) e = lfirst xs (lfirst ys e)"
  by (cases xs) auto

lemma first_hd: "xs \<noteq> [] \<Longrightarrow> first xs e = hd xs"
  by (cases xs) auto

lemma class_seg_append [simp]:
  "class_seg m h (xs @ ys) e \<longleftrightarrow> class_seg m h xs (first ys e) \<and> class_seg m h ys e"
  by (induction xs) auto

lemma list_seg_append [simp]:
  "list_seg m (cs @ ds) e \<longleftrightarrow> list_seg m cs (lfirst ds e) \<and> list_seg m ds e"
  by (induction cs) auto

lemma class_seg_cong:
  assumes "\<forall>x\<in>set xs. head (m' x) = head (m x) \<and> next_chunk (m' x) = next_chunk (m x)"
  shows "class_seg m' h xs e = class_seg m h xs e"
  using assms by (induction xs) auto

lemma class_seg_upd_other [simp]:
  "p \<notin> set xs \<Longrightarrow> class_seg (m(p := c)) h xs e = class_seg m h xs e"
  by (rule class_seg_cong) auto

lemma list_seg_cong:
  assumes "\<forall>x\<in>set (concat cs). head (m' x) = head (m x) \<and> next_chunk (m' x) = next_chunk (m x)
             \<and> next_list (m' x) = next_list (m x)"
  shows "list_seg m' cs e = list_seg m cs e"
  using assms
proof (induction cs)
  case (Cons c cs)
  have "class_seg m' (hd c) c NULL = class_seg m (hd c) c NULL"
    using Cons.prems by (intro class_seg_cong) auto
  moreover have "c \<noteq> [] \<Longrightarrow> next_list (m' (hd c)) = next_list (m (hd c))"
    using Cons.prems by auto
  ultimately show ?case using Cons by auto
qed simp

lemma list_seg_upd_other [simp]:
  "p \<notin> set (concat cs) \<Longrightarrow> list_seg (m(p := c)) cs e = list_seg m cs e"
  by (rule list_seg_cong) auto

lemma list_seg_nonempty: "list_seg m cs e \<Longrightarrow> c \<in> set cs \<Longrightarrow> c \<noteq> []"
  by (induction cs) auto

lemma list_seg_nonnull: "list_seg m cs e \<Longrightarrow> x \<in> set (concat cs) \<Longrightarrow> x \<noteq> NULL"
proof (induction cs)
  case (Cons c cs)
  have "class_seg m h xs e \<Longrightarrow> x \<in> set xs \<Longrightarrow> x \<noteq> NULL" for h xs e
    by (induction xs) auto
  then show ?case using Cons by auto
qed simp

lemma class_seg_nonnull: "class_seg m h xs e \<Longrightarrow> x \<in> set xs \<Longrightarrow> x \<noteq> NULL"
  by (induction xs) auto

lemma class_seg_head: "class_seg m h xs e \<Longrightarrow> x \<in> set xs \<Longrightarrow> head (m x) = h"
  by (induction xs) auto

text \<open>Redirecting the end of a segment.\<close>

lemma class_seg_redirect:
  assumes "class_seg m h (xs @ [x]) e" and "distinct (xs @ [x])"
  shows "class_seg (m(x := (m x)\<lparr>next_chunk := e'\<rparr>)) h (xs @ [x]) e'"
  using assms by simp

lemma list_seg_redirect:
  assumes "list_seg m (cs @ [c]) e" and "distinct (concat (cs @ [c]))"
  shows "list_seg (m(hd c := (m (hd c))\<lparr>next_list := e'\<rparr>)) (cs @ [c]) e'"
proof -
  have hd: "c \<noteq> []" "hd c \<in> set c" using assms by auto
  have "class_seg (m(hd c := (m (hd c))\<lparr>next_list := e'\<rparr>)) (hd c) c NULL = class_seg m (hd c) c NULL"
    by (rule class_seg_cong) auto
  moreover have "hd c \<notin> set (concat cs)" using assms(2) hd by auto
  then have "list_seg (m(hd c := (m (hd c))\<lparr>next_list := e'\<rparr>)) cs (hd c) = list_seg m cs (hd c)"
    by (rule list_seg_upd_other)
  ultimately show ?thesis using assms hd by (simp del: fun_upd_apply) simp
qed

subsection \<open>Pointer walks\<close>

lemma rd_eq [simp]: "p \<noteq> NULL \<Longrightarrow> rd s p = Some (mem s p)"
  by (simp add: rd_def)

lemma wr_eq [simp]: "p \<noteq> NULL \<Longrightarrow> wr p f s = Some (s\<lparr>mem := (mem s)(p := f (mem s p))\<rparr>)"
  by (simp add: wr_def)

lemma prev_list_walk:
  assumes "list_seg (mem s) (cs @ c # d # ds) e" and "distinct (concat (cs @ c # d # ds))"
  shows "prev_list s (lfirst (cs @ [c]) NULL) (hd d) = Some (hd c)"
  using assms
proof (induction cs)
  case Nil
  then show ?case
    using list_seg_nonnull [of "mem s" "[c]" "hd d" "hd c"]
    by (subst prev_list.simps) auto
next
  case (Cons b cs)
  have "hd b \<noteq> NULL" using Cons.prems list_seg_nonnull [of "mem s" "[b]" _ "hd b"] by auto
  moreover have "next_list (mem s (hd b)) = lfirst (cs @ [c]) NULL"
    using Cons.prems by (cases cs) auto
  moreover have "lfirst (cs @ [c]) NULL \<in> set (concat (cs @ [c]))"
    using Cons.prems by (cases cs) auto
  then have "lfirst (cs @ [c]) NULL \<noteq> hd d"
    using Cons.prems by (auto dest: hd_in_set)
  ultimately show ?case using Cons
    by (subst prev_list.simps) auto
qed

lemma prev_chunk_walk:
  assumes "class_seg (mem s) h (xs @ x # y # ys) e" and "distinct (xs @ x # y # ys)"
  shows "prev_chunk s (first (xs @ [x]) NULL) y = Some x"
  using assms
proof (induction xs)
  case Nil
  then show ?case by (subst prev_chunk.simps) auto
next
  case (Cons b xs)
  have "next_chunk (mem s b) = first (xs @ [x]) NULL" using Cons.prems by (cases xs) auto
  moreover have "first (xs @ [x]) NULL \<noteq> y" using Cons.prems by (cases xs) auto
  ultimately show ?case using Cons by (subst prev_chunk.simps) auto
qed

lemma last_chunk_walk:
  assumes "class_seg (mem s) h (xs @ [x]) NULL"
  shows "last_chunk s (first (xs @ [x]) NULL) = Some x"
  using assms
proof (induction xs)
  case Nil
  then show ?case by (subst last_chunk.simps) auto
next
  case (Cons b xs)
  have "next_chunk (mem s b) = first (xs @ [x]) NULL" "first (xs @ [x]) NULL \<noteq> NULL"
    using Cons.prems class_seg_nonnull by (cases xs; auto)+
  then show ?case using Cons by (subst last_chunk.simps) auto
qed

lemma set_heads_walk:
  assumes "class_seg (mem s) h' xs NULL" and "distinct xs" and "xs \<noteq> []"
  shows "set_heads h (hd xs) s =
    Some (s\<lparr>mem := \<lambda>p. if p \<in> set xs then (mem s p)\<lparr>head := h\<rparr> else mem s p\<rparr>)"
  using assms
proof (induction xs arbitrary: s)
  case (Cons x xs)
  let ?s = "s\<lparr>mem := (mem s)(x := (mem s x)\<lparr>head := h\<rparr>)\<rparr>"
  show ?case
  proof (cases xs)
    case Nil
    then show ?thesis using Cons.prems
      by (subst set_heads.simps) (auto simp: fun_eq_iff)
  next
    case (Cons y ys)
    have "class_seg ((mem s)(x := (mem s x)\<lparr>head := h\<rparr>)) h' xs NULL"
      using Cons.prems by (subst class_seg_upd_other) auto
    then have "set_heads h (hd xs) ?s =
      Some (?s\<lparr>mem := \<lambda>p. if p \<in> set xs then (mem ?s p)\<lparr>head := h\<rparr> else mem ?s p\<rparr>)"
      using Cons.prems Cons by (intro Cons.IH) (simp_all del: fun_upd_apply)
    moreover have "?s\<lparr>mem := \<lambda>p. if p \<in> set xs then (mem ?s p)\<lparr>head := h\<rparr> else mem ?s p\<rparr>
      = s\<lparr>mem := \<lambda>p. if p \<in> set (x # xs) then (mem s p)\<lparr>head := h\<rparr> else mem s p\<rparr>"
      using Cons.prems by (auto simp: fun_eq_iff)
    moreover have "set_heads h x s = set_heads h (hd xs) ?s"
      using Cons.prems Cons by (subst set_heads.simps) simp
    ultimately show ?thesis by simp
  qed
qed simp

subsection \<open>Frames\<close>

definition same_data :: "mem_chunk \<Rightarrow> mem_chunk \<Rightarrow> bool" where
  "same_data c c' \<longleftrightarrow> sig c' = sig c \<and> chunk_size c' = chunk_size c \<and>
     req_size c' = req_size c \<and> padding_bytes c' = padding_bytes c"

text \<open>Only links change, and only in chunks of \<open>A\<close>.\<close>

definition relinked :: "addr set \<Rightarrow> heap \<Rightarrow> heap \<Rightarrow> bool" where
  "relinked A s s' \<longleftrightarrow> (\<forall>p. p \<notin> A \<longrightarrow> mem s' p = mem s p) \<and> (\<forall>p. same_data (mem s p) (mem s' p))"

lemma same_data_refl [simp]: "same_data c c"
  by (simp add: same_data_def)

lemma same_data_links [simp]:
  "same_data c (c'\<lparr>next_list := a\<rparr>) = same_data c c'"
  "same_data c (c'\<lparr>next_chunk := a\<rparr>) = same_data c c'"
  "same_data c (c'\<lparr>head := a\<rparr>) = same_data c c'"
  by (simp_all add: same_data_def)

lemma relinked_refl [simp]: "relinked A s s"
  by (simp add: relinked_def)

lemma relinked_trans: "relinked A s s' \<Longrightarrow> relinked B s' s'' \<Longrightarrow> relinked (A \<union> B) s s''"
  by (simp add: relinked_def same_data_def)

lemma relinked_mono: "relinked A s s' \<Longrightarrow> A \<subseteq> B \<Longrightarrow> relinked B s s'"
  by (auto simp: relinked_def)

lemma relinked_mem: "relinked A s s' \<Longrightarrow> p \<notin> A \<Longrightarrow> mem s' p = mem s p"
  by (simp add: relinked_def)

lemma relinked_data:
  assumes "relinked A s s'"
  shows "sig (mem s' p) = sig (mem s p)" "chunk_size (mem s' p) = chunk_size (mem s p)"
    "req_size (mem s' p) = req_size (mem s p)" "padding_bytes (mem s' p) = padding_bytes (mem s p)"
  using assms by (simp_all add: relinked_def same_data_def)

lemma relinked_upd:
  "p \<in> A \<Longrightarrow> same_data (mem s p) c \<Longrightarrow> relinked A s (s\<lparr>mem := (mem s)(p := c)\<rparr>)"
  by (simp add: relinked_def)

lemma relinked_quick_list [simp]: "relinked A s (s'\<lparr>quick_list := q\<rparr>) = relinked A s s'"
  by (simp add: relinked_def)

lemma list_seg_relinked:
  "relinked A s s' \<Longrightarrow> set (concat cs) \<inter> A = {} \<Longrightarrow> list_seg (mem s') cs e = list_seg (mem s) cs e"
  by (rule list_seg_cong) (simp add: relinked_mem disjoint_iff)

subsection \<open>Removal\<close>

lemma reset_chunk_eq:
  "x \<noteq> NULL \<Longrightarrow> reset_chunk x s =
    Some (s\<lparr>mem := (mem s)(x := (mem s x)\<lparr>next_list := NULL, next_chunk := NULL, head := NULL\<rparr>)\<rparr>)"
  by (simp add: reset_chunk_def)

lemma unlink_front:
  assumes ls: "list_seg (mem s) (pre @ (x # bs) # post) NULL"
    and d: "distinct (concat (pre @ (x # bs) # post))"
    and q: "quick_list s = lfirst (pre @ (x # bs) # post) NULL"
  obtains s1 where
    "replace_head x n s = Some s1"
    "quick_list s1 = lfirst pre n" "list_seg (mem s1) pre n" "relinked (set (concat pre)) s s1"
proof (cases pre rule: rev_cases)
  case Nil
  then show ?thesis using q by (intro that [of "s\<lparr>quick_list := n\<rparr>"]) (auto simp: replace_head_def)
next
  case (snoc pre' c)
  have c: "c \<noteq> []" "hd c \<in> set c" "hd c \<noteq> NULL"
    using ls snoc list_seg_nonnull [OF ls, of "hd c"] by auto
  have q': "quick_list s = lfirst (pre' @ [c]) NULL"
    using q snoc by simp
  have "quick_list s \<in> set (concat pre)"
    using q' snoc c ls by (cases pre') auto
  then have "x \<noteq> quick_list s" using d by auto
  moreover have "prev_list s (quick_list s) x = Some (hd c)"
    using prev_list_walk [of s pre' c "x # bs" post NULL] ls d snoc q' by simp
  moreover have "list_seg ((mem s)(hd c := (mem s (hd c))\<lparr>next_list := n\<rparr>)) pre n"
  proof -
    have "distinct (concat (pre' @ [c]))" using d snoc by auto
    then show ?thesis using list_seg_redirect [of "mem s" pre' c x n] ls snoc by simp
  qed
  ultimately show ?thesis using c snoc q'
    by (intro that [of "s\<lparr>mem := (mem s)(hd c := (mem s (hd c))\<lparr>next_list := n\<rparr>)\<rparr>"])
      (auto simp: replace_head_def intro!: relinked_upd simp del: fun_upd_apply)
qed

lemma remove_chunk_inner:
  assumes ql: "ql_links s (pre @ (xs @ y # x # bs) # post)"
  obtains s' where "remove_chunk x s = Some s'" "ql_links s' (pre @ (xs @ y # bs) # post)"
    "relinked (insert x (set (concat pre) \<union> set xs \<union> insert y (set bs) \<union> set (concat post))) s s'"
proof -
  let ?c = "xs @ y # x # bs"
  let ?m1 = "(mem s)(y := (mem s y)\<lparr>next_chunk := next_chunk (mem s x)\<rparr>)"
  let ?m2 = "?m1(x := (?m1 x)\<lparr>next_list := NULL, next_chunk := NULL, head := NULL\<rparr>)"
  have cs: "class_seg (mem s) (hd ?c) ?c NULL" and d: "distinct ?c"
    using ql by (auto simp: ql_links_def)
  have hdc: "hd ?c = first (xs @ [y]) NULL" by (cases xs) auto
  have x: "head (mem s x) = hd ?c" "x \<noteq> NULL" "y \<noteq> NULL" "x \<noteq> y" "hd ?c \<noteq> NULL"
    using cs d class_seg_nonnull [OF cs, of "hd ?c"] by (auto simp: hd_append)
  have "hd ?c \<noteq> x" using d by (cases xs) auto
  moreover have "prev_chunk s (hd ?c) x = Some y"
    using prev_chunk_walk [OF cs d] hdc by simp
  ultimately have 1: "remove_chunk x s = Some (s\<lparr>mem := ?m2\<rparr>)"
    using x by (simp add: remove_chunk_def reset_chunk_eq del: fun_upd_apply)
  have "hd (xs @ y # bs) = hd ?c" by (cases xs) auto
  moreover have "class_seg ?m2 h (xs @ y # bs) NULL" if "h = hd ?c" for h
    using cs d that by simp
  ultimately have "list_seg ?m2 [xs @ y # bs] (lfirst post NULL)"
    using ql d by (cases xs) (auto simp: ql_links_def)
  moreover have "list_seg ?m2 pre (hd ?c)" "list_seg ?m2 post NULL"
    using ql by (auto simp: ql_links_def simp del: fun_upd_apply)
  ultimately have 2: "ql_links (s\<lparr>mem := ?m2\<rparr>) (pre @ (xs @ y # bs) # post)"
    using ql \<open>hd (xs @ y # bs) = hd ?c\<close> by (auto simp: ql_links_def simp del: fun_upd_apply)
  show ?thesis by (rule that [OF 1 2]) (auto simp: relinked_def)
qed

lemma remove_chunk_alone:
  assumes ql: "ql_links s (pre @ [x] # post)"
  obtains s' where "remove_chunk x s = Some s'" "ql_links s' (pre @ post)"
    "relinked (insert x (set (concat pre))) s s'"
proof -
  let ?n = "lfirst post NULL"
  have ls: "list_seg (mem s) (pre @ [x] # post) NULL" and d: "distinct (concat (pre @ [x] # post))"
    and q: "quick_list s = lfirst (pre @ [x] # post) NULL"
    using ql by (simp_all add: ql_links_def)
  have x: "x \<noteq> NULL" "head (mem s x) = x" "next_chunk (mem s x) = NULL" "next_list (mem s x) = ?n"
    using ls by auto
  obtain s1 where s1:
    "replace_head x ?n s = Some s1"
    "quick_list s1 = lfirst pre ?n" "list_seg (mem s1) pre ?n" "relinked (set (concat pre)) s s1"
    using unlink_front [OF ls d q] by blast
  have nx: "x \<notin> set (concat pre)" using d by auto
  then have mx: "mem s1 x = mem s x" using s1(4) by (rule relinked_mem [rotated])
  let ?s' = "s1\<lparr>mem := (mem s1)(x := (mem s1 x)\<lparr>next_list := NULL, next_chunk := NULL, head := NULL\<rparr>)\<rparr>"
  have 1: "remove_chunk x s = Some ?s'"
    using x s1(1) mx by (simp add: remove_chunk_def reset_chunk_eq del: fun_upd_apply)
  have "list_seg (mem s1) post NULL = list_seg (mem s) post NULL"
    using d by (intro list_seg_relinked [OF s1(4)]) auto
  then have "ql_links ?s' (pre @ post)"
    using ls d nx s1(2,3) by (auto simp: ql_links_def simp del: fun_upd_apply)
  moreover have "relinked (insert x (set (concat pre))) s ?s'"
    using relinked_trans [OF s1(4) relinked_upd [of x "{x}"]] by simp
  ultimately show ?thesis using 1 that by blast
qed

lemma remove_chunk_head:
  assumes ql: "ql_links s (pre @ (x # y # bs) # post)"
  obtains s' where "remove_chunk x s = Some s'" "ql_links s' (pre @ (y # bs) # post)"
    "relinked (insert x (set (concat pre) \<union> insert y (set bs))) s s'"
proof -
  have ls: "list_seg (mem s) (pre @ (x # y # bs) # post) NULL"
    and d: "distinct (concat (pre @ (x # y # bs) # post))"
    and q: "quick_list s = lfirst (pre @ (x # y # bs) # post) NULL"
    using ql by (simp_all add: ql_links_def)
  have x: "x \<noteq> NULL" "y \<noteq> NULL" "x \<noteq> y" "head (mem s x) = x" "next_chunk (mem s x) = y"
    "next_list (mem s x) = lfirst post NULL" "class_seg (mem s) x (y # bs) NULL"
    using ls d by auto
  obtain s1 where s1:
    "replace_head x y s = Some s1"
    "quick_list s1 = lfirst pre y" "list_seg (mem s1) pre y" "relinked (set (concat pre)) s s1"
    using unlink_front [OF ls d q] by blast
  have nx: "x \<notin> set (concat pre)" "y \<notin> set (concat pre)" "set bs \<inter> set (concat pre) = {}"
    using d by auto
  have mx: "mem s1 x = mem s x" using relinked_mem [OF s1(4) nx(1)] .
  let ?s2 = "s1\<lparr>mem := (mem s1)(y := (mem s1 y)\<lparr>next_list := lfirst post NULL\<rparr>)\<rparr>"
  have "class_seg (mem ?s2) x (y # bs) NULL = class_seg (mem s) x (y # bs) NULL"
    using nx relinked_mem [OF s1(4)] by (intro class_seg_cong) (auto simp: disjoint_iff)
  then have c2: "class_seg (mem ?s2) x (y # bs) NULL" using x by simp
  let ?s3 = "?s2\<lparr>mem := \<lambda>p. if p \<in> set (y # bs) then (mem ?s2 p)\<lparr>head := y\<rparr> else mem ?s2 p\<rparr>"
  let ?s4 = "?s3\<lparr>mem := (mem ?s3)(x := (mem ?s3 x)\<lparr>next_list := NULL, next_chunk := NULL, head := NULL\<rparr>)\<rparr>"
  have sh: "set_heads y y ?s2 = Some ?s3"
    using set_heads_walk [OF c2] d by simp
  have 1: "remove_chunk x s = Some ?s4"
    using x s1(1) mx sh by (simp add: remove_chunk_def reset_chunk_eq del: fun_upd_apply)
  have rl: "relinked (insert x (set (concat pre) \<union> insert y (set bs))) s ?s4"
    using s1(4) by (auto simp: relinked_def same_data_def)
  have "class_seg (mem ?s4) y (y # bs) NULL"
  proof -
    have "class_seg (\<lambda>p. (mem ?s2 p)\<lparr>head := y\<rparr>) y zs NULL" if "class_seg (mem ?s2) x zs NULL" for zs
      using that by (induction zs) auto
    from this [OF c2] show ?thesis
      using d by (subst class_seg_cong [where m = "\<lambda>p. (mem ?s2 p)\<lparr>head := y\<rparr>"]) auto
  qed
  moreover have "list_seg (mem ?s4) pre y = list_seg (mem s1) pre y"
    using d by (intro list_seg_cong) auto
  moreover have "list_seg (mem ?s4) post NULL = list_seg (mem s) post NULL"
    using d by (intro list_seg_relinked [OF rl]) auto
  moreover have "next_list (mem ?s4 y) = lfirst post NULL" using x by simp
  ultimately have "ql_links ?s4 (pre @ (y # bs) # post)"
    using ls d s1(2,3) by (auto simp: ql_links_def simp del: fun_upd_apply)
  then show ?thesis using 1 rl that by blast
qed

fun ql_del :: "addr \<Rightarrow> addr list list \<Rightarrow> addr list list" where
  "ql_del x [] = []"
| "ql_del x (c # cs) =
     (if x \<in> set c then (if remove1 x c = [] then cs else remove1 x c # cs) else c # ql_del x cs)"

lemma ql_del_split:
  assumes "x \<notin> set (concat pre)" and "x \<in> set c"
  shows "ql_del x (pre @ c # post) = pre @ (if remove1 x c = [] then post else remove1 x c # post)"
  using assms by (induction pre) auto

lemma remove_chunk_ok:
  assumes ql: "ql_links s cs" and x: "x \<in> set (concat cs)"
  obtains s' where "remove_chunk x s = Some s'" "ql_links s' (ql_del x cs)"
    "relinked (set (concat cs)) s s'"
proof -
  obtain c where "c \<in> set cs" "x \<in> set c" using x by auto
  then obtain pre post as bs where cs: "cs = pre @ c # post" and c: "c = as @ x # bs"
    by (meson split_list)
  have d: "distinct (concat cs)" using ql by (simp add: ql_links_def)
  have nx: "x \<notin> set (concat pre)" "x \<notin> set as" using d cs c by auto
  have del: "ql_del x cs = pre @ (if as @ bs = [] then post else (as @ bs) # post)"
    using ql_del_split [OF nx(1), of c post] nx(2) by (simp add: cs c remove1_append)
  show ?thesis
  proof (cases as rule: rev_cases)
    case (snoc xs y)
    then have "ql_links s (pre @ (xs @ y # x # bs) # post)" using ql cs c by simp
    then obtain s' where s': "remove_chunk x s = Some s'" "ql_links s' (pre @ (xs @ y # bs) # post)"
      "relinked (insert x (set (concat pre) \<union> set xs \<union> insert y (set bs) \<union> set (concat post))) s s'"
      by (rule remove_chunk_inner)
    show ?thesis
    proof (rule that [OF s'(1)])
      show "ql_links s' (ql_del x cs)" using s'(2) del snoc by simp
      show "relinked (set (concat cs)) s s'" using cs c snoc by (auto intro: relinked_mono [OF s'(3)])
    qed
  next
    case as: Nil
    show ?thesis
    proof (cases bs)
      case Nil
      then have "ql_links s (pre @ [x] # post)" using ql cs c as by simp
      then obtain s' where s': "remove_chunk x s = Some s'" "ql_links s' (pre @ post)"
        "relinked (insert x (set (concat pre))) s s'" by (rule remove_chunk_alone)
      show ?thesis
        by (rule that [OF s'(1)], use s'(2) del as Nil in simp)
          (use cs c as Nil in \<open>auto intro: relinked_mono [OF s'(3)]\<close>)
    next
      case (Cons y ys)
      then have "ql_links s (pre @ (x # y # ys) # post)" using ql cs c as by simp
      then obtain s' where s': "remove_chunk x s = Some s'" "ql_links s' (pre @ (y # ys) # post)"
        "relinked (insert x (set (concat pre) \<union> insert y (set ys))) s s'" by (rule remove_chunk_head)
      show ?thesis
        by (rule that [OF s'(1)], use s'(2) del as Cons in simp)
          (use cs c as Cons in \<open>auto intro: relinked_mono [OF s'(3)]\<close>)
    qed
  qed
qed

subsection \<open>Insertion\<close>

definition ql_ins :: "(addr \<Rightarrow> nat) \<Rightarrow> addr \<Rightarrow> addr list list \<Rightarrow> addr list list" where
  "ql_ins z x cs =
     takeWhile (\<lambda>c. z (hd c) < z x) cs @
     (case dropWhile (\<lambda>c. z (hd c) < z x) cs of
        [] \<Rightarrow> [[x]]
      | c # ds \<Rightarrow> if z (hd c) = z x then (c @ [x]) # ds else [x] # c # ds)"

lemma scan_list_walk:
  assumes "list_seg (mem s) cs NULL"
  shows "scan_list s (lfirst cs NULL) sz l =
    (let P = \<lambda>c. chunk_size (mem s (hd c)) < sz
     in Some (lfirst (dropWhile P cs) NULL,
          if takeWhile P cs = [] then l else hd (last (takeWhile P cs))))"
  using assms
proof (induction cs arbitrary: l)
  case Nil
  then show ?case by (subst scan_list.simps) simp
next
  case (Cons c cs)
  have "hd c \<noteq> NULL" using list_seg_nonnull [OF Cons.prems, of "hd c"] Cons.prems by auto
  then show ?case using Cons by (subst scan_list.simps) (auto simp: Let_def)
qed

lemma list_seg_hd:
  assumes "list_seg m cs e" "c \<in> set cs"
  shows "c \<noteq> []" "hd c \<in> set (concat cs)" "hd c \<noteq> NULL"
proof -
  show "c \<noteq> []" using assms by (rule list_seg_nonempty)
  then show "hd c \<in> set (concat cs)" using assms(2) hd_in_set by fastforce
  then show "hd c \<noteq> NULL" by (rule list_seg_nonnull [OF assms(1)])
qed

text \<open>A chunk on its own after reset, linked as a new class.\<close>

lemma link_new_class:
  assumes "list_seg m lo (lfirst hi NULL)" "list_seg m hi NULL" "distinct (concat (lo @ hi))"
    and "x \<notin> set (concat (lo @ hi))" "x \<noteq> NULL" "next_chunk (m x) = NULL" "lo \<noteq> []"
    and m1: "m1 = m(hd (last lo) := (m (hd (last lo)))\<lparr>next_list := x\<rparr>)"
  shows "list_seg (m1(x := (m1 x)\<lparr>next_list := lfirst hi NULL, head := x\<rparr>)) (lo @ [x] # hi) NULL"
proof -
  obtain lo' c where lo: "lo = lo' @ [c]" using \<open>lo \<noteq> []\<close> by (cases lo rule: rev_cases) auto
  have "hd c \<in> set c" using assms(1) lo by simp
  then have c: "hd c \<in> set c" "hd c \<notin> set (concat hi)" "hd c \<noteq> x"
    using assms(3,4) lo by auto
  have "list_seg m1 lo x"
    using list_seg_redirect [of m lo' c "lfirst hi NULL" x] assms(1,3) lo m1 by auto
  moreover have "list_seg m1 hi NULL" using assms(2) c(2) m1 lo by (simp del: fun_upd_apply)
  ultimately show ?thesis
    using assms(4,5,6) c(3) by (simp del: fun_upd_apply) (simp add: m1 lo)
qed

lemma link_front:
  assumes "list_seg m cs NULL" "x \<notin> set (concat cs)" "x \<noteq> NULL" "next_chunk (m x) = NULL"
  shows "list_seg (m(x := (m x)\<lparr>next_list := lfirst cs NULL, head := x\<rparr>)) ([x] # cs) NULL"
  using assms by (simp del: fun_upd_apply) simp

lemma link_same_size:
  assumes ls: "list_seg m (lo @ (xs @ [y]) # hi) NULL" and d: "distinct (concat (lo @ (xs @ [y]) # hi))"
    and x: "x \<notin> set (concat (lo @ (xs @ [y]) # hi))" "x \<noteq> NULL" "next_chunk (m x) = NULL"
    and m1: "m1 = m(y := (m y)\<lparr>next_chunk := x\<rparr>)"
  shows "list_seg (m1(x := (m1 x)\<lparr>head := hd (xs @ [y])\<rparr>)) (lo @ (xs @ [y, x]) # hi) NULL"
proof -
  have "class_seg m1 (hd (xs @ [y])) (xs @ [y]) x"
    using class_seg_redirect [of m _ xs y NULL x] ls d m1 by simp
  moreover have "y \<notin> set (concat lo)" "y \<notin> set (concat hi)" "x \<noteq> y" using d x by auto
  moreover have "hd (xs @ [y]) = hd (xs @ [y, x])" "hd (xs @ [y]) \<noteq> x" "hd (xs @ [y]) \<notin> set (concat (lo @ hi))"
    using d x by (cases xs; auto)+
  moreover have "next_list (m1 (hd (xs @ [y]))) = next_list (m (hd (xs @ [y])))" using m1 by simp
  ultimately show ?thesis using ls x by (simp add: m1 del: fun_upd_apply) (simp add: m1)
qed


lemma upd_next_list_null: "next_list c = NULL \<Longrightarrow> c\<lparr>next_list := NULL, head := h\<rparr> = c\<lparr>head := h\<rparr>"
  by (cases c) simp

lemma link_chunk_same_size:
  assumes "ql_links s (lo @ (xs @ [y]) # hi)" "x \<notin> set (concat (lo @ (xs @ [y]) # hi))" "x \<noteq> NULL"
    and "next_chunk (mem s x) = NULL" "chunk_size (mem s (hd (xs @ [y]))) = chunk_size (mem s x)"
  obtains s' where "link_chunk x (hd (xs @ [y]), l) s = Some s'"
    "ql_links s' (lo @ (xs @ [y, x]) # hi)" "relinked {x, y} s s'"
proof -
  have ls: "list_seg (mem s) (lo @ (xs @ [y]) # hi) NULL" "distinct (concat (lo @ (xs @ [y]) # hi))"
    using assms(1) by (simp_all add: ql_links_def)
  let ?m1 = "(mem s)(y := (mem s y)\<lparr>next_chunk := x\<rparr>)"
  let ?s' = "s\<lparr>mem := ?m1(x := (?m1 x)\<lparr>head := hd (xs @ [y])\<rparr>)\<rparr>"
  have y: "y \<noteq> NULL" "hd (xs @ [y]) \<noteq> NULL" "hd (xs @ [y]) = first (xs @ [y]) NULL"
    using list_seg_nonnull [OF ls(1)] list_seg_hd(3) [OF ls(1), of "xs @ [y]"] by (auto simp: hd_append first_hd)
  have "last_chunk s (hd (xs @ [y])) = Some y"
    using last_chunk_walk [of s _ xs y] ls y(3) by simp
  then have 1: "link_chunk x (hd (xs @ [y]), l) s = Some ?s'"
    using y assms(3,5) by (simp add: link_chunk_def del: fun_upd_apply)
  have "hd (xs @ [y]) = hd (xs @ [y, x])" by (cases xs) auto
  then have "ql_links ?s' (lo @ (xs @ [y, x]) # hi)"
    using link_same_size [OF ls assms(2,3,4) refl] assms(1,2) by (auto simp: ql_links_def simp del: fun_upd_apply)
  then show thesis by (rule that [OF 1]) (auto simp: relinked_def same_data_def)
qed

lemma link_chunk_front:
  assumes "ql_links s (c # hi)" "x \<notin> set (concat (c # hi))" "x \<noteq> NULL"
    and "next_chunk (mem s x) = NULL" "chunk_size (mem s (hd c)) \<noteq> chunk_size (mem s x)"
  obtains s' where "link_chunk x (hd c, l) s = Some s'" "ql_links s' ([x] # c # hi)" "relinked {x} s s'"
proof -
  let ?s' = "s\<lparr>quick_list := x, mem := (mem s)(x := (mem s x)\<lparr>next_list := hd c, head := x\<rparr>)\<rparr>"
  have ls: "list_seg (mem s) (c # hi) NULL" "quick_list s = hd c"
    using assms(1) by (simp_all add: ql_links_def)
  have "link_chunk x (hd c, l) s = Some ?s'"
    using assms(3,5) ls list_seg_hd(3) [OF ls(1), of c] by (simp add: link_chunk_def del: fun_upd_apply)
  moreover have "ql_links ?s' ([x] # c # hi)"
    using assms link_front [OF ls(1) assms(2,3,4)] by (auto simp: ql_links_def simp del: fun_upd_apply)
  ultimately show thesis by (rule that) (auto simp: relinked_def same_data_def)
qed

lemma link_chunk_after:
  assumes "ql_links s (lo @ hi)" "x \<notin> set (concat (lo @ hi))" "x \<noteq> NULL" "lo \<noteq> []"
    and "next_chunk (mem s x) = NULL" "next_list (mem s x) = NULL"
    and "hi = [] \<or> chunk_size (mem s (hd (hd hi))) \<noteq> chunk_size (mem s x)"
  obtains s' where "link_chunk x (lfirst hi NULL, hd (last lo)) s = Some s'"
    "ql_links s' (lo @ [x] # hi)" "relinked {x, hd (last lo)} s s'"
proof -
  let ?h = "hd (last lo)"
  let ?m1 = "(mem s)(?h := (mem s ?h)\<lparr>next_list := x\<rparr>)"
  let ?s' = "s\<lparr>mem := ?m1(x := (?m1 x)\<lparr>next_list := lfirst hi NULL, head := x\<rparr>)\<rparr>"
  have ls: "list_seg (mem s) (lo @ hi) NULL" "distinct (concat (lo @ hi))"
    "quick_list s = lfirst (lo @ hi) NULL"
    using assms(1) by (simp_all add: ql_links_def)
  have h: "?h \<noteq> NULL" "?h \<noteq> x"
    using list_seg_hd [OF ls(1), of "last lo"] assms(2,4) by auto
  have "link_chunk x (lfirst hi NULL, ?h) s = Some ?s'"
  proof (cases hi)
    case Nil
    then show ?thesis using h assms(3,6) by (simp add: link_chunk_def upd_next_list_null)
  next
    case (Cons d ds)
    obtain lo' k where lo: "lo = lo' @ [k]" using assms(4) by (cases lo rule: rev_cases) auto
    have pl: "prev_list s (quick_list s) (hd d) = Some ?h"
      using prev_list_walk [of s lo' k d ds NULL] ls Cons lo by simp
    then have "quick_list s \<in> set (concat lo)" "hd d \<in> set (concat hi)" "hd d \<noteq> NULL"
      using list_seg_hd [OF ls(1), of "hd lo"] list_seg_hd [OF ls(1), of d] ls assms(4) Cons
      by (cases lo; auto)+
    moreover have "set (concat lo) \<inter> set (concat hi) = {}" using ls(2) by simp
    ultimately have "hd d \<noteq> quick_list s" "hd d \<noteq> NULL" by (metis disjoint_iff)+
    then show ?thesis using pl h assms(3,7) Cons by (simp add: link_chunk_def del: fun_upd_apply)
  qed
  moreover have "ql_links ?s' (lo @ [x] # hi)"
    using link_new_class [of "mem s" lo hi x, OF _ _ ls(2) assms(2,3,5,4) refl] ls assms(2,4)
    by (cases lo) (auto simp: ql_links_def simp del: fun_upd_apply)
  ultimately show thesis by (rule that) (auto simp: relinked_def same_data_def)
qed

lemma link_chunk_new_class:
  assumes "ql_links s (lo @ hi)" "x \<notin> set (concat (lo @ hi))" "x \<noteq> NULL" "lo @ hi \<noteq> []"
    and "next_chunk (mem s x) = NULL" "next_list (mem s x) = NULL"
    and "hi = [] \<or> chunk_size (mem s (hd (hd hi))) \<noteq> chunk_size (mem s x)"
  obtains s' where "link_chunk x (lfirst hi NULL, if lo = [] then NULL else hd (last lo)) s = Some s'"
    "ql_links s' (lo @ [x] # hi)" "relinked (insert x (set (concat (lo @ hi)))) s s'"
proof (cases "lo = []")
  case True
  then obtain c ds where hi: "hi = c # ds" using assms(4) by (cases hi) auto
  obtain s' where s': "link_chunk x (hd c, NULL) s = Some s'" "ql_links s' ([x] # c # ds)" "relinked {x} s s'"
    by (rule link_chunk_front [of s c ds x NULL]) (use assms True hi in simp_all)
  show ?thesis
    by (rule that) (use s' True hi relinked_mono [OF s'(3), of "insert x (set (concat (lo @ hi)))"] in simp_all)
next
  case False
  then obtain s' where s': "link_chunk x (lfirst hi NULL, hd (last lo)) s = Some s'"
    "ql_links s' (lo @ [x] # hi)" "relinked {x, hd (last lo)} s s'"
    by (rule link_chunk_after [OF assms(1-3) _ assms(5-7)])
  have "hd (last lo) \<in> set (concat (lo @ hi))"
    using list_seg_hd(2) [of "mem s" "lo @ hi" NULL "last lo"] assms(1) False by (simp add: ql_links_def)
  then have "relinked (insert x (set (concat (lo @ hi)))) s s'"
    by (intro relinked_mono [OF s'(3)]) simp
  then show ?thesis using that s'(1,2) False by simp
qed

lemma append_chunk_scan:
  assumes ql: "ql_links s0 cs" and x: "x \<notin> set (concat cs)" "x \<noteq> NULL"
    and s: "s = s0\<lparr>mem := (mem s0)(x := (mem s0 x)\<lparr>next_list := NULL, next_chunk := NULL, head := NULL\<rparr>)\<rparr>"
    and z: "z = (\<lambda>p. chunk_size (mem s0 p))"
    and lo: "lo = takeWhile (\<lambda>c. z (hd c) < z x) cs" and hi: "hi = dropWhile (\<lambda>c. z (hd c) < z x) cs"
  shows "reset_chunk x s0 = Some s" "quick_list s = lfirst cs NULL" "list_seg (mem s) cs NULL"
    "scan_list s (quick_list s) (z x) NULL = Some (lfirst hi NULL, if lo = [] then NULL else hd (last lo))"
    "chunk_size (mem s p) = z p" "next_chunk (mem s x) = NULL" "next_list (mem s x) = NULL"
    "relinked {x} s0 s"
proof -
  show 1: "reset_chunk x s0 = Some s" using x s by (simp add: reset_chunk_eq)
  show q: "quick_list s = lfirst cs NULL" using ql s by (simp add: ql_links_def)
  show ls: "list_seg (mem s) cs NULL" using ql x s by (simp add: ql_links_def del: fun_upd_apply)
  show cz: "chunk_size (mem s p) = z p" for p by (simp add: s z)
  show "next_chunk (mem s x) = NULL" "next_list (mem s x) = NULL" by (simp_all add: s)
  show "relinked {x} s0 s" by (auto simp: s intro!: relinked_upd)
  show "scan_list s (quick_list s) (z x) NULL = Some (lfirst hi NULL, if lo = [] then NULL else hd (last lo))"
    using scan_list_walk [OF ls, of "z x" NULL] by (simp add: q cz lo hi Let_def)
qed


lemma append_chunk_ok:
  assumes ql: "ql_links s0 cs" and x: "x \<notin> set (concat cs)" "x \<noteq> NULL"
  obtains s' where "append_chunk x s0 = Some s'"
    "ql_links s' (ql_ins (\<lambda>p. chunk_size (mem s0 p)) x cs)"
    "relinked (insert x (set (concat cs))) s0 s'"
proof -
  note goal = that
  define z where "z = (\<lambda>p. chunk_size (mem s0 p))"
  define s where "s = s0\<lparr>mem := (mem s0)(x := (mem s0 x)\<lparr>next_list := NULL, next_chunk := NULL, head := NULL\<rparr>)\<rparr>"
  define lo hi where "lo = takeWhile (\<lambda>c. z (hd c) < z x) cs" and "hi = dropWhile (\<lambda>c. z (hd c) < z x) cs"
  note pre = append_chunk_scan [OF ql x s_def z_def lo_def hi_def]
  have cs: "cs = lo @ hi" by (simp add: lo_def hi_def)
  have ins: "ql_ins z x cs = lo @ (case hi of [] \<Rightarrow> [[x]]
      | c # ds \<Rightarrow> if z (hd c) = z x then (c @ [x]) # ds else [x] # c # ds)"
    by (simp add: ql_ins_def lo_def hi_def)
  have qs: "ql_links s cs" using pre(2,3) ql by (simp add: ql_links_def)
  have fin: thesis if "append_chunk x s0 = Some s'" "ql_links s' (ql_ins z x cs)"
    "relinked A s s'" "A \<subseteq> insert x (set (concat cs))" for s' A
    using goal that relinked_mono [OF relinked_trans [OF pre(8) that(3)]] by (simp add: z_def)
  have link: "append_chunk x s0 = link_chunk x (lfirst hi NULL, if lo = [] then NULL else hd (last lo)) s"
    if "cs \<noteq> []"
    using that pre x list_seg_hd(3) [OF pre(3), of "hd cs"] by (cases cs) (auto simp: append_chunk_def)
  show thesis
  proof (cases "hi \<noteq> [] \<and> z (hd (hd hi)) = z x")
    case True
    then obtain c ds where "hi = c # ds" "z (hd c) = z x" by (cases hi) auto
    moreover then have "c \<noteq> []" using list_seg_hd(1) [OF pre(3), of c] cs by simp
    then obtain xs y where "c = xs @ [y]" by (cases c rule: rev_cases) auto
    ultimately have hi: "hi = (xs @ [y]) # ds" "z (hd (xs @ [y])) = z x" by simp_all
    let ?l = "if lo = [] then NULL else hd (last lo)"
    obtain s' where "link_chunk x (hd (xs @ [y]), ?l) s = Some s'"
      "ql_links s' (lo @ (xs @ [y, x]) # ds)" "relinked {x, y} s s'"
      by (rule link_chunk_same_size [of s lo xs y ds x ?l]) (use qs x cs pre(5,6) hi in simp_all)
    then show ?thesis using fin [of s' "{x, y}"] cs ins hi link by simp
  next
    case other: False
    then have ins': "ql_ins z x cs = lo @ [x] # hi" using ins by (cases hi) auto
    have qlh: "ql_links s (lo @ hi)" using qs cs by simp
    show ?thesis
    proof (cases "cs = []")
      case True
      then have "append_chunk x s0 = Some (s\<lparr>quick_list := x, mem := (mem s)(x := (mem s x)\<lparr>head := x\<rparr>)\<rparr>)"
        using pre x by (simp add: append_chunk_def)
      then show ?thesis
        by (rule fin [where A = "{x}"]) (use True ins' cs pre x in \<open>auto simp: ql_links_def relinked_def\<close>)
    next
      case False
      obtain s' where "link_chunk x (lfirst hi NULL, if lo = [] then NULL else hd (last lo)) s = Some s'"
        "ql_links s' (lo @ [x] # hi)" "relinked (insert x (set (concat (lo @ hi)))) s s'"
        by (rule link_chunk_new_class [OF qlh, of x]) (use x cs pre(5,6,7) other False in auto)
      then show ?thesis using fin [of s' "insert x (set (concat cs))"] ins' link [OF False] cs by simp
    qed
  qed
qed

subsection \<open>Contents and order of the quick list\<close>

lemma ql_ins_Nil [simp]: "ql_ins z x [] = [[x]]"
  by (simp add: ql_ins_def)

lemma ql_ins_Cons:
  "ql_ins z x (c # cs) = (if z (hd c) < z x then c # ql_ins z x cs
     else if z (hd c) = z x then (c @ [x]) # cs else [x] # c # cs)"
  by (simp add: ql_ins_def)

lemma set_ql_ins: "set (concat (ql_ins z x cs)) = insert x (set (concat cs))"
  by (induction cs) (auto simp: ql_ins_Cons)

lemma set_ql_del:
  "distinct (concat cs) \<Longrightarrow> set (concat (ql_del x cs)) = set (concat cs) - {x}"
proof (induction cs)
  case (Cons c cs)
  show ?case
  proof (cases "x \<in> set c")
    case True
    have "set (remove1 x c) = set c - {x}" using Cons.prems by simp
    moreover have "x \<notin> set (concat cs)" using Cons.prems True by (auto simp: disjoint_iff)
    ultimately show ?thesis using True by (cases "remove1 x c = []") auto
  next
    case False
    then show ?thesis using Cons by auto
  qed
qed simp

text \<open>One size per class, classes in strictly increasing size.\<close>

definition uniform :: "(addr \<Rightarrow> nat) \<Rightarrow> addr list \<Rightarrow> bool" where
  "uniform z c \<longleftrightarrow> (\<forall>x\<in>set c. z x = z (hd c))"

lemma uniformD: "uniform z c \<Longrightarrow> x \<in> set c \<Longrightarrow> z x = z (hd c)"
  by (simp add: uniform_def)

lemma uniform_snoc: "uniform z c \<Longrightarrow> c \<noteq> [] \<Longrightarrow> z x = z (hd c) \<Longrightarrow> uniform z (c @ [x])"
  unfolding uniform_def by (metis hd_append2 in_set_conv_decomp_last rotate1.simps(2) set_ConsD set_rotate1)

lemma uniform_single [simp]: "uniform z [x]"
  by (simp add: uniform_def)

lemma uniform_remove1:
  assumes "uniform z c" "remove1 x c \<noteq> []"
  shows "uniform z (remove1 x c)" "z (hd (remove1 x c)) = z (hd c)"
proof -
  have "z y = z (hd c)" if "y \<in> set (remove1 x c)" for y
    using that assms(1) by (meson notin_set_remove1 uniformD)
  then show "uniform z (remove1 x c)" "z (hd (remove1 x c)) = z (hd c)"
    using assms(2) by (auto simp: uniform_def)
qed

lemma uniform_cong:
  assumes "\<forall>x\<in>set c. z' x = z x" "uniform z c" "c \<noteq> []"
  shows "uniform z' c"
  using assms by (metis hd_in_set uniform_def)

fun ql_sizes :: "(addr \<Rightarrow> nat) \<Rightarrow> addr list list \<Rightarrow> bool" where
  "ql_sizes z [] = True"
| "ql_sizes z (c # cs) \<longleftrightarrow> c \<noteq> [] \<and> uniform z c \<and>
     (\<forall>y\<in>set (concat cs). z (hd c) < z y) \<and> ql_sizes z cs"

lemma ql_sizes_cong:
  "\<forall>x\<in>set (concat cs). z' x = z x \<Longrightarrow> ql_sizes z cs \<Longrightarrow> ql_sizes z' cs"
proof (induction cs)
  case (Cons c cs)
  then have "uniform z' c" "z' (hd c) = z (hd c)"
    using uniform_cong [of c z' z] by auto
  then show ?case using Cons by simp
qed simp

lemma ql_sizes_ins: "ql_sizes z cs \<Longrightarrow> ql_sizes z (ql_ins z x cs)"
proof (induction cs)
  case (Cons c cs)
  consider "z (hd c) < z x" | "z (hd c) = z x" | "z x < z (hd c)" by linarith
  then show ?case
  proof cases
    case 1
    then show ?thesis using Cons by (simp add: ql_ins_Cons set_ql_ins del: set_concat)
  next
    case 2
    then show ?thesis using Cons.prems uniform_snoc [of z c x]
      by (simp add: ql_ins_Cons del: set_concat)
  next
    case 3
    have "z x < z y" if "y \<in> set c" for y
      using 3 uniformD [OF _ that, of z] Cons.prems by simp
    moreover have "z x < z y" if "y \<in> set (concat cs)" for y
      using 3 that Cons.prems by (auto simp del: set_concat intro: less_trans)
    moreover have "ql_ins z x (c # cs) = [x] # c # cs" using 3 by (simp add: ql_ins_Cons)
    ultimately show ?thesis using Cons.prems by (auto simp del: set_concat)
  qed
qed simp

lemma ql_sizes_del:
  "ql_sizes z cs \<Longrightarrow> distinct (concat cs) \<Longrightarrow> ql_sizes z (ql_del x cs)"
proof (induction cs)
  case (Cons c cs)
  have "set (concat (ql_del x cs)) \<subseteq> set (concat cs)" "ql_sizes z (ql_del x cs)"
    using Cons set_ql_del [of cs x] by auto
  then show ?case using Cons.prems(1) uniform_remove1 [of z c x] by (auto simp del: set_concat)
qed simp

end
