(* ===== verification/So3_Heap_Tiling.thy ===== *)
theory So3_Heap_Tiling
  imports So3_Heap_List
begin

section \<open>The blocks of the heap\<close>

text \<open>
  The heap area as a sequence of adjoining blocks, free or handed out. \<open>heap_rep\<close> relates the
  store to such a sequence; \<open>merge_chunks\<close>, \<open>free\<close> and \<open>malloc_aligned\<close> are shown to return
  and to transform the sequence.
\<close>

subsection \<open>The heap as a tiling\<close>

text \<open>
  A block is a start address, the size of its user area and, for an allocated block, the
  address that was handed out with the size that was asked for. The blocks follow each
  other without a gap.
\<close>

type_synonym block = "addr \<times> nat \<times> (addr \<times> nat) option"

fun tiled :: "addr \<Rightarrow> block list \<Rightarrow> addr \<Rightarrow> bool" where
  "tiled a [] e \<longleftrightarrow> a = e"
| "tiled a ((x, n, u) # ts) e \<longleftrightarrow> x = a \<and> tiled (a + HDR + n) ts e"

definition hdr :: "block \<Rightarrow> addr" where
  "hdr b = (case b of (x, n, u) \<Rightarrow> case u of None \<Rightarrow> x | Some (p, r) \<Rightarrow> p - HDR)"

definition block_ok :: "heap \<Rightarrow> block \<Rightarrow> bool" where
  "block_ok s b = (case b of (x, n, u) \<Rightarrow>
     chunk_size (mem s (hdr b)) = n \<and>
     (case u of None \<Rightarrow> True
      | Some (p, r) \<Rightarrow> x + HDR \<le> p \<and> p + r \<le> x + HDR + n \<and> req_size (mem s (hdr b)) = r \<and>
          sig (mem s (hdr b)) = CHUNK_SIG \<and> padding_bytes (mem s (hdr b)) = p - HDR - x))"

definition free_starts :: "block list \<Rightarrow> addr set" where
  "free_starts ts = {x. \<exists>n. (x, n, None) \<in> set ts}"

definition live_blocks :: "block list \<Rightarrow> block list" where
  "live_blocks ts = filter (\<lambda>(x, n, u). u \<noteq> None) ts"

definition coalesced :: "block list \<Rightarrow> bool" where
  "coalesced ts = successively (\<lambda>(x, n, u) (y, m, v). u \<noteq> None \<or> v \<noteq> None) ts"

lemma HDR_pos [simp]: "0 < HDR" "HDR \<noteq> 0"
  by (simp_all add: HDR_def)

lemma tiled_append: "tiled a (ts @ us) e \<longleftrightarrow> (\<exists>m. tiled a ts m \<and> tiled m us e)"
  by (induction a ts e rule: tiled.induct) auto

lemma tiled_bounds: "tiled a ts e \<Longrightarrow> (x, n, u) \<in> set ts \<Longrightarrow> a \<le> x \<and> x + HDR + n \<le> e"
proof (induction a ts e rule: tiled.induct)
  case (2 a y m v ts e)
  have "b \<le> e" if "tiled b ts e" for b
    using that by (induction b ts e rule: tiled.induct) auto
  then show ?case using 2 by fastforce
qed simp

lemma tiled_owner:
  assumes "tiled a ts e" "(x, n, u) \<in> set ts" "(y, m, v) \<in> set ts"
    and "x \<le> q" "q < x + HDR + n" "y \<le> q" "q < y + HDR + m"
  shows "(x, n, u) = (y, m, v)"
  using assms
proof (induction a ts e rule: tiled.induct)
  case (2 a z k w ts e)
  have "a + HDR + k \<le> x'" if "(x', n', u') \<in> set ts" for x' n' u'
    using tiled_bounds [of "a + HDR + k" ts e x' n' u'] 2(2) that by simp
  then show ?case using 2 by fastforce
qed simp

lemma tiled_starts:
  assumes "tiled a ts e" "(x, n, u) \<in> set ts" "(x, m, v) \<in> set ts"
  shows "n = m \<and> u = v"
  using tiled_owner [OF assms, of x] by simp

lemma tiled_distinct: "tiled a ts e \<Longrightarrow> distinct (map fst ts)"
proof (induction a ts e rule: tiled.induct)
  case (2 a x n u ts e)
  then have "a + HDR + n \<le> y" if "(y, m, v) \<in> set ts" for y m v
    using tiled_bounds [of "a + HDR + n" ts e y m v] that by simp
  then have "a \<notin> fst ` set ts" using HDR_pos(1) by (fastforce simp del: HDR_pos)
  then show ?case using 2 by simp
qed simp

lemma hdr_simps [simp]: "hdr (x, n, None) = x" "hdr (x, n, Some (p, r)) = p - HDR"
  by (simp_all add: hdr_def)

lemma block_ok_None [simp]: "block_ok s (x, n, None) \<longleftrightarrow> chunk_size (mem s x) = n"
  by (simp add: block_ok_def)

lemma hdr_bounds:
  assumes "block_ok s (x, n, u)"
  shows "x \<le> hdr (x, n, u) \<and> hdr (x, n, u) < x + HDR + n"
  using assms HDR_pos(1) by (cases u) (auto simp: block_ok_def simp del: HDR_pos)

lemma block_ok_cong:
  assumes "same_data (mem s (hdr b)) (mem s' (hdr b))"
  shows "block_ok s' b = block_ok s b"
  using assms by (auto simp: block_ok_def same_data_def split: option.splits prod.splits)

text \<open>A write inside one block leaves the others as they are.\<close>

lemma block_ok_other:
  assumes "tiled a ts e" "b \<in> set ts" "block_ok s b" "(x, n, u) \<in> set ts" "b \<noteq> (x, n, u)"
    and "\<forall>q. \<not> (x \<le> q \<and> q < x + HDR + n) \<longrightarrow> same_data (mem s q) (mem s' q)"
  shows "block_ok s' b"
proof -
  obtain y m v where b: "b = (y, m, v)" by (cases b)
  have h: "y \<le> hdr b \<and> hdr b < y + HDR + m" using hdr_bounds assms(3) b by simp
  then have "\<not> (x \<le> hdr b \<and> hdr b < x + HDR + n)"
    using tiled_owner [OF assms(1) _ assms(4), of y m v "hdr b"] assms(2,5) b by metis
  then have "same_data (mem s (hdr b)) (mem s' (hdr b))" using assms(6) by simp
  then show ?thesis using block_ok_cong assms(3) by simp
qed

abbreviation sizes :: "heap \<Rightarrow> addr \<Rightarrow> nat" where
  "sizes s \<equiv> \<lambda>p. chunk_size (mem s p)"

definition free_list :: "heap \<Rightarrow> (addr \<Rightarrow> nat) \<Rightarrow> addr set \<Rightarrow> bool" where
  "free_list s z F \<longleftrightarrow> (\<exists>cs. ql_links s cs \<and> ql_sizes z cs \<and> set (concat cs) = F)"

definition heap_rep :: "addr \<Rightarrow> addr \<Rightarrow> heap \<Rightarrow> block list \<Rightarrow> bool" where
  "heap_rep base e s ts \<longleftrightarrow> base \<noteq> NULL \<and> free_list s (sizes s) (free_starts ts) \<and>
     tiled base ts e \<and> (\<forall>b\<in>set ts. block_ok s b)"

lemma blocks_relinked:
  assumes "relinked A s s'" "\<forall>b\<in>set ts. block_ok s b"
  shows "\<forall>b\<in>set ts. block_ok s' b"
  using assms block_ok_cong by (metis relinked_def)

lemma free_list_remove:
  assumes "free_list s z F" "a \<in> F"
  obtains s' where "remove_chunk a s = Some s'" "free_list s' z (F - {a})" "relinked F s s'"
proof -
  obtain cs where cs: "ql_links s cs" "ql_sizes z cs" "set (concat cs) = F"
    using assms(1) by (auto simp: free_list_def)
  have d: "distinct (concat cs)" using cs(1) by (simp add: ql_links_def)
  obtain s' where s': "remove_chunk a s = Some s'" "ql_links s' (ql_del a cs)" "relinked F s s'"
    using remove_chunk_ok [OF cs(1), of a] cs(3) assms(2) by metis
  have "free_list s' z (F - {a})"
    unfolding free_list_def using s'(2) ql_sizes_del [OF cs(2) d] set_ql_del [OF d] cs(3) by metis
  then show thesis using that s' by blast
qed

lemma free_list_append:
  assumes "free_list s z F" "\<forall>p\<in>F. z p = chunk_size (mem s p)" "a \<notin> F" "a \<noteq> NULL"
  obtains s' where "append_chunk a s = Some s'" "free_list s' (sizes s') (insert a F)"
    "relinked (insert a F) s s'"
proof -
  obtain cs where cs: "ql_links s cs" "ql_sizes z cs" "set (concat cs) = F"
    using assms(1) by (auto simp: free_list_def)
  have z: "ql_sizes (sizes s) cs"
    by (rule ql_sizes_cong [OF _ cs(2)]) (use assms(2) cs(3) in \<open>simp del: set_concat\<close>)
  obtain s' where s': "append_chunk a s = Some s'" "ql_links s' (ql_ins (sizes s) a cs)"
      "relinked (insert a F) s s'"
    using append_chunk_ok [OF cs(1), of a] cs(3) assms(3,4) by metis
  have "sizes s' = sizes s" using relinked_data(2) [OF s'(3)] by auto
  then have "free_list s' (sizes s') (insert a F)"
    unfolding free_list_def using s'(2) ql_sizes_ins [OF z] set_ql_ins cs(3) by metis
  then show thesis using that s' by blast
qed

lemma free_list_cong:
  assumes "free_list s z F" "quick_list s' = quick_list s"
    "\<forall>p\<in>F. next_list (mem s' p) = next_list (mem s p) \<and> next_chunk (mem s' p) = next_chunk (mem s p) \<and>
      head (mem s' p) = head (mem s p)" "\<forall>p\<in>F. z' p = z p"
  shows "free_list s' z' F"
proof -
  obtain cs where cs: "ql_links s cs" "ql_sizes z cs" "set (concat cs) = F"
    using assms(1) by (auto simp: free_list_def)
  have "list_seg (mem s') cs NULL = list_seg (mem s) cs NULL"
    by (rule list_seg_cong) (use assms(3) cs(3) in \<open>simp del: set_concat\<close>)
  then have "ql_links s' cs" using cs(1) assms(2) by (simp add: ql_links_def)
  moreover have "ql_sizes z' cs"
    by (rule ql_sizes_cong [OF _ cs(2)]) (use assms(4) cs(3) in \<open>simp del: set_concat\<close>)
  ultimately show ?thesis using cs(3) by (auto simp: free_list_def)
qed

lemma free_starts_simps [simp]:
  "free_starts [] = {}"
  "free_starts ((x, n, None) # ts) = insert x (free_starts ts)"
  "free_starts ((x, n, Some p) # ts) = free_starts ts"
  "free_starts (ts @ us) = free_starts ts \<union> free_starts us"
  by (auto simp: free_starts_def)

lemma free_starts_bounds:
  "tiled a ts e \<Longrightarrow> x \<in> free_starts ts \<Longrightarrow> a \<le> x \<and> x + HDR \<le> e"
  using tiled_bounds by (fastforce simp: free_starts_def)

lemma free_starts_subset: "free_starts ts \<subseteq> fst ` set ts"
  by (force simp: free_starts_def)

text \<open>
  Two neighbouring free blocks become one: the first grows, both leave the quick list,
  the grown one is inserted again.
\<close>

lemma fuse:
  assumes hr: "heap_rep base e s (as @ (a, n, None) # (b, k, None) # bs)"
    and pq: "(p, q) = (a, b) \<or> (p, q) = (b, a)"
    and s1: "s1 = s\<lparr>mem := (mem s)(a := (mem s a)\<lparr>chunk_size := n + (k + HDR)\<rparr>)\<rparr>"
  obtains s2 s3 s4 where "remove_chunk p s1 = Some s2" "remove_chunk q s2 = Some s3"
    "append_chunk a s3 = Some s4" "heap_rep base e s4 (as @ (a, n + (k + HDR), None) # bs)"
    "\<forall>q. sig (mem s4 q) = sig (mem s q)"
proof -
  let ?ts = "as @ (a, n, None) # (b, k, None) # bs" and ?F = "free_starts (as @ bs)"
  have rep: "free_list s (sizes s) (insert a (insert b ?F))" "tiled base ?ts e"
    "\<forall>b\<in>set ?ts. block_ok s b" "base \<noteq> NULL"
    using hr by (simp_all add: heap_rep_def)
  have t': "tiled base (as @ (a, n + (k + HDR), None) # bs) e"
    using rep(2) by (auto simp: tiled_append algebra_simps)
  have ab: "a \<noteq> b" "a \<noteq> NULL"
    using rep(2,4) tiled_bounds [OF rep(2), of a n None] by (auto simp: tiled_append)
  have fs: "a \<notin> ?F" "b \<notin> ?F"
    using tiled_distinct [OF rep(2)] free_starts_subset [of "as @ bs"] by auto
  have F: "{a, b} \<union> ?F = insert p (insert q ?F)" "p \<noteq> q" "p \<notin> ?F" "q \<notin> ?F"
    using pq ab(1) fs by auto
  have "free_list s1 (sizes s) (insert p (insert q ?F))"
    by (rule free_list_cong [of s "sizes s"]) (use rep(1) s1 F(1) in auto)
  then obtain s2 where s2: "remove_chunk p s1 = Some s2" "free_list s2 (sizes s) (insert q ?F)"
    "relinked (insert p (insert q ?F)) s1 s2"
    using free_list_remove [of s1 "sizes s" _ p] F(2,3) by (metis Diff_insert_absorb insert_iff)
  obtain s3 where s3: "remove_chunk q s2 = Some s3" "free_list s3 (sizes s) ?F"
    "relinked (insert q ?F) s2 s3"
    using free_list_remove [OF s2(2), of q] F(4) by (metis Diff_insert_absorb insert_iff)
  have z: "sizes s3 = sizes s1"
    using relinked_data(2) [OF s2(3)] relinked_data(2) [OF s3(3)] by auto
  have "\<forall>p\<in>?F. chunk_size (mem s p) = chunk_size (mem s3 p)" using fun_cong [OF z] s1 fs(1) by auto
  then obtain s4 where s4: "append_chunk a s3 = Some s4" "free_list s4 (sizes s4) (insert a ?F)"
    "relinked (insert a ?F) s3 s4"
    using free_list_append [OF s3(2) _ fs(1) ab(2)] by metis
  have na: "(a, n, None) \<notin> set (as @ bs)" using fs(1) by (auto simp: free_starts_def)
  have "block_ok s1 c" if "c \<in> set (as @ bs)" for c
    by (rule block_ok_other [OF rep(2), of c s a n None]) (use that na rep(3) s1 in auto)
  then have "\<forall>c\<in>set (as @ (a, n + (k + HDR), None) # bs). block_ok s1 c" using s1 by auto
  then have "\<forall>c\<in>set (as @ (a, n + (k + HDR), None) # bs). block_ok s4 c"
    using blocks_relinked s2(3) s3(3) s4(3) by blast
  then have "heap_rep base e s4 (as @ (a, n + (k + HDR), None) # bs)"
    unfolding heap_rep_def using rep(4) s4(2) t' by simp
  moreover have "\<forall>q. sig (mem s4 q) = sig (mem s q)"
    using s1 relinked_data(1) [OF s2(3)] relinked_data(1) [OF s3(3)] relinked_data(1) [OF s4(3)] by simp
  ultimately show thesis using that s2(1) s3(1) s4(1) by blast
qed

subsection \<open>Merging\<close>

lemma find_append:
  "find P (xs @ ys) = (case find P xs of None \<Rightarrow> find P ys | Some x \<Rightarrow> Some x)"
  by (induction xs) auto

lemma adj_in_class_walk:
  assumes "class_seg (mem s) h xs NULL"
  shows "adj_in_class s new (first xs NULL) =
    Some (case find (adjacent s new) xs of None \<Rightarrow> NULL | Some t \<Rightarrow> t)"
  using assms
proof (induction xs)
  case Nil
  then show ?case by (subst adj_in_class.simps) simp
next
  case (Cons x xs)
  then show ?case by (subst adj_in_class.simps) simp
qed

lemma adj_in_lists_walk:
  assumes "list_seg (mem s) cs NULL"
  shows "adj_in_lists s new (lfirst cs NULL) =
    Some (case find (adjacent s new) (concat cs) of None \<Rightarrow> NULL | Some t \<Rightarrow> t)"
  using assms
proof (induction cs)
  case Nil
  then show ?case by (subst adj_in_lists.simps) simp
next
  case (Cons c cs)
  have c: "c \<noteq> []" "hd c \<noteq> NULL" "class_seg (mem s) (hd c) c NULL"
    using Cons.prems list_seg_hd [OF Cons.prems, of c] by auto
  have w: "adj_in_class s new (hd c) = Some (case find (adjacent s new) c of None \<Rightarrow> NULL | Some t \<Rightarrow> t)"
    using adj_in_class_walk [OF c(3)] c(1) by (simp add: first_hd)
  have "t \<noteq> NULL" if "find (adjacent s new) c = Some t" for t
    using that class_seg_nonnull [OF c(3)] by (auto simp: find_Some_iff)
  then show ?case using Cons c w
    by (subst adj_in_lists.simps) (auto simp: find_append split: option.splits)
qed

lemma find_adjacent:
  assumes "free_list s z F"
  obtains "adj_in_lists s new (quick_list s) = Some NULL" "\<forall>t\<in>F. \<not> adjacent s new t"
  | t where "adj_in_lists s new (quick_list s) = Some t" "t \<in> F" "t \<noteq> NULL" "adjacent s new t"
proof -
  obtain cs where cs: "ql_links s cs" "set (concat cs) = F"
    using assms by (auto simp: free_list_def)
  note w = adj_in_lists_walk [of s cs new]
  show thesis
  proof (cases "find (adjacent s new) (concat cs)")
    case None
    then have "\<forall>t\<in>F. \<not> adjacent s new t" using cs(2) by (simp add: find_None_iff del: set_concat)
    then show thesis using that(1) w cs(1) None by (simp add: ql_links_def)
  next
    case (Some t)
    then have "t \<in> set (concat cs)" "adjacent s new t" by (auto simp: find_Some_iff simp del: set_concat)
    then show thesis using that(2) [of t] w cs Some list_seg_nonnull [of "mem s" cs NULL t]
      by (simp add: ql_links_def del: set_concat)
  qed
qed

text \<open>The neighbours of a block in the tiling.\<close>

lemma next_block:
  assumes "tiled base (as @ (a, n, u) # bs) e" "(t, k, v) \<in> set (as @ (a, n, u) # bs)" "a + n + HDR = t"
  obtains bs' where "bs = (t, k, v) # bs'"
proof -
  have t: "tiled t bs e" using assms(1,3) by (auto simp: tiled_append algebra_simps)
  have "t + HDR + k \<le> e" using tiled_bounds [OF assms(1,2)] by simp
  then obtain y m w bs' where bs: "bs = (y, m, w) # bs'" using t HDR_pos by (cases bs) auto
  then have "m = k \<and> w = v" using tiled_starts [OF assms(1) _ assms(2), of m w] t by simp
  then show thesis using that bs t by simp
qed

lemma prev_block:
  assumes "tiled base (as @ (a, n, u) # bs) e" "(t, k, v) \<in> set (as @ (a, n, u) # bs)" "t + k + HDR = a"
  obtains as' where "as = as' @ [(t, k, v)]"
proof -
  have t: "tiled base as a" using assms(1) by (auto simp: tiled_append)
  have "base \<le> t" using tiled_bounds [OF assms(1,2)] by simp
  then obtain y m w as' where as: "as = as' @ [(y, m, w)]"
    using t assms(3) HDR_pos by (cases as rule: rev_cases) auto
  then have "y + HDR + m = a" using t by (simp add: tiled_append)
  then have "(y, m, w) = (t, k, v)"
    using tiled_owner [OF assms(1) _ assms(2), of y m w "a - 1"] as assms(3) HDR_pos(1)
    by (simp add: algebra_simps del: HDR_pos)
  then show thesis using that as by simp
qed

lemma coalesced_append:
  "coalesced (ts @ us) \<longleftrightarrow> coalesced ts \<and> coalesced us \<and>
    (ts = [] \<or> us = [] \<or> snd (snd (last ts)) \<noteq> None \<or> snd (snd (hd us)) \<noteq> None)"
  by (auto simp: coalesced_def successively_append_iff split: prod.splits)

lemma coalesced_Cons:
  "coalesced (b # ts) \<longleftrightarrow> coalesced ts \<and> (ts = [] \<or> snd (snd b) \<noteq> None \<or> snd (snd (hd ts)) \<noteq> None)"
  using coalesced_append [of "[b]" ts] by (simp add: coalesced_def)

lemma live_blocks_simps [simp]:
  "live_blocks [] = []"
  "live_blocks ((x, n, None) # ts) = live_blocks ts"
  "live_blocks ((x, n, Some p) # ts) = (x, n, Some p) # live_blocks ts"
  "live_blocks (ts @ us) = live_blocks ts @ live_blocks us"
  by (simp_all add: live_blocks_def)

lemma not_adjacent_coalesced:
  assumes hr: "heap_rep base e s (as @ (a, n, None) # bs)" and co: "coalesced as" "coalesced bs"
    and na: "\<forall>t\<in>free_starts (as @ (a, n, None) # bs). \<not> adjacent s a t"
  shows "coalesced (as @ (a, n, None) # bs)"
proof -
  have t: "tiled base (as @ (a, n, None) # bs) e" and bo: "\<forall>b\<in>set (as @ (a, n, None) # bs). block_ok s b"
    using hr by (simp_all add: heap_rep_def)
  have n: "chunk_size (mem s a) = n" using bo by simp
  have "snd (snd (hd bs)) \<noteq> None" if ne: "bs \<noteq> []"
  proof
    assume "snd (snd (hd bs)) = None"
    then obtain y m bs' where bs: "bs = (y, m, None) # bs'" using ne by (cases bs) auto
    then have "a + n + HDR = y" using t by (simp add: tiled_append algebra_simps)
    then show False using na bs n by (simp add: adjacent_def)
  qed
  moreover have "snd (snd (last as)) \<noteq> None" if ne: "as \<noteq> []"
  proof
    assume "snd (snd (last as)) = None"
    then obtain y m as' where as: "as = as' @ [(y, m, None)]" using ne by (cases as rule: rev_cases) auto
    then have "y + m + HDR = a" "chunk_size (mem s y) = m" using t bo by (auto simp: tiled_append algebra_simps)
    then show False using na as by (simp add: adjacent_def)
  qed
  ultimately show ?thesis using co by (auto simp: coalesced_append coalesced_Cons)
qed

lemma merge_step:
  assumes hr: "heap_rep base e s (as @ (a, n, None) # bs)" and co: "coalesced as" "coalesced bs"
    and t: "adj_in_lists s a (quick_list s) = Some t" "t \<noteq> NULL" "t \<in> free_starts (as @ (a, n, None) # bs)"
      "adjacent s a t"
  obtains s' a' n' as' bs' where "merge_chunks a s = merge_chunks a' s'"
    "heap_rep base e s' (as' @ (a', n', None) # bs')" "coalesced as'" "coalesced bs'"
    "live_blocks (as' @ bs') = live_blocks (as @ bs)" "length (as' @ bs') < length (as @ bs)"
    "\<forall>q. sig (mem s' q) = sig (mem s q)"
proof -
  let ?ts = "as @ (a, n, None) # bs"
  have rep: "tiled base ?ts e" "\<forall>b\<in>set ?ts. block_ok s b" "base \<noteq> NULL" using hr by (simp_all add: heap_rep_def)
  obtain k where k: "(t, k, None) \<in> set ?ts" using t(3) by (auto simp: free_starts_def)
  have sz: "chunk_size (mem s t) = k" "chunk_size (mem s a) = n" using bspec [OF rep(2) k] rep(2) by auto
  have a: "a \<noteq> NULL" using tiled_bounds [OF rep(1), of a n None] rep(3) by auto
  consider "a + n + HDR = t" | "t + k + HDR = a" using t(4) sz by (auto simp: adjacent_def)
  then show thesis
  proof cases
    case 1
    then obtain bs' where bs: "bs = (t, k, None) # bs'" using next_block [OF rep(1) k] by blast
    have lt: "a < t" using 1 HDR_pos(1) by linarith
    obtain s2 s3 s4 where s4: "remove_chunk t (s\<lparr>mem := (mem s)(a := (mem s a)\<lparr>chunk_size := n + (k + HDR)\<rparr>)\<rparr>) = Some s2"
      "remove_chunk a s2 = Some s3" "append_chunk a s3 = Some s4" 
      "heap_rep base e s4 (as @ (a, n + (k + HDR), None) # bs')" "\<forall>q. sig (mem s4 q) = sig (mem s q)"
      using fuse [of base e s as a n t k bs' t a, OF _ _ refl] hr bs by metis
    have "merge_chunks a s = merge_chunks a s4"
      using s4(1-3) t(1,2) a sz lt by (subst merge_chunks.simps) (simp del: fun_upd_apply)
    then show thesis by (rule that [OF _ s4(4) _ _ _ _ s4(5)]) (use co bs in \<open>simp_all add: coalesced_Cons\<close>)
  next
    case 2
    then obtain as' where as: "as = as' @ [(t, k, None)]" using prev_block [OF rep(1) k] by blast
    have lt: "\<not> a < t" using 2 by linarith
    obtain s2 s3 s4 where s4: "remove_chunk t (s\<lparr>mem := (mem s)(t := (mem s t)\<lparr>chunk_size := k + (n + HDR)\<rparr>)\<rparr>) = Some s2"
      "remove_chunk a s2 = Some s3" "append_chunk t s3 = Some s4" 
      "heap_rep base e s4 (as' @ (t, k + (n + HDR), None) # bs)" "\<forall>q. sig (mem s4 q) = sig (mem s q)"
      using fuse [of base e s as' t k a n bs t a, OF _ _ refl] hr as by (metis append.assoc append_Cons append_Nil)
    have "merge_chunks a s = merge_chunks t s4"
      using s4(1-3) t(1,2) a sz lt by (subst merge_chunks.simps) (simp del: fun_upd_apply)
    then show thesis by (rule that [OF _ s4(4) _ _ _ _ s4(5)]) (use co as in \<open>simp_all add: coalesced_append\<close>)
  qed
qed

lemma merge_chunks_ok:
  assumes "heap_rep base e s (as @ (a, n, None) # bs)" "coalesced as" "coalesced bs"
  shows "\<exists>s' ts'. merge_chunks a s = Some s' \<and> heap_rep base e s' ts' \<and> coalesced ts' \<and>
    live_blocks ts' = live_blocks (as @ bs) \<and> (\<forall>q. sig (mem s' q) = sig (mem s q))"
  using assms
proof (induction "length (as @ bs)" arbitrary: s as a n bs rule: less_induct)
  case less
  have fl: "free_list s (sizes s) (free_starts (as @ (a, n, None) # bs))"
    using less.prems(1) by (simp add: heap_rep_def)
  show ?case
  proof (rule find_adjacent [OF fl, of a])
    assume "adj_in_lists s a (quick_list s) = Some NULL"
      and na: "\<forall>t\<in>free_starts (as @ (a, n, None) # bs). \<not> adjacent s a t"
    then have "merge_chunks a s = Some s" by (subst merge_chunks.simps) simp
    moreover have "coalesced (as @ (a, n, None) # bs)" by (rule not_adjacent_coalesced [OF less.prems na])
    ultimately show ?thesis using less.prems(1) by force
  next
    fix t
    assume t: "adj_in_lists s a (quick_list s) = Some t" "t \<in> free_starts (as @ (a, n, None) # bs)"
      "t \<noteq> NULL" "adjacent s a t"
    obtain s' a' n' as' bs' where "merge_chunks a s = merge_chunks a' s'"
      "heap_rep base e s' (as' @ (a', n', None) # bs')" "coalesced as'" "coalesced bs'"
      "live_blocks (as' @ bs') = live_blocks (as @ bs)" "length (as' @ bs') < length (as @ bs)"
      "\<forall>q. sig (mem s' q) = sig (mem s q)"
      by (rule merge_step [OF less.prems t(1,3,2,4)])
    then show ?thesis using less.hyps by metis
  qed
qed

subsection \<open>Release\<close>

text \<open>Writes inside a block that is not in the quick list leave the rest of the heap alone.\<close>

lemma rest_of_heap:
  assumes t: "tiled base (as @ (x, n, u) # bs) e" and bo: "\<forall>b\<in>set (as @ bs). block_ok s b"
    and fl: "free_list s z (free_starts (as @ bs))" "\<forall>q\<in>free_starts (as @ bs). z q = chunk_size (mem s q)"
    and q: "quick_list s' = quick_list s" "\<forall>q. \<not> (x \<le> q \<and> q < x + HDR + n) \<longrightarrow> mem s' q = mem s q"
  shows "\<forall>b\<in>set (as @ bs). block_ok s' b" "free_list s' (sizes s') (free_starts (as @ bs))"
    "\<forall>q\<in>free_starts (as @ bs). \<not> (x \<le> q \<and> q < x + HDR + n)"
proof -
  have "x \<notin> fst ` set (as @ bs)" using tiled_distinct [OF t] by auto
  then have x: "(x, n, u) \<notin> set (as @ bs)" by (metis fst_conv image_eqI)
  show 1: "\<forall>q\<in>free_starts (as @ bs). \<not> (x \<le> q \<and> q < x + HDR + n)"
  proof
    fix q assume "q \<in> free_starts (as @ bs)"
    then obtain m where m: "(q, m, None) \<in> set (as @ bs)" by (auto simp: free_starts_def)
    then show "\<not> (x \<le> q \<and> q < x + HDR + n)"
      using tiled_owner [OF t, of q m None x n u q] x by auto
  qed
  show "\<forall>b\<in>set (as @ bs). block_ok s' b"
  proof
    fix b assume b: "b \<in> set (as @ bs)"
    show "block_ok s' b"
      by (rule block_ok_other [OF t, of b s x n u]) (use b x bo q(2) in auto)
  qed
  show "free_list s' (sizes s') (free_starts (as @ bs))"
    by (rule free_list_cong [OF fl(1) q(1)]) (use 1 q(2) fl(2) in auto)
qed

lemma free_restores:
  assumes "block_ok s (x, n, Some (p, r))" "x \<noteq> NULL"
  obtains s2 where "free p s = append_chunk x s2 \<bind> merge_chunks x" "quick_list s2 = quick_list s"
    "\<forall>q. \<not> (x \<le> q \<and> q < x + HDR + n) \<longrightarrow> mem s2 q = mem s q"
    "chunk_size (mem s2 x) = n" "p = x + HDR \<longrightarrow> sig (mem s2 x) = 0"
proof -
  obtain d where p: "p = x + d + HDR" using assms(1) le_Suc_ex [of "x + HDR" p]
    by (auto simp: block_ok_def algebra_simps)
  have c: "d < HDR + n" "sig (mem s (x + d)) = CHUNK_SIG" "padding_bytes (mem s (x + d)) = d"
      "chunk_size (mem s (x + d)) = n"
    using assms(1) p HDR_pos(1) by (auto simp: block_ok_def simp del: HDR_pos)
  show thesis
  proof (cases "d = 0")
    case True
    show thesis
      by (rule that [of "s\<lparr>mem := (mem s)(x := (mem s x)\<lparr>sig := 0\<rparr>)\<rparr>"])
        (use p c True assms(2) in \<open>simp_all add: free_def already_freed_def\<close>)
  next
    case False
    then show thesis
      by (intro that [of "s\<lparr>mem := (mem s)(x + d := (mem s (x + d))\<lparr>sig := 0\<rparr>,
          x := (mem s (x + d))\<lparr>sig := 0, padding_bytes := 0\<rparr>)\<rparr>"])
        (use p c assms(2) in \<open>simp_all add: free_def already_freed_def Let_def\<close>)
  qed
qed

lemma free_ok:
  assumes hr: "heap_rep base e s (as @ (x, n, Some (p, r)) # bs)" and co: "coalesced as" "coalesced bs"
  shows "\<exists>s' ts'. free p s = Some s' \<and> heap_rep base e s' ts' \<and> coalesced ts' \<and>
    live_blocks ts' = live_blocks (as @ bs) \<and> (p = x + HDR \<longrightarrow> sig (mem s' x) = 0)"
proof -
  let ?F = "free_starts (as @ bs)"
  have rep: "free_list s (sizes s) ?F" "tiled base (as @ (x, n, Some (p, r)) # bs) e"
    "\<forall>b\<in>set (as @ bs). block_ok s b" "block_ok s (x, n, Some (p, r))" "base \<noteq> NULL"
    using hr by (simp_all add: heap_rep_def)
  have x: "x \<noteq> NULL" using tiled_bounds [OF rep(2), of x n "Some (p, r)"] rep(5) by auto
  obtain s2 where s2: "free p s = append_chunk x s2 \<bind> merge_chunks x" "quick_list s2 = quick_list s"
    "\<forall>q. \<not> (x \<le> q \<and> q < x + HDR + n) \<longrightarrow> mem s2 q = mem s q"
    "chunk_size (mem s2 x) = n" "p = x + HDR \<longrightarrow> sig (mem s2 x) = 0"
    by (rule free_restores [OF rep(4) x])
  note rest = rest_of_heap [OF rep(2,3,1) _ s2(2,3)]
  have "x \<notin> ?F" using rest(3) by auto
  then obtain s3 where s3: "append_chunk x s2 = Some s3" "free_list s3 (sizes s3) (insert x ?F)"
    "relinked (insert x ?F) s2 s3"
    using free_list_append [OF rest(2) _ _ x] by auto
  have "\<forall>b\<in>set (as @ (x, n, None) # bs). block_ok s2 b" using rest(1) s2(4) by auto
  then have "\<forall>b\<in>set (as @ (x, n, None) # bs). block_ok s3 b" by (rule blocks_relinked [OF s3(3)])
  moreover have "tiled base (as @ (x, n, None) # bs) e" using rep(2) by (simp add: tiled_append)
  ultimately have "heap_rep base e s3 (as @ (x, n, None) # bs)"
    using s3(2) rep(5) by (simp add: heap_rep_def)
  then obtain s' ts' where "merge_chunks x s3 = Some s'" "heap_rep base e s' ts'" "coalesced ts'"
    "live_blocks ts' = live_blocks (as @ bs)" "\<forall>q. sig (mem s' q) = sig (mem s3 q)"
    using merge_chunks_ok co by blast
  then show ?thesis using s2(1,5) s3(1) relinked_data(1) [OF s3(3)] by auto
qed

subsection \<open>Alignment\<close>

lemma align_addr_eq:
  assumes "a + 2 ^ k \<le> 2 ^ 64" "k < 64"
  shows "align_addr a (2 ^ k) = (a + 2 ^ k - 1) - (a + 2 ^ k - 1) mod 2 ^ k"
proof -
  have 1: "1 \<le> a + 2 ^ k" by (simp add: Suc_leI)
  have "unat ((of_nat a :: u64) + of_nat (2 ^ k) - 1) = a + 2 ^ k - 1"
  proof -
    have "(of_nat a :: u64) + of_nat (2 ^ k) - 1 = of_nat (a + 2 ^ k - 1)"
      using of_nat_diff [OF 1, where ?'a = u64] by simp
    moreover have "a + 2 ^ k - 1 < 2 ^ 64" using assms(1) 1 by linarith
    ultimately show ?thesis by (simp add: unat_of_nat take_bit_eq_mod)
  qed
  moreover have "- (of_nat (2 ^ k) :: u64) = NOT (mask k)"
    by (simp add: minus_exp_eq_not_mask)
  ultimately show ?thesis by (simp add: align_addr_def unat_and_not_mask)
qed

lemma align_addr_bounds:
  assumes "a + 2 ^ k \<le> 2 ^ 64" "k < 64"
  shows "a \<le> align_addr a (2 ^ k)" "align_addr a (2 ^ k) < a + 2 ^ k" "2 ^ k dvd align_addr a (2 ^ k)"
proof -
  have m: "(a + 2 ^ k - 1) mod 2 ^ k < (2 ^ k :: nat)" by simp
  show "a \<le> align_addr a (2 ^ k)" "align_addr a (2 ^ k) < a + 2 ^ k"
    using m unfolding align_addr_eq [OF assms] by linarith+
  show "2 ^ k dvd align_addr a (2 ^ k)"
    unfolding align_addr_eq [OF assms] by (simp add: minus_mod_eq_mult_div)
qed

definition pow2 :: "nat \<Rightarrow> bool" where
  "pow2 al \<longleftrightarrow> (\<exists>k<32. al = 2 ^ k)"

definition align_of :: "nat \<Rightarrow> nat" where
  "align_of al = (if al = 0 then SIZEOF_INT else al)"

lemma align_of_pow2:
  assumes "al = 0 \<or> pow2 al"
  obtains k where "k < 32" "align_of al = 2 ^ k"
  using assms by (auto simp: pow2_def align_of_def SIZEOF_INT_def intro: that [of 2])

lemma align_of_idem [simp]: "align_of (align_of al) = align_of al"
  by (simp add: align_of_def SIZEOF_INT_def)

text \<open>The bytes lost in front of the user area when a chunk at \<open>v\<close> serves a request.\<close>

definition pad :: "nat \<Rightarrow> addr \<Rightarrow> nat" where
  "pad al v = align_addr (v + HDR) (align_of al) - (v + HDR)"

lemma align_pad:
  assumes "al = 0 \<or> pow2 al" "v + HDR + 2 ^ 32 \<le> 2 ^ 64"
  shows "align_addr (v + HDR) (align_of al) = v + HDR + pad al v"
    "pad al v < align_of al" "pad al v < 2 ^ 32" "align_of al dvd v + HDR + pad al v"
proof -
  obtain k where k: "k < 32" "align_of al = 2 ^ k" using align_of_pow2 [OF assms(1)] .
  have "(2::nat) ^ k \<le> 2 ^ 32" using k(1) by (intro power_increasing) auto
  then have "v + HDR + 2 ^ k \<le> 2 ^ 64" "k < 64" using assms(2) k(1) by linarith+
  note b = align_addr_bounds [OF this]
  show 1: "align_addr (v + HDR) (align_of al) = v + HDR + pad al v"
    using b(1) k(2) by (simp add: pad_def)
  show 2: "pad al v < align_of al" using b(1,2) k(2) unfolding pad_def by simp
  show "pad al v < 2 ^ 32" using 2 \<open>(2::nat) ^ k \<le> 2 ^ 32\<close> k(2) by linarith
  show "align_of al dvd v + HDR + pad al v" using b(3) k(2) 1 by simp
qed

lemma align_of_ok: "al = 0 \<or> pow2 al \<Longrightarrow> align_of al = 0 \<or> pow2 (align_of al)"
  by (auto simp: align_of_def pow2_def SIZEOF_INT_def intro: exI [of _ 2])

subsection \<open>Choosing the victim\<close>

text \<open>
  The search writes the requested size and the padding into free chunks only; the links
  and the sizes stay.
\<close>

definition marked :: "addr set \<Rightarrow> heap \<Rightarrow> heap \<Rightarrow> bool" where
  "marked A s s' \<longleftrightarrow> quick_list s' = quick_list s \<and> (\<forall>q. q \<notin> A \<longrightarrow> mem s' q = mem s q) \<and>
     (\<forall>q. next_list (mem s' q) = next_list (mem s q) \<and> next_chunk (mem s' q) = next_chunk (mem s q) \<and>
       head (mem s' q) = head (mem s q) \<and> chunk_size (mem s' q) = chunk_size (mem s q))"

lemma marked_refl [simp]: "marked A s s"
  by (simp add: marked_def)

lemma marked_trans: "marked A s s' \<Longrightarrow> marked B s' s'' \<Longrightarrow> A \<subseteq> C \<Longrightarrow> B \<subseteq> C \<Longrightarrow> marked C s s''"
  unfolding marked_def by (metis subsetD)

lemma marked_upd:
  "p \<in> A \<Longrightarrow> marked A s (s\<lparr>mem := (mem s)(p := (mem s p)\<lparr>req_size := r\<rparr>)\<rparr>)"
  "p \<in> A \<Longrightarrow> marked A s (s\<lparr>mem := (mem s)(p := (mem s p)\<lparr>req_size := r, padding_bytes := d\<rparr>)\<rparr>)"
  by (auto simp: marked_def)

lemma list_seg_marked: "marked A s s' \<Longrightarrow> list_seg (mem s') cs e = list_seg (mem s) cs e"
  by (rule list_seg_cong) (simp add: marked_def)

lemma marked_size: "marked A s s' \<Longrightarrow> chunk_size (mem s' q) = chunk_size (mem s q)"
  by (simp add: marked_def)

definition fits :: "heap \<Rightarrow> nat \<Rightarrow> nat \<Rightarrow> addr \<Rightarrow> bool" where
  "fits s r al v \<longleftrightarrow> pad al v + r \<le> chunk_size (mem s v)"

lemma find_victim_skip:
  assumes "list_seg (mem s) (c # cs) NULL" "chunk_size (mem s (hd c)) < r"
  shows "find_victim (hd c) r al s = find_victim (lfirst cs NULL) r al s"
proof -
  have "scan_fit s (hd c) r = scan_fit s (lfirst cs NULL) r"
    using assms list_seg_hd(3) [OF assms(1), of c] by (subst scan_fit.simps) simp
  then show ?thesis by (subst (1 2) find_victim.simps) simp
qed

lemma class_last:
  assumes "list_seg (mem s) (c # cs) e"
  shows "last_chunk s (hd c) = Some (last c)" "last c \<noteq> NULL" "head (mem s (last c)) = hd c" "last c \<in> set c"
proof -
  have c: "class_seg (mem s) (hd c) c NULL" "c \<noteq> []" using assms by auto
  then show "last c \<in> set c" by simp
  then show "last c \<noteq> NULL" "head (mem s (last c)) = hd c"
    using class_seg_nonnull [OF c(1)] class_seg_head [OF c(1)] by auto
  show "last_chunk s (hd c) = Some (last c)"
    using last_chunk_walk [of s "hd c" "butlast c" "last c"] c by (simp add: first_hd)
qed

lemma find_victim_try:
  assumes ls: "list_seg (mem s) (c # cs) NULL" and r: "r \<le> chunk_size (mem s (hd c))"
    and al: "al = 0 \<or> pow2 al" and b: "last c + HDR + 2 ^ 32 \<le> 2 ^ 64"
  shows "fits s r al (last c) \<Longrightarrow> find_victim (hd c) r al s = Some (last c + HDR + pad al (last c), last c,
      s\<lparr>mem := (mem s)(last c := (mem s (last c))\<lparr>req_size := r, padding_bytes := pad al (last c)\<rparr>)\<rparr>)"
    "\<not> fits s r al (last c) \<Longrightarrow> find_victim (hd c) r al s = find_victim (lfirst cs NULL) r (align_of al)
      (s\<lparr>mem := (mem s)(last c := (mem s (last c))\<lparr>req_size := r\<rparr>)\<rparr>)"
proof -
  have hd: "hd c \<noteq> NULL" using list_seg_hd(3) [OF ls, of c] by simp
  have sc: "scan_fit s (hd c) r = Some (hd c)" using hd r by (subst scan_fit.simps) simp
  note v = class_last [OF ls]
  have a: "align_addr (last c + HDR) (if al = 0 then SIZEOF_INT else al) = last c + HDR + pad al (last c)"
    "pad al (last c) mod 2 ^ 32 = pad al (last c)"
    using align_pad [OF al b] by (auto simp: align_of_def)
  show "fits s r al (last c) \<Longrightarrow> find_victim (hd c) r al s = Some (last c + HDR + pad al (last c), last c,
      s\<lparr>mem := (mem s)(last c := (mem s (last c))\<lparr>req_size := r, padding_bytes := pad al (last c)\<rparr>)\<rparr>)"
    using v hd sc a by (subst find_victim.simps) (simp add: fits_def Let_def)
  show "\<not> fits s r al (last c) \<Longrightarrow> find_victim (hd c) r al s = find_victim (lfirst cs NULL) r (align_of al)
      (s\<lparr>mem := (mem s)(last c := (mem s (last c))\<lparr>req_size := r\<rparr>)\<rparr>)"
    using v hd sc a ls by (subst find_victim.simps) (auto simp: fits_def Let_def align_of_def)
qed

definition found :: "heap \<Rightarrow> nat \<Rightarrow> nat \<Rightarrow> addr list list \<Rightarrow> addr \<times> addr \<times> heap \<Rightarrow> bool" where
  "found s r al cs = (\<lambda>(adr, v, s').
     if v = NULL then adr = NULL \<and> (\<forall>c\<in>set cs. \<not> fits s r al (last c))
     else v \<in> set (concat cs) \<and> adr = v + HDR + pad al v \<and> fits s r al v \<and>
       req_size (mem s' v) = r \<and> padding_bytes (mem s' v) = pad al v \<and>
       (\<forall>c\<in>set cs. fits s r al (last c) \<longrightarrow> chunk_size (mem s v) \<le> chunk_size (mem s (last c))))"

lemma found_Cons: "found s r al cs x \<Longrightarrow> \<not> fits s r al (last c) \<Longrightarrow> found s r al (c # cs) x"
  by (auto simp: found_def split: prod.splits)

lemma found_marked:
  assumes "marked A s s'"
  shows "found s' r (align_of al) cs x = found s r al cs x"
  using marked_size [OF assms] by (simp add: found_def fits_def pad_def)

lemma found_here:
  assumes "list_seg (mem s) (c # cs) NULL" "ql_sizes (sizes s) (c # cs)" "fits s r al (last c)"
  shows "found s r al (c # cs) (last c + HDR + pad al (last c), last c,
    s\<lparr>mem := (mem s)(last c := (mem s (last c))\<lparr>req_size := r, padding_bytes := pad al (last c)\<rparr>)\<rparr>)"
proof -
  note v = class_last [OF assms(1)]
  have "chunk_size (mem s (last c)) = chunk_size (mem s (hd c))"
    using assms(2) v(4) uniformD [of "sizes s" c "last c"] by simp
  moreover have "chunk_size (mem s (hd c)) < chunk_size (mem s (last d))" if "d \<in> set cs" for d
  proof -
    have "d \<noteq> []" using list_seg_nonempty [of "mem s" cs NULL d] assms(1) that by simp
    then have "last d \<in> set (concat cs)" using that last_in_set by fastforce
    then show ?thesis using assms(2) by (simp del: set_concat)
  qed
  ultimately show ?thesis using v(2,4) assms(3) by (auto simp: found_def less_imp_le)
qed

lemma find_victim_ok:
  assumes "list_seg (mem s) cs NULL" "ql_sizes (sizes s) cs" "al = 0 \<or> pow2 al"
    and "\<forall>v\<in>set (concat cs). v + HDR + 2 ^ 32 \<le> 2 ^ 64"
  shows "\<exists>x. find_victim (lfirst cs NULL) r al s = Some x \<and> found s r al cs x \<and>
    marked (set (concat cs)) s (snd (snd x))"
  using assms
proof (induction cs arbitrary: s al)
  case Nil
  then show ?case by (subst find_victim.simps, subst scan_fit.simps) (simp add: found_def)
next
  case (Cons c cs)
  note v = class_last [OF Cons.prems(1)]
  have c: "uniform (sizes s) c" "ql_sizes (sizes s) cs" "list_seg (mem s) cs NULL" using Cons.prems by auto
  have z: "chunk_size (mem s (last c)) = chunk_size (mem s (hd c))" using uniformD [OF c(1)] v(4) by simp
  have b: "last c + HDR + 2 ^ 32 \<le> 2 ^ 64" "\<forall>v\<in>set (concat cs). v + HDR + 2 ^ 32 \<le> 2 ^ 64"
    using Cons.prems(4) v(4) by auto
  consider "chunk_size (mem s (hd c)) < r" | "fits s r al (last c)" "r \<le> chunk_size (mem s (hd c))"
    | "\<not> fits s r al (last c)" "r \<le> chunk_size (mem s (hd c))" by linarith
  then show ?case
  proof cases
    case 1
    have nf: "\<not> fits s r al (last c)" using 1 z by (simp add: fits_def)
    obtain x where "find_victim (lfirst cs NULL) r al s = Some x" "found s r al cs x"
        "marked (set (concat cs)) s (snd (snd x))"
      using Cons.IH [OF c(3,2) Cons.prems(3) b(2)] by blast
    then show ?thesis using find_victim_skip [OF Cons.prems(1) 1] found_Cons [OF _ nf]
      marked_trans [OF _ marked_refl, of "set (concat cs)" s _ "set (concat (c # cs))" "{}"] by auto
  next
    case 2
    then show ?thesis
      using find_victim_try(1) [OF Cons.prems(1) 2(2) Cons.prems(3) b(1) 2(1)]
        found_here [OF Cons.prems(1,2) 2(1)] marked_upd(2) [of "last c"] v(4) by simp
  next
    case 3
    define s1 where "s1 = s\<lparr>mem := (mem s)(last c := (mem s (last c))\<lparr>req_size := r\<rparr>)\<rparr>"
    have m: "marked (set (concat (c # cs))) s s1" unfolding s1_def by (rule marked_upd) (simp add: v(4))
    have "list_seg (mem s1) cs NULL" "ql_sizes (sizes s1) cs"
      using list_seg_marked [OF m] marked_size [OF m] c(2,3) by simp_all
    then obtain x where x: "find_victim (lfirst cs NULL) r (align_of al) s1 = Some x"
        "found s1 r (align_of al) cs x" "marked (set (concat cs)) s1 (snd (snd x))"
      using Cons.IH [OF _ _ align_of_ok [OF Cons.prems(3)] b(2)] by blast
    then have "found s r al (c # cs) x" using found_marked [OF m] found_Cons 3(1) by metis
    moreover have "marked (set (concat (c # cs))) s (snd (snd x))"
      by (rule marked_trans [OF m x(3)]) auto
    moreover have "find_victim (hd c) r al s = Some x"
      using find_victim_try(2) [OF Cons.prems(1) 3(2) Cons.prems(3) b(1) 3(1)] x(1) by (simp only: s1_def)
    ultimately show ?thesis by auto
  qed
qed

subsection \<open>Allocation\<close>

lemma marked_heap_rep:
  assumes hr: "heap_rep base e s ts" and m: "marked (free_starts ts) s s'"
  shows "heap_rep base e s' ts"
proof -
  have rep: "free_list s (sizes s) (free_starts ts)" "tiled base ts e" "\<forall>b\<in>set ts. block_ok s b"
    "base \<noteq> NULL" using hr by (simp_all add: heap_rep_def)
  have "free_list s' (sizes s') (free_starts ts)"
    by (rule free_list_cong [OF rep(1)]) (use m in \<open>simp_all add: marked_def\<close>)
  moreover have "block_ok s' (x, n, u)" if b: "(x, n, u) \<in> set ts" for x n u
  proof (cases u)
    case None
    then show ?thesis using b rep(3) marked_size [OF m] by fastforce
  next
    case (Some w)
    have ok: "block_ok s (x, n, u)" using b rep(3) by auto
    have "hdr (x, n, u) \<notin> free_starts ts"
    proof
      assume "hdr (x, n, u) \<in> free_starts ts"
      then obtain k where "(hdr (x, n, u), k, None) \<in> set ts" by (auto simp: free_starts_def)
      then show False
        using tiled_owner [OF rep(2) b, of "hdr (x, n, u)" k None "hdr (x, n, u)"] hdr_bounds [OF ok] Some
        by auto
    qed
    then have "mem s' (hdr (x, n, u)) = mem s (hdr (x, n, u))" using m by (simp add: marked_def)
    then show ?thesis using ok block_ok_cong [of s "(x, n, u)" s'] by simp
  qed
  ultimately show ?thesis using rep(2,4) by (auto simp: heap_rep_def)
qed

definition carve :: "addr \<Rightarrow> nat \<Rightarrow> nat \<Rightarrow> nat \<Rightarrow> block list" where
  "carve v n r d =
     (if n > r + d + HDR
      then [(v, r + d, Some (v + HDR + d, r)), (v + HDR + r + d, n - r - HDR - d, None)]
      else [(v, n, Some (v + HDR + d, r))])"

definition header_ok :: "heap \<Rightarrow> addr \<Rightarrow> nat \<Rightarrow> nat \<Rightarrow> nat \<Rightarrow> bool" where
  "header_ok s v n r d \<longleftrightarrow> sig (mem s v) = CHUNK_SIG \<and> chunk_size (mem s v) = n \<and>
     req_size (mem s v) = r \<and> padding_bytes (mem s v) = d"

lemma shift_header_ok:
  assumes "header_ok s v n r d" "v \<noteq> NULL" "d + r \<le> n"
  obtains s' where "shift_header v s = Some s'" "quick_list s' = quick_list s"
    "\<forall>q. q \<noteq> v + d \<longrightarrow> mem s' q = mem s q" "block_ok s' (v, n, Some (v + HDR + d, r))"
proof (cases "d = 0")
  case True
  show thesis
    by (rule that [of s]) (use True assms in \<open>auto simp: shift_header_def header_ok_def block_ok_def\<close>)
next
  case False
  show thesis
    by (rule that [of "s\<lparr>mem := (mem s)(v + d := mem s v)\<rparr>"])
      (use False assms in \<open>auto simp: shift_header_def header_ok_def block_ok_def algebra_simps\<close>)
qed

lemma tiled_carve:
  assumes "tiled base (as @ (v, n, u) # bs) e" "d + r \<le> n"
  shows "tiled base (as @ carve v n r d @ bs) e"
  using assms by (auto simp: tiled_append carve_def algebra_simps)

lemma split_victim_ok:
  assumes t: "tiled base (as @ (v, n, None) # bs) e" and v: "v \<noteq> NULL" "d + r \<le> n"
    and rest: "\<forall>b\<in>set (as @ bs). block_ok s b" "free_list s (sizes s) (free_starts (as @ bs))"
    and h: "header_ok s v n r d"
  obtains s' where "split_victim r v s = Some s'"
    "\<forall>b\<in>set (as @ tl (carve v n r d) @ bs). block_ok s' b"
    "free_list s' (sizes s') (free_starts (as @ tl (carve v n r d) @ bs))"
    "header_ok s' v (fst (snd (hd (carve v n r d)))) r d"
proof (cases "n > r + d + HDR")
  case False
  then show thesis using that [of s] assms by (simp add: split_victim_def header_ok_def carve_def)
next
  case True
  let ?m = "v + HDR + r + d" and ?F = "free_starts (as @ bs)"
  define s2 where "s2 = s\<lparr>mem := (mem s)(?m := (mem s ?m)\<lparr>chunk_size := n - r - HDR - d, padding_bytes := 0\<rparr>,
     v := (mem s v)\<lparr>chunk_size := r + d\<rparr>)\<rparr>"
  have sp: "split_victim r v s = append_chunk ?m s2"
    using True v h HDR_pos(1) by (simp add: split_victim_def header_ok_def s2_def Let_def del: HDR_pos)
  note rest2 = rest_of_heap [OF t rest(1,2), of s2]
  have q2: "quick_list s2 = quick_list s" "\<forall>q. \<not> (v \<le> q \<and> q < v + HDR + n) \<longrightarrow> mem s2 q = mem s q"
    using True HDR_pos(1) by (auto simp: s2_def simp del: HDR_pos)
  have in_v: "v \<le> ?m \<and> ?m < v + HDR + n" "v \<le> v \<and> v < v + HDR + n" "?m \<noteq> v"
    using True HDR_pos(1) by (auto simp del: HDR_pos)
  have "\<forall>q\<in>?F. \<not> (v \<le> q \<and> q < v + HDR + n)" by (rule rest2(3) [OF _ q2]) simp
  then have F: "?m \<notin> ?F" "v \<notin> ?F" "?m \<noteq> v" using in_v by blast+
  obtain s3 where s3: "append_chunk ?m s2 = Some s3" "free_list s3 (sizes s3) (insert ?m ?F)"
    "relinked (insert ?m ?F) s2 s3"
    using free_list_append [OF rest2(2) [OF _ q2] _ F(1)] v(1) by auto
  have cv: "tl (carve v n r d) = [(?m, n - r - HDR - d, None)]" "hd (carve v n r d) = (v, r + d, Some (v + HDR + d, r))"
    using True by (simp_all add: carve_def)
  have "\<forall>b\<in>set (as @ (?m, n - r - HDR - d, None) # bs). block_ok s2 b"
    using rest2(1) [OF _ q2] F(3) by (auto simp: s2_def)
  then have "\<forall>b\<in>set (as @ (?m, n - r - HDR - d, None) # bs). block_ok s3 b"
    by (rule blocks_relinked [OF s3(3)])
  moreover have "mem s3 v = mem s2 v" using relinked_mem [OF s3(3)] F(2,3) by auto
  then have "header_ok s3 v (r + d) r d" using h F(3) by (simp add: header_ok_def s2_def)
  ultimately show thesis using that [of s3] sp s3(1,2) cv by simp
qed

lemma take_victim_ok:
  assumes hr: "heap_rep base e s (as @ (v, n, None) # bs)"
    and h: "req_size (mem s v) = r" "padding_bytes (mem s v) = d" "d + r \<le> n"
  obtains s2 s4 s' where "remove_chunk v s = Some s2"
    "split_victim r v (s2\<lparr>mem := (mem s2)(v := (mem s2 v)\<lparr>sig := CHUNK_SIG\<rparr>)\<rparr>) = Some s4"
    "shift_header v s4 = Some s'" "heap_rep base e s' (as @ carve v n r d @ bs)" "v \<noteq> NULL"
proof -
  let ?F = "free_starts (as @ bs)" and ?cv = "carve v n r d"
  have rep: "free_list s (sizes s) (insert v ?F)" "tiled base (as @ (v, n, None) # bs) e"
    "\<forall>b\<in>set (as @ bs). block_ok s b" "chunk_size (mem s v) = n" "base \<noteq> NULL"
    using hr by (simp_all add: heap_rep_def)
  have v: "v \<noteq> NULL" using tiled_bounds [OF rep(2), of v n None] rep(5) by auto
  have vF: "v \<notin> ?F" using tiled_distinct [OF rep(2)] free_starts_subset [of "as @ bs"] by auto
  obtain s2 where s2: "remove_chunk v s = Some s2" "free_list s2 (sizes s) ?F" "relinked (insert v ?F) s s2"
    using free_list_remove [OF rep(1), of v] vF by auto
  define s3 where "s3 = s2\<lparr>mem := (mem s2)(v := (mem s2 v)\<lparr>sig := CHUNK_SIG\<rparr>)\<rparr>"
  note d2 = relinked_data [OF s2(3)]
  have rest: "\<forall>b\<in>set (as @ bs). block_ok s3 b" "free_list s3 (sizes s3) ?F"
    by (rule rest_of_heap [OF rep(2) blocks_relinked [OF s2(3) rep(3)] s2(2), of s3];
        simp add: d2 s3_def)+
  have h3: "header_ok s3 v n r d" using h rep(4) d2 by (simp add: header_ok_def s3_def)
  obtain s4 where s4: "split_victim r v s3 = Some s4" "\<forall>b\<in>set (as @ tl ?cv @ bs). block_ok s4 b"
      "free_list s4 (sizes s4) (free_starts (as @ tl ?cv @ bs))" "header_ok s4 v (fst (snd (hd ?cv))) r d"
    by (rule split_victim_ok [OF rep(2) v h(3) rest h3])
  let ?k = "fst (snd (hd ?cv))"
  have cv: "?cv = (v, ?k, Some (v + HDR + d, r)) # tl ?cv" "d + r \<le> ?k" using h(3) by (auto simp: carve_def)
  have t: "tiled base (as @ (v, ?k, Some (v + HDR + d, r)) # tl ?cv @ bs) e"
    using tiled_carve [OF rep(2) h(3)] cv(1) by (metis append_Cons)
  obtain s' where s': "shift_header v s4 = Some s'" "quick_list s' = quick_list s4"
      "\<forall>q. q \<noteq> v + d \<longrightarrow> mem s' q = mem s4 q" "block_ok s' (v, ?k, Some (v + HDR + d, r))"
    by (rule shift_header_ok [OF s4(4) v cv(2)])
  have "\<forall>q. \<not> (v \<le> q \<and> q < v + HDR + ?k) \<longrightarrow> mem s' q = mem s4 q"
    using s'(3) cv(2) HDR_pos(1) by (auto simp del: HDR_pos)
  note r' = rest_of_heap [OF t s4(2,3) _ s'(2) this]
  have "heap_rep base e s' (as @ ?cv @ bs)"
    using r'(1,2) rep(5) t s'(4) by (subst cv(1), subst (2) cv(1)) (auto simp: heap_rep_def)
  then show thesis using that [OF s2(1) s4(1) [unfolded s3_def] s'(1) _ v] by blast
qed

lemma coalesced_Nil [simp]: "coalesced []"
  by (simp add: coalesced_def)

lemma coalesced_carve:
  assumes "coalesced (as @ (v, n, None) # bs)"
  shows "coalesced (as @ carve v n r d @ bs)"
proof -
  have b: "snd (snd (hd bs)) \<noteq> None" if "bs \<noteq> []"
    using assms that by (auto simp: coalesced_append coalesced_Cons)
  then show ?thesis using assms by (auto simp: coalesced_append coalesced_Cons carve_def)
qed

lemma live_blocks_carve:
  "\<exists>k. live_blocks (as @ carve v n r d @ bs) = live_blocks as @ (v, k, Some (v + HDR + d, r)) # live_blocks bs"
  by (auto simp: carve_def)

lemma class_of:
  assumes "ql_sizes z cs" "c \<in> set cs" "x \<in> set c"
  shows "z x = z (last c)" "last c \<in> set (concat cs)"
proof -
  have l: "last c \<in> set c" using assms(3) by (auto intro: last_in_set)
  have "uniform z c" using assms(1,2) by (induction cs) auto
  then show "z x = z (last c)" using uniformD assms(3) l by metis
  show "last c \<in> set (concat cs)" using assms(2) l by auto
qed

lemma malloc_none_fits:
  assumes "found s r al cs (NULL, NULL, s1)" "ql_sizes (sizes s) cs" "al = 0 \<or> pow2 al"
    and "\<forall>v\<in>set (concat cs). v + HDR + 2 ^ 32 \<le> 2 ^ 64" "x \<in> set (concat cs)"
  shows "chunk_size (mem s x) + 1 < r + align_of al"
proof -
  obtain c where c: "c \<in> set cs" "x \<in> set c" using assms(5) by auto
  note l = class_of [OF assms(2) c]
  have "\<not> fits s r al (last c)" using assms(1) c(1) by (simp add: found_def)
  moreover have "pad al (last c) < align_of al" using align_pad(2) assms(3,4) l(2) by blast
  ultimately show ?thesis using l(1) by (simp add: fits_def)
qed

lemma best_fit:
  assumes "ql_sizes (sizes s) cs" "al = 0 \<or> pow2 al"
    and "\<forall>v\<in>set (concat cs). v + HDR + 2 ^ 32 \<le> 2 ^ 64"
    and "\<forall>c\<in>set cs. fits s r al (last c) \<longrightarrow> k \<le> chunk_size (mem s (last c))"
    and "x \<in> set (concat cs)" "r + align_of al \<le> chunk_size (mem s x) + 1"
  shows "k \<le> chunk_size (mem s x)"
proof -
  obtain c where c: "c \<in> set cs" "x \<in> set c" using assms(5) by auto
  note l = class_of [OF assms(1) c]
  have "pad al (last c) < align_of al" using align_pad(2) assms(2,3) l(2) by blast
  then have "fits s r al (last c)" using assms(6) l(1) by (simp add: fits_def)
  then show ?thesis using assms(4) c(1) l(1) by simp
qed

text \<open>What a request does to the tiling.\<close>

definition served :: "nat \<Rightarrow> nat \<Rightarrow> block list \<Rightarrow> addr \<Rightarrow> block list \<Rightarrow> bool" where
  "served r al ts p ts' \<longleftrightarrow>
     (if p = NULL then ts' = ts \<and> (\<forall>x n. (x, n, None) \<in> set ts \<longrightarrow> n + 1 < r + align_of al)
      else align_of al dvd p \<and>
        (\<exists>as bs v n d. ts = as @ (v, n, None) # bs \<and> ts' = as @ carve v n r d @ bs \<and> d + r \<le> n \<and>
           p = v + HDR + d \<and>
           (\<forall>x m. (x, m, None) \<in> set ts \<longrightarrow> r + align_of al \<le> m + 1 \<longrightarrow> n \<le> m)))"

lemma servedI:
  assumes "align_of al dvd p" "ts = as @ (v, n, None) # bs" "d + r \<le> n" "p = v + HDR + d"
    and "\<And>x m. (x, m, None) \<in> set ts \<Longrightarrow> r + align_of al \<le> m + 1 \<Longrightarrow> n \<le> m"
  shows "served r al ts p (as @ carve v n r d @ bs)"
proof -
  have "p \<noteq> NULL" using assms(4) by simp
  then show ?thesis unfolding served_def if_not_P [OF \<open>p \<noteq> NULL\<close>]
    by (intro conjI exI [of _ as] exI [of _ bs] exI [of _ v] exI [of _ n] exI [of _ d] allI impI)
      (use assms in blast)+
qed

lemma malloc_ok:
  assumes hr: "heap_rep base e s ts" and al: "al = 0 \<or> pow2 al" and e: "e + 2 ^ 32 \<le> 2 ^ 64"
  shows "\<exists>p s' ts'. malloc_aligned r al s = Some (p, s') \<and> heap_rep base e s' ts' \<and> served r al ts p ts'"
proof -
  have rep: "free_list s (sizes s) (free_starts ts)" "tiled base ts e" "\<forall>b\<in>set ts. block_ok s b"
    using hr by (simp_all add: heap_rep_def)
  obtain cs where cs: "ql_links s cs" "ql_sizes (sizes s) cs" "set (concat cs) = free_starts ts"
    using rep(1) by (auto simp: free_list_def)
  have b: "\<forall>v\<in>set (concat cs). v + HDR + 2 ^ 32 \<le> 2 ^ 64"
    using free_starts_bounds [OF rep(2)] e cs(3) by fastforce
  have ls: "list_seg (mem s) cs NULL" "quick_list s = lfirst cs NULL" using cs(1) by (auto simp: ql_links_def)
  obtain p v s1 where f: "find_victim (quick_list s) r al s = Some (p, v, s1)"
      "found s r al cs (p, v, s1)" "marked (free_starts ts) s s1"
    using find_victim_ok [OF ls(1) cs(2) al b, of r] ls(2) cs(3) by (metis prod.collapse snd_conv)
  have hr1: "heap_rep base e s1 ts" by (rule marked_heap_rep [OF hr f(3)])
  have sz: "chunk_size (mem s x) = n" if "(x, n, None) \<in> set ts" for x n using rep(3) that by fastforce
  show ?thesis
  proof (cases "v = NULL")
    case True
    then have p: "p = NULL" using f(2) by (simp add: found_def)
    have "served r al ts NULL ts"
      using malloc_none_fits [OF _ cs(2) al b] f(2) True p cs(3) sz
      by (fastforce simp: served_def free_starts_def simp del: set_concat)
    then show ?thesis using f(1) True p hr1 by (force simp: malloc_aligned_def)
  next
    case False
    then have v: "v \<in> free_starts ts" "p = v + HDR + pad al v" "fits s r al v" "req_size (mem s1 v) = r"
        "padding_bytes (mem s1 v) = pad al v"
        "\<forall>c\<in>set cs. fits s r al (last c) \<longrightarrow> chunk_size (mem s v) \<le> chunk_size (mem s (last c))"
      using f(2) cs(3) by (auto simp: found_def simp del: set_concat)
    obtain n where "(v, n, None) \<in> set ts" using v(1) by (auto simp: free_starts_def)
    then obtain as bs where ts: "ts = as @ (v, n, None) # bs" by (meson split_list)
    have n: "chunk_size (mem s v) = n" "pad al v + r \<le> n" using v(3) sz ts by (auto simp: fits_def)
    have dvd: "align_of al dvd p" using align_pad(4) [OF al] b v(1,2) cs(3) by blast
    obtain s2 s4 s' where s': "remove_chunk v s1 = Some s2"
      "split_victim r v (s2\<lparr>mem := (mem s2)(v := (mem s2 v)\<lparr>sig := CHUNK_SIG\<rparr>)\<rparr>) = Some s4"
      "shift_header v s4 = Some s'" "heap_rep base e s' (as @ carve v n r (pad al v) @ bs)" "v \<noteq> NULL"
      by (rule take_victim_ok [OF hr1 [unfolded ts] v(4,5) n(2)])
    have "malloc_aligned r al s = Some (p, s')"
      using f(1) s' by (simp add: malloc_aligned_def del: fun_upd_apply)
    moreover have "n \<le> m" if "(x, m, None) \<in> set ts" "r + align_of al \<le> m + 1" for x m
      using best_fit [OF cs(2) al b v(6)] that n(1) sz cs(3) by (fastforce simp: free_starts_def simp del: set_concat)
    then have "served r al ts p (as @ carve v n r (pad al v) @ bs)"
      by (rule servedI [OF dvd ts n(2) v(2)])
    ultimately show ?thesis using s'(4) by blast
  qed
qed

end
