(* ===== verification/So3_Heap_Proofs.thy ===== *)
theory So3_Heap_Proofs
  imports So3_Heap_Tiling So3_Interfaces
begin

section \<open>Correctness of the kernel heap\<close>

text \<open>
  The reachable heaps, under every sequence of allocations, releases and client writes, and
  what the clients of the allocator may rely on in them.
\<close>

subsection \<open>Reachable heaps\<close>

text \<open>
  The live areas as the clients see them: address and requested size of every area that
  was handed out and not yet freed. Between two calls a client may write any byte of its
  areas, which may change every header image that overlaps such an area.
\<close>

inductive heap_reach :: "addr \<Rightarrow> nat \<Rightarrow> heap \<Rightarrow> (addr \<times> nat) set \<Rightarrow> bool" for base :: addr and hsize :: nat where
  init: "base \<noteq> NULL \<Longrightarrow> HDR \<le> hsize \<Longrightarrow> heap_reach base hsize (heap_init base hsize) {}"
| alloc: "heap_reach base hsize s L \<Longrightarrow> al = 0 \<or> pow2 al \<Longrightarrow> malloc_aligned r al s = Some (p, s') \<Longrightarrow>
    heap_reach base hsize s' (if p = NULL then L else insert (p, r) L)"
| release: "heap_reach base hsize s L \<Longrightarrow> (p, r) \<in> L \<Longrightarrow> free p s = Some s' \<Longrightarrow>
    heap_reach base hsize s' (L - {(p, r)})"
| client_write: "heap_reach base hsize s L \<Longrightarrow> (p, r) \<in> L \<Longrightarrow> quick_list s' = quick_list s \<Longrightarrow>
    \<forall>q. q + HDR \<le> p \<or> p + r \<le> q \<longrightarrow> mem s' q = mem s q \<Longrightarrow> heap_reach base hsize s' L"

definition areas :: "block list \<Rightarrow> (addr \<times> nat) set" where
  "areas ts = {(p, r). \<exists>x n. (x, n, Some (p, r)) \<in> set ts}"

lemma areas_live_blocks: "areas (live_blocks ts) = areas ts"
  by (auto simp: areas_def live_blocks_def)

lemma areas_simps [simp]:
  "areas [] = {}"
  "areas ((x, n, None) # ts) = areas ts"
  "areas ((x, n, Some (p, r)) # ts) = insert (p, r) (areas ts)"
  "areas (ts @ us) = areas ts \<union> areas us"
  by (auto simp: areas_def)

text \<open>Two different blocks of a tiling lie one after the other.\<close>

lemma tiled_apart:
  assumes "tiled a ts e" "(x, n, u) \<in> set ts" "(y, m, v) \<in> set ts" "(y, m, v) \<noteq> (x, n, u)"
  shows "y + HDR + m \<le> x \<or> x + HDR + n \<le> y"
  using tiled_owner [OF assms(1-3), of x] tiled_owner [OF assms(1-3), of y] assms(4) HDR_pos(1)
  by (cases "x \<le> y") (auto simp: not_less [symmetric] simp del: HDR_pos not_less)

lemma live_unique:
  assumes "heap_rep base e s (as @ (x, n, Some (p, r)) # bs)"
  shows "(p, t) \<notin> areas (as @ bs)"
proof
  let ?ts = "as @ (x, n, Some (p, r)) # bs"
  assume "(p, t) \<in> areas (as @ bs)"
  then obtain y m where b: "(y, m, Some (p, t)) \<in> set (as @ bs)" by (auto simp: areas_def)
  have rep: "tiled base ?ts e" "\<forall>b\<in>set ?ts. block_ok s b" using assms by (simp_all add: heap_rep_def)
  have "y \<le> p - HDR \<and> p - HDR < y + HDR + m" "x \<le> p - HDR \<and> p - HDR < x + HDR + n"
    using hdr_bounds [of s y m "Some (p, t)"] hdr_bounds [of s x n "Some (p, r)"] rep(2) b by auto
  then have "x = y" using tiled_owner [OF rep(1), of x n _ y m _ "p - HDR"] b by auto
  moreover have "x \<notin> fst ` set (as @ bs)" using tiled_distinct [OF rep(1)] by auto
  ultimately show False using b by (metis fst_conv image_eqI)
qed

lemma served_coalesced: "served r al ts p ts' \<Longrightarrow> coalesced ts \<Longrightarrow> coalesced ts'"
  using coalesced_carve by (auto simp: served_def split: if_splits)

lemma served_areas:
  assumes "served r al ts p ts'"
  shows "areas ts' = (if p = NULL then areas ts else insert (p, r) (areas ts))"
  using assms by (auto simp: served_def carve_def split: if_splits)

lemma heap_init_rep:
  assumes "base \<noteq> NULL" "HDR \<le> hsize"
  shows "heap_rep base (base + hsize) (heap_init base hsize) [(base, hsize - HDR, None)]"
proof -
  have "ql_links (heap_init base hsize) [[base]]" "ql_sizes (sizes (heap_init base hsize)) [[base]]"
    using assms(1) by (simp_all add: ql_links_def heap_init_def)
  then have "free_list (heap_init base hsize) (sizes (heap_init base hsize)) {base}"
    unfolding free_list_def by (intro exI [of _ "[[base]]"]) simp
  then show ?thesis using assms by (simp add: heap_rep_def heap_init_def)
qed

lemma client_write_rep:
  assumes hr: "heap_rep base e s ts" and p: "(p, r) \<in> areas ts"
    and q: "quick_list s' = quick_list s" "\<forall>q. q + HDR \<le> p \<or> p + r \<le> q \<longrightarrow> mem s' q = mem s q"
  shows "heap_rep base e s' ts"
proof -
  obtain x n where b: "(x, n, Some (p, r)) \<in> set ts" using p by (auto simp: areas_def)
  have rep: "free_list s (sizes s) (free_starts ts)" "tiled base ts e" "\<forall>b\<in>set ts. block_ok s b"
    "base \<noteq> NULL" using hr by (simp_all add: heap_rep_def)
  have x: "x + HDR \<le> p" "p + r \<le> x + HDR + n" using bspec [OF rep(3) b] by (auto simp: block_ok_def)
  have same: "mem s' (hdr c) = mem s (hdr c)" if c: "c \<in> set ts" for c
  proof -
    obtain y m u where c': "c = (y, m, u)" by (cases c)
    show ?thesis
    proof (cases "c = (x, n, Some (p, r))")
      case True
      then show ?thesis using q(2) x(1) by simp
    next
      case False
      have "hdr c + HDR \<le> y + HDR + m" "y \<le> hdr c" using bspec [OF rep(3) c] c'
        by (auto simp: block_ok_def split: option.splits)
      moreover have "y + HDR + m \<le> x \<or> x + HDR + n \<le> y"
        using tiled_apart [OF rep(2) b] c c' False by metis
      ultimately have "hdr c + HDR \<le> p \<or> p + r \<le> hdr c" using x by linarith
      then show ?thesis using q(2) by blast
    qed
  qed
  have f: "\<forall>y\<in>free_starts ts. mem s' y = mem s y" using same by (fastforce simp: free_starts_def)
  have "free_list s' (sizes s') (free_starts ts)"
    by (rule free_list_cong [OF rep(1) q(1)]) (use f in simp_all)
  moreover have "block_ok s' c" if "c \<in> set ts" for c
    using block_ok_cong [of s c s'] same [OF that] rep(3) that by simp
  ultimately show ?thesis using rep by (simp add: heap_rep_def)
qed

lemma heap_reach_rep:
  assumes "heap_reach base hsize s L" "base + hsize + 2 ^ 32 \<le> 2 ^ 64"
  shows "\<exists>ts. heap_rep base (base + hsize) s ts \<and> coalesced ts \<and> areas ts = L"
  using assms
proof (induction rule: heap_reach.induct)
  case init
  then show ?case using heap_init_rep
    by (intro exI [of _ "[(base, hsize - HDR, None)]"]) (simp add: coalesced_Cons)
next
  case (alloc s L al r p s')
  then obtain ts where ts: "heap_rep base (base + hsize) s ts" "coalesced ts" "areas ts = L" by blast
  obtain ts' where ts': "heap_rep base (base + hsize) s' ts'" "served r al ts p ts'"
    using malloc_ok [OF ts(1) alloc.hyps(2), of r] alloc by auto
  have "coalesced ts'" "areas ts' = (if p = NULL then L else insert (p, r) L)"
    using served_coalesced [OF ts'(2) ts(2)] served_areas [OF ts'(2)] ts(3) by simp_all
  then show ?case using ts'(1) by blast
next
  case (release s L p r s')
  then obtain ts where ts: "heap_rep base (base + hsize) s ts" "coalesced ts" "areas ts = L" by blast
  obtain x n where "(x, n, Some (p, r)) \<in> set ts" using release.hyps(2) ts(3) by (auto simp: areas_def)
  then obtain as bs where sp: "ts = as @ (x, n, Some (p, r)) # bs" by (meson split_list)
  have "coalesced as" "coalesced bs" using ts(2) sp by (auto simp: coalesced_append coalesced_Cons)
  then obtain ts' where ts': "heap_rep base (base + hsize) s' ts'" "coalesced ts'"
      "live_blocks ts' = live_blocks (as @ bs)"
    using free_ok [of base "base + hsize" s as x n p r bs] ts(1) sp release.hyps(3) by auto
  have "areas ts' = areas (as @ bs)" using ts'(3) areas_live_blocks by metis
  moreover have "(p, r) \<notin> areas (as @ bs)" using ts(1) sp live_unique by blast
  ultimately have "areas ts' = L - {(p, r)}" using ts(3) sp by auto
  then show ?case using ts'(1,2) by blast
next
  case (client_write s L p r s')
  then show ?case using client_write_rep by blast
qed

subsection \<open>Bytes on the quick list\<close>

lemma heap_size_chunks_walk:
  assumes "class_seg (mem s) h xs NULL" "t < 2 ^ 32"
  shows "heap_size_chunks s (first xs NULL) t = Some ((t + sum_list (map (sizes s) xs)) mod 2 ^ 32)"
  using assms
proof (induction xs arbitrary: t)
  case Nil
  then show ?case by (subst heap_size_chunks.simps) simp
next
  case (Cons x xs)
  have "heap_size_chunks s x t = heap_size_chunks s (first xs NULL) ((t + chunk_size (mem s x)) mod 2 ^ 32)"
    using Cons.prems by (subst heap_size_chunks.simps) simp
  also have "\<dots> = Some (((t + chunk_size (mem s x)) mod 2 ^ 32 + sum_list (map (sizes s) xs)) mod 2 ^ 32)"
    by (rule Cons.IH) (use Cons.prems in auto)
  finally show ?case by (simp add: mod_add_left_eq add.assoc)
qed

lemma heap_size_lists_walk:
  assumes "list_seg (mem s) cs NULL" "t < 2 ^ 32"
  shows "heap_size_lists s (lfirst cs NULL) t = Some ((t + sum_list (map (sizes s) (concat cs))) mod 2 ^ 32)"
  using assms
proof (induction cs arbitrary: t)
  case Nil
  then show ?case by (subst heap_size_lists.simps) simp
next
  case (Cons c cs)
  let ?t = "(t + sum_list (map (sizes s) c)) mod 2 ^ 32"
  have c: "c \<noteq> []" "hd c \<noteq> NULL" using list_seg_hd [OF Cons.prems(1), of c] by auto
  have "heap_size_chunks s (hd c) t = Some ?t"
    using heap_size_chunks_walk [of s "hd c" c t] Cons.prems c by (simp add: first_hd)
  then have "heap_size_lists s (hd c) t = heap_size_lists s (lfirst cs NULL) ?t"
    using Cons.prems c by (subst heap_size_lists.simps) simp
  also have "\<dots> = Some ((?t + sum_list (map (sizes s) (concat cs))) mod 2 ^ 32)"
    by (rule Cons.IH) (use Cons.prems in auto)
  finally show ?case by (simp add: mod_add_left_eq add.assoc)
qed

definition free_bytes :: "block list \<Rightarrow> nat" where
  "free_bytes ts = sum_list (map (\<lambda>(x, n, u). if u = None then n else 0) ts)"

lemma sum_free_starts:
  assumes "distinct (map fst ts)" "\<forall>b\<in>set ts. block_ok s b"
  shows "sum (sizes s) (free_starts ts) = free_bytes ts"
  using assms
proof (induction ts)
  case (Cons b ts)
  obtain x n u where b: "b = (x, n, u)" by (cases b)
  have "finite (free_starts ts)" "x \<notin> free_starts ts"
    using free_starts_subset [of ts] Cons.prems b finite_subset by auto
  then show ?case using Cons b by (cases u) (auto simp: free_bytes_def)
qed (simp add: free_bytes_def)

lemma heap_size_rep:
  assumes "heap_rep base e s ts"
  shows "heap_size s = Some (free_bytes ts mod 2 ^ 32)"
proof -
  obtain cs where cs: "ql_links s cs" "set (concat cs) = free_starts ts"
    using assms by (auto simp: heap_rep_def free_list_def)
  have "sum_list (map (sizes s) (concat cs)) = sum (sizes s) (free_starts ts)"
    using cs by (metis ql_links_def sum_list_distinct_conv_sum_set)
  also have "\<dots> = free_bytes ts"
    using assms tiled_distinct by (intro sum_free_starts) (auto simp: heap_rep_def)
  finally show ?thesis using heap_size_lists_walk [of s cs 0] cs(1)
    by (simp add: heap_size_def ql_links_def)
qed

text \<open>Without live areas the coalesced tiling is the one free block of the start.\<close>

lemma coalesced_no_areas:
  assumes "coalesced ts" "areas ts = {}" "tiled base ts e" "base < e"
  shows "\<exists>n. ts = [(base, n, None)] \<and> base + HDR + n = e"
proof -
  obtain x n u ts' where ts: "ts = (x, n, u) # ts'" using assms(3,4) by (cases ts) auto
  have none: "v = None" if "(y, m, v) \<in> set ts" for y m v
    using assms(2) that by (cases v) (auto simp: areas_def)
  have "ts' = []"
  proof (rule ccontr)
    assume "ts' \<noteq> []"
    then obtain y m v us where "ts' = (y, m, v) # us" by (cases ts') auto
    then show False using assms(1) ts none [of x n u] none [of y m v] by (simp add: coalesced_Cons)
  qed
  then show ?thesis using ts assms(3) none [of x n u] by auto
qed

subsection \<open>The allocator as its clients see it\<close>

lemma areas_apart:
  assumes "heap_rep base e s ts" "(p, r) \<in> areas ts" "(q, t) \<in> areas ts" "(q, t) \<noteq> (p, r)"
  shows "q + t + HDR \<le> p \<or> p + r + HDR \<le> q"
proof -
  obtain x n y m where b: "(x, n, Some (p, r)) \<in> set ts" "(y, m, Some (q, t)) \<in> set ts"
    using assms(2,3) by (auto simp: areas_def)
  have rep: "tiled base ts e" "\<forall>b\<in>set ts. block_ok s b" using assms(1) by (auto simp: heap_rep_def)
  have "x + HDR \<le> p" "p + r \<le> x + HDR + n" "y + HDR \<le> q" "q + t \<le> y + HDR + m"
    using bspec [OF rep(2) b(1)] bspec [OF rep(2) b(2)] by (auto simp: block_ok_def)
  then show ?thesis using tiled_apart [OF rep(1) b] assms(4) by auto
qed

lemma areas_inside:
  assumes "heap_rep base e s ts" "(p, r) \<in> areas ts"
  shows "base + HDR \<le> p \<and> p + r \<le> e"
proof -
  obtain x n where b: "(x, n, Some (p, r)) \<in> set ts" using assms(2) by (auto simp: areas_def)
  have rep: "tiled base ts e" "\<forall>b\<in>set ts. block_ok s b" using assms(1) by (auto simp: heap_rep_def)
  show ?thesis using bspec [OF rep(2) b] tiled_bounds [OF rep(1) b] by (auto simp: block_ok_def)
qed

lemma heap_reach_obtain:
  assumes "heap_reach base hsize s L" "base + hsize + 2 ^ 32 \<le> 2 ^ 64"
  obtains ts where "heap_rep base (base + hsize) s ts" "coalesced ts" "areas ts = L"
  using heap_reach_rep [OF assms] by blast

lemma heap_reach_base: "heap_reach base hsize s L \<Longrightarrow> base \<noteq> NULL \<and> HDR \<le> hsize"
  by (induction rule: heap_reach.induct) auto

lemma served_fresh:
  assumes "heap_rep base e s' ts'" "served r al ts p ts'" "p \<noteq> NULL"
  shows "(p, t) \<notin> areas ts"
proof -
  obtain as bs v n d where ts: "ts = as @ (v, n, None) # bs" "ts' = as @ carve v n r d @ bs" "p = v + HDR + d"
    using assms(2,3) by (auto simp: served_def)
  obtain k us where "carve v n r d = (v, k, Some (p, r)) # us" "areas us = {}"
    using ts(3) by (cases "r + d + HDR < n") (auto simp: carve_def)
  then show ?thesis using live_unique [of base e s' as v k p r "us @ bs" t] assms(1) ts by simp
qed

lemma malloc_result:
  assumes "heap_reach base hsize s L" "base + hsize + 2 ^ 32 \<le> 2 ^ 64" "al = 0 \<or> pow2 al"
    and "malloc_aligned r al s = Some (p, s')" "p \<noteq> NULL"
  shows "align_of al dvd p \<and> base + HDR \<le> p \<and> p + r \<le> base + hsize \<and>
    (\<forall>(q, t)\<in>L. q + t + HDR \<le> p \<or> p + r + HDR \<le> q)"
proof -
  obtain ts where ts: "heap_rep base (base + hsize) s ts" "areas ts = L"
    using heap_reach_obtain [OF assms(1,2)] by blast
  obtain ts' where ts': "heap_rep base (base + hsize) s' ts'" "served r al ts p ts'"
    using malloc_ok [OF ts(1) assms(3,2), of r] assms(4) by auto
  have a: "areas ts' = insert (p, r) L" using served_areas [OF ts'(2)] assms(5) ts(2) by simp
  have n: "(p, t) \<notin> L" for t using served_fresh [OF ts'(1,2) assms(5)] ts(2) by blast
  have "q + t + HDR \<le> p \<or> p + r + HDR \<le> q" if "(q, t) \<in> L" for q t
    using areas_apart [OF ts'(1), of p r q t] a that n by auto
  then show ?thesis using areas_inside [OF ts'(1), of p r] a ts'(2) assms(5) by (auto simp: served_def)
qed

lemma malloc_returns:
  assumes "heap_reach base hsize s L" "base + hsize + 2 ^ 32 \<le> 2 ^ 64" "al = 0 \<or> pow2 al"
  shows "\<exists>p s'. malloc_aligned r al s = Some (p, s') \<and>
    heap_reach base hsize s' (if p = NULL then L else insert (p, r) L)"
proof -
  obtain ts where ts: "heap_rep base (base + hsize) s ts" using heap_reach_obtain [OF assms(1,2)] by blast
  obtain p s' where "malloc_aligned r al s = Some (p, s')" using malloc_ok [OF ts assms(3,2)] by blast
  then show ?thesis using heap_reach.alloc [OF assms(1,3)] by blast
qed

lemma free_returns:
  assumes "heap_reach base hsize s L" "base + hsize + 2 ^ 32 \<le> 2 ^ 64" "(p, r) \<in> L"
  shows "\<exists>s'. free p s = Some s' \<and> heap_reach base hsize s' (L - {(p, r)})"
proof -
  obtain ts where ts: "heap_rep base (base + hsize) s ts" "coalesced ts" "areas ts = L"
    using heap_reach_obtain [OF assms(1,2)] by blast
  obtain x n where b: "(x, n, Some (p, r)) \<in> set ts" using assms(3) ts(3) by (auto simp: areas_def)
  then obtain as bs where sp: "ts = as @ (x, n, Some (p, r)) # bs" by (meson split_list)
  have "coalesced as" "coalesced bs" using ts(2) sp by (auto simp: coalesced_append coalesced_Cons)
  then obtain s' where "free p s = Some s'" using free_ok [of base "base + hsize" s as x n p r bs] ts(1) sp by blast
  then show ?thesis using heap_reach.release [OF assms(1,3)] by blast
qed

lemma live_header:
  assumes "heap_reach base hsize s L" "base + hsize + 2 ^ 32 \<le> 2 ^ 64" "(p, r) \<in> L"
  shows "p - HDR \<noteq> NULL" "req_size (mem s (p - HDR)) = r"
proof -
  obtain ts where ts: "heap_rep base (base + hsize) s ts" "areas ts = L"
    using heap_reach_obtain [OF assms(1,2)] by blast
  obtain x n where b: "(x, n, Some (p, r)) \<in> set ts" using assms(3) ts(2) by (auto simp: areas_def)
  then have "block_ok s (x, n, Some (p, r))" "base \<le> x" "base \<noteq> NULL"
    using ts(1) tiled_bounds [of base ts "base + hsize"] by (auto simp: heap_rep_def)
  then show "p - HDR \<noteq> NULL" "req_size (mem s (p - HDR)) = r" by (auto simp: block_ok_def)
qed

lemma double_free:
  assumes "heap_reach base hsize s L" "base + hsize + 2 ^ 32 \<le> 2 ^ 64" "(p, r) \<in> L"
    and "padding_bytes (mem s (p - HDR)) = 0" "free p s = Some s'"
  shows "p \<noteq> NULL \<and> already_freed (p - HDR) s' = Some True \<and> free p s' = None"
proof -
  obtain ts where ts: "heap_rep base (base + hsize) s ts" "coalesced ts" "areas ts = L"
    using heap_reach_obtain [OF assms(1,2)] by blast
  obtain x n where b: "(x, n, Some (p, r)) \<in> set ts" using assms(3) ts(3) by (auto simp: areas_def)
  then obtain as bs where sp: "ts = as @ (x, n, Some (p, r)) # bs" by (meson split_list)
  have co: "coalesced as" "coalesced bs" using ts(2) sp by (auto simp: coalesced_append coalesced_Cons)
  have "block_ok s (x, n, Some (p, r))" using ts(1) b by (auto simp: heap_rep_def)
  then have x: "p = x + HDR" using assms(4) by (auto simp: block_ok_def)
  then have "sig (mem s' x) = 0" using free_ok [of base "base + hsize" s as x n p r bs] ts(1) co sp assms(5) by auto
  moreover have "x \<noteq> NULL" using live_header(1) [OF assms(1-3)] x by simp
  ultimately show ?thesis using x by (simp add: free_def already_freed_def rd_def CHUNK_SIG_def)
qed

lemma realloc_ok:
  assumes reach: "heap_reach base hsize s L" "base + hsize + 2 ^ 32 \<le> 2 ^ 64" "(p, r) \<in> L"
  shows "\<exists>a ops s'. realloc p n s = Some (a, ops, s') \<and>
    (if a = NULL then ops = [] \<and> heap_reach base hsize s' L
     else ops = [Memcpy a p r] \<and> heap_reach base hsize s' (insert (a, max n r) (L - {(p, r)})) \<and>
       base + HDR \<le> a \<and> a + max n r \<le> base + hsize \<and> (p + r + HDR \<le> a \<or> a + max n r + HDR \<le> p))"
proof -
  note h = live_header [OF reach]
  obtain a s1 where s1: "malloc_aligned (max n r) 0 s = Some (a, s1)"
      "heap_reach base hsize s1 (if a = NULL then L else insert (a, max n r) L)"
    using malloc_returns [OF reach(1,2), of 0 "max n r"] by blast
  show ?thesis
  proof (cases "a = NULL")
    case True
    then have "realloc p n s = Some (NULL, [], s1)"
      using h s1(1) by (cases "n < r") (simp_all add: realloc_def malloc_def Let_def max_def)
    then show ?thesis using True s1(2) by simp
  next
    case False
    note res = malloc_result [OF reach(1,2) _ s1(1) False]
    then have ne: "(p, r) \<noteq> (a, max n r)" using reach(3) HDR_pos(1) by (fastforce simp del: HDR_pos)
    have r1: "heap_reach base hsize s1 (insert (a, max n r) L)" "(p, r) \<in> insert (a, max n r) L"
      using s1(2) False reach(3) by simp_all
    obtain s2 where s2: "free p s1 = Some s2" "heap_reach base hsize s2 (insert (a, max n r) L - {(p, r)})"
      using free_returns [OF r1(1) reach(2) r1(2)] by blast
    have "insert (a, max n r) L - {(p, r)} = insert (a, max n r) (L - {(p, r)})" using ne by auto
    moreover have "realloc p n s = Some (a, [Memcpy a p r], s2)"
      using h s1(1) s2(1) False live_header(2) [OF r1(1) reach(2) r1(2)]
      by (cases "n < r") (simp_all add: realloc_def malloc_def Let_def max_def)
    ultimately show ?thesis using s2(2) res reach(3) False by auto
  qed
qed

lemma heap_empty:
  assumes "heap_reach base hsize s {}" "base + hsize + 2 ^ 32 \<le> 2 ^ 64"
  shows "heap_rep base (base + hsize) s [(base, hsize - HDR, None)]"
proof -
  obtain ts where ts: "heap_rep base (base + hsize) s ts" "coalesced ts" "areas ts = {}"
    using heap_reach_obtain [OF assms] by blast
  have b: "base < base + hsize" using heap_reach_base [OF assms(1)] HDR_pos(1) by linarith
  obtain n where "ts = [(base, n, None)]" "base + HDR + n = base + hsize"
    using coalesced_no_areas [OF ts(2,3) _ b] ts(1) by (auto simp: heap_rep_def)
  then show ?thesis using ts(1) by (metis add_diff_cancel_left' add.assoc add_left_cancel)
qed


subsection \<open>The contract of the allocator\<close>

definition kheap :: "heap \<Rightarrow> (addr \<times> nat) set \<Rightarrow> bool" where
  "kheap s L \<longleftrightarrow> (\<exists>base hsize. heap_reach base hsize s L \<and> base + hsize + 2 ^ 32 \<le> 2 ^ 64)"

interpretation kheap_alloc: area_allocator kheap malloc free
proof unfold_locales
  fix s L r
  assume "kheap s L"
  then show "\<exists>p s'. malloc r s = Some (p, s') \<and> kheap s' (if p = NULL then L else insert (p, r) L)"
    using malloc_returns [where al = 0] unfolding kheap_def malloc_def by blast
next
  fix s L r p s' a
  assume "kheap s L" and m: "malloc r s = Some (p, s')" "p \<noteq> NULL" and a: "a \<in> L"
  then obtain base hsize where "heap_reach base hsize s L" "base + hsize + 2 ^ 32 \<le> 2 ^ 64"
    by (auto simp: kheap_def)
  then show "apart a (p, r)"
    using malloc_result [of base hsize s L 0 r p s'] m a by (auto simp: malloc_def apart_def)
next
  fix s L p r
  assume "kheap s L" "(p, r) \<in> L"
  then show "\<exists>s'. free p s = Some s' \<and> kheap s' (L - {(p, r)})"
    using free_returns unfolding kheap_def by blast
qed

subsection \<open>A concrete heap\<close>

text \<open>
  A heap of four kilobytes after \<open>malloc(100)\<close> and \<open>memalign(50, 64)\<close>, to instantiate the
  theorems below.
\<close>

declare prev_list.simps [code] prev_chunk.simps [code] set_heads.simps [code] scan_list.simps [code] last_chunk.simps [code]
  adj_in_class.simps [code] adj_in_lists.simps [code] merge_chunks.simps [code] scan_fit.simps [code] find_victim.simps [code]
  heap_size_chunks.simps [code] heap_size_lists.simps [code]

definition ex_heap1 :: heap where
  "ex_heap1 = snd (the (malloc_aligned 100 0 (heap_init 4096 4096)))"

definition ex_heap2 :: heap where
  "ex_heap2 = snd (the (malloc_aligned 50 64 ex_heap1))"

lemma Some_fst: "map_option fst x = Some a \<Longrightarrow> x = Some (a, snd (the x))"
  by (cases x) auto

lemma ex_heap1: "malloc_aligned 100 0 (heap_init 4096 4096) = Some (4152, ex_heap1)"
  unfolding ex_heap1_def by (rule Some_fst) code_simp

lemma ex_heap2: "malloc_aligned 50 64 ex_heap1 = Some (4352, ex_heap2)"
  unfolding ex_heap2_def by (rule Some_fst) code_simp

lemma ex_heap_reach:
  "heap_reach 4096 4096 ex_heap1 {(4152, 100)}"
  "heap_reach 4096 4096 ex_heap2 {(4352, 50), (4152, 100)}"
proof -
  have "heap_reach 4096 4096 (heap_init 4096 4096) {}" by (rule heap_reach.init) (simp_all add: HDR_def)
  then show 1: "heap_reach 4096 4096 ex_heap1 {(4152, 100)}"
    using heap_reach.alloc [OF _ _ ex_heap1] by simp
  have "pow2 64" unfolding pow2_def by (intro exI [of _ 6]) simp
  then show "heap_reach 4096 4096 ex_heap2 {(4352, 50), (4152, 100)}"
    using heap_reach.alloc [OF 1 _ ex_heap2] by simp
qed

lemma ex_heap_bound: "(4096::nat) + 4096 + 2 ^ 32 \<le> 2 ^ 64"
  by simp

subsection \<open>Properties\<close>

text \<open>
  C1. In every heap that allocations, releases and writes of the clients to their own areas can
  produce, the live areas lie inside the heap and no two of them overlap; the header of the
  second always fits between them.
\<close>

theorem heap_areas_disjoint:
  assumes "heap_reach base hsize s L" and "base + hsize + 2 ^ 32 \<le> 2 ^ 64" and "(p, r) \<in> L"
  shows "base + HDR \<le> p \<and> p + r \<le> base + hsize \<and>
    (\<forall>q t. (q, t) \<in> L \<longrightarrow> (q, t) \<noteq> (p, r) \<longrightarrow> q + t + HDR \<le> p \<or> p + r + HDR \<le> q)"
proof -
  obtain ts where ts: "heap_rep base (base + hsize) s ts" "areas ts = L"
    using heap_reach_obtain [OF assms(1,2)] by blast
  show ?thesis using areas_inside [OF ts(1)] areas_apart [OF ts(1)] ts(2) assms(3) by blast
qed

lemma heap_areas_disjoint_witness: "4096 + HDR \<le> 4152 \<and> (4152 + 100 + HDR \<le> 4352)"
  using heap_areas_disjoint [OF ex_heap_reach(2) ex_heap_bound, of 4152 100] by (auto simp: HDR_def)

text \<open>
  C19. In every reachable heap \<open>malloc\<close> and \<open>memalign\<close> return, with an area or with \<open>NULL\<close>, and
  \<open>free\<close> returns for every live area: no list walk runs forever, no null pointer is followed
  and neither the assertion nor the panic is reached. Both lead to a reachable heap again.
\<close>

theorem heap_operations_return:
  assumes "heap_reach base hsize s L" and "base + hsize + 2 ^ 32 \<le> 2 ^ 64"
  shows "(\<forall>r al. al = 0 \<or> pow2 al \<longrightarrow> (\<exists>p s'. malloc_aligned r al s = Some (p, s') \<and>
      heap_reach base hsize s' (if p = NULL then L else insert (p, r) L))) \<and>
    (\<forall>p r. (p, r) \<in> L \<longrightarrow> (\<exists>s'. free p s = Some s' \<and> heap_reach base hsize s' (L - {(p, r)})))"
  using malloc_returns [OF assms] free_returns [OF assms] by blast

lemma heap_operations_return_witness:
  "\<exists>s' s''. free 4152 ex_heap2 = Some s' \<and> heap_reach 4096 4096 s' {(4352, 50)} \<and> free 4352 s' = Some s''"
proof -
  obtain s' where s': "free 4152 ex_heap2 = Some s'" "heap_reach 4096 4096 s' ({(4352, 50), (4152, 100)} - {(4152, 100)})"
    using heap_operations_return [OF ex_heap_reach(2) ex_heap_bound] by blast
  have "{(4352::nat, 50::nat), (4152, 100)} - {(4152, 100)} = {(4352, 50)}" by auto
  then have r: "heap_reach 4096 4096 s' {(4352, 50)}" using s'(2) by simp
  show ?thesis using heap_operations_return [OF r ex_heap_bound] s'(1) r by blast
qed

text \<open>
  C20. The address that \<open>malloc\<close> or \<open>memalign\<close> hands out is a multiple of the alignment asked for
  (of \<open>sizeof(int)\<close> when none is), the area lies inside the heap, and it overlaps no live area.
\<close>

theorem malloc_result_fresh:
  assumes "heap_reach base hsize s L" and "base + hsize + 2 ^ 32 \<le> 2 ^ 64" and "al = 0 \<or> pow2 al"
    and "malloc_aligned r al s = Some (p, s')" and "p \<noteq> NULL"
  shows "align_of al dvd p \<and> base + HDR \<le> p \<and> p + r \<le> base + hsize \<and>
    (\<forall>(q, t)\<in>L. q + t + HDR \<le> p \<or> p + r + HDR \<le> q)"
  by (rule malloc_result [OF assms])

lemma malloc_result_fresh_witness: "align_of 64 dvd 4352 \<and> 4352 + 50 \<le> (4096 + 4096 :: nat)"
proof -
  have "pow2 64" unfolding pow2_def by (intro exI [of _ 6]) simp
  then show ?thesis using malloc_result_fresh [OF ex_heap_reach(1) ex_heap_bound _ ex_heap2] by simp
qed

text \<open>
  C21. Nothing leaks and nothing stays fragmented: once every area has been freed, whatever
  happened before, the whole heap is a single free chunk again, \<open>heap_size\<close> reports all of it,
  and a request that fits into it with its alignment is served.
\<close>

theorem heap_recovers:
  assumes "heap_reach base hsize s {}" and "base + hsize + 2 ^ 32 \<le> 2 ^ 64"
  shows "heap_size s = Some ((hsize - HDR) mod 2 ^ 32) \<and>
    (\<forall>r al. (al = 0 \<or> pow2 al) \<and> r + align_of al \<le> hsize - HDR + 1 \<longrightarrow>
       (\<exists>p s'. malloc_aligned r al s = Some (p, s') \<and> p \<noteq> NULL))"
proof -
  note hr = heap_empty [OF assms]
  have "\<exists>p s'. malloc_aligned r al s = Some (p, s') \<and> p \<noteq> NULL"
    if al: "al = 0 \<or> pow2 al" and r: "r + align_of al \<le> hsize - HDR + 1" for r al
  proof -
    obtain p s' ts' where m: "malloc_aligned r al s = Some (p, s')" "served r al [(base, hsize - HDR, None)] p ts'"
      using malloc_ok [OF hr al assms(2)] by blast
    then have "p \<noteq> NULL" using r by (auto simp: served_def split: if_splits)
    then show ?thesis using m(1) by blast
  qed
  moreover have "heap_size s = Some ((hsize - HDR) mod 2 ^ 32)"
    using heap_size_rep [OF hr] by (simp add: free_bytes_def)
  ultimately show ?thesis by blast
qed

lemma heap_recovers_witness: "\<exists>s. free 4152 ex_heap1 = Some s \<and> heap_size s = Some 4040"
proof -
  obtain s where s: "free 4152 ex_heap1 = Some s" "heap_reach 4096 4096 s {}"
    using free_returns [OF ex_heap_reach(1) ex_heap_bound] by fastforce
  then show ?thesis using heap_recovers [OF s(2) ex_heap_bound] by (simp add: HDR_def)
qed

text \<open>
  C22. A second \<open>free\<close> of the same area directly after the first is detected, when the area was
  handed out without padding bytes: the call gets to the test of the signature, the test succeeds,
  and the call ends there, in the kernel panic.
\<close>

theorem double_free_panics:
  assumes "heap_reach base hsize s L" and "base + hsize + 2 ^ 32 \<le> 2 ^ 64" and "(p, r) \<in> L"
    and "padding_bytes (mem s (p - HDR)) = 0" and "free p s = Some s'"
  shows "p \<noteq> NULL \<and> already_freed (p - HDR) s' = Some True \<and> free p s' = None"
  by (rule double_free [OF assms])

lemma double_free_panics_witness: "\<exists>s'. free 4152 ex_heap1 = Some s' \<and> already_freed (4152 - HDR) s' = Some True \<and> free 4152 s' = None"
proof -
  obtain s' where s': "free 4152 ex_heap1 = Some s'"
    using free_returns [OF ex_heap_reach(1) ex_heap_bound] by blast
  have "padding_bytes (mem ex_heap1 (4152 - HDR)) = 0" by code_simp
  then show ?thesis using double_free_panics [OF ex_heap_reach(1) ex_heap_bound _ _ s'] s' by simp
qed

text \<open>
  C23. \<open>realloc\<close> of a live area returns. When it returns an area, the bytes of the old area are
  copied into one that is at least as large and does not overlap it, and afterwards the old area
  is released and the new one is live; otherwise the old area stays as it is.
\<close>

theorem realloc_moves_area:
  assumes "heap_reach base hsize s L" and "base + hsize + 2 ^ 32 \<le> 2 ^ 64" and "(p, r) \<in> L"
  shows "\<exists>a ops s'. realloc p n s = Some (a, ops, s') \<and>
    (if a = NULL then ops = [] \<and> heap_reach base hsize s' L
     else ops = [Memcpy a p r] \<and> heap_reach base hsize s' (insert (a, max n r) (L - {(p, r)})) \<and>
       base + HDR \<le> a \<and> a + max n r \<le> base + hsize \<and> (p + r + HDR \<le> a \<or> a + max n r + HDR \<le> p))"
  by (rule realloc_ok [OF assms])

lemma realloc_moves_area_witness: "\<exists>a ops s'. realloc 4152 200 ex_heap2 = Some (a, ops, s')"
  using realloc_moves_area [OF ex_heap_reach(2) ex_heap_bound, of 4152 100 200] by blast

text \<open>
  C24. A kernel client that asks for several areas in turn is always answered; the areas it gets
  overlap neither each other nor an area that was live before.
\<close>

theorem malloc_sequence_apart:
  assumes "kheap s L"
  shows "\<exists>ps s'. alloc_seq malloc rs s = Some (ps, s') \<and> map snd ps = rs \<and>
    kheap s' (L \<union> {a \<in> set ps. fst a \<noteq> NULL}) \<and>
    (\<forall>a\<in>set ps. fst a \<noteq> NULL \<longrightarrow> (\<forall>b\<in>L. apart b a)) \<and>
    sorted_wrt (\<lambda>a b. fst a \<noteq> NULL \<longrightarrow> fst b \<noteq> NULL \<longrightarrow> apart a b) ps"
  by (rule kheap_alloc.alloc_seq_ok [OF assms])

lemma malloc_sequence_apart_witness:
  "\<exists>ps s'. alloc_seq malloc [24, 4096] ex_heap1 = Some (ps, s') \<and> map snd ps = [24, 4096]"
proof -
  have "kheap ex_heap1 {(4152, 100)}" using ex_heap_reach(1) ex_heap_bound unfolding kheap_def by blast
  then show ?thesis using malloc_sequence_apart by blast
qed

end
