(* ===== verification/So3_Frames.thy ===== *)
theory So3_Frames
  imports So3_Interfaces
begin

section \<open>Page frames and I/O mappings\<close>

text \<open>
  Model of \<open>so3/mm/memory.c\<close>: the frame table with its circular search for a free page, the
  first-fit search for contiguous pages, and the list of I/O mappings, which is kept sorted
  by virtual address. The functions run under \<open>ft_lock\<close>. A result \<open>None\<close> stands for a
  failed assertion, a panic, an access outside the frame table or a loop that does not end.

  Addresses and sizes (\<open>addr_t\<close>, \<open>size_t\<close>) are 64 bits wide, as on arm64, and the variables of
  type \<open>uint32_t\<close> 32 bits; they are natural numbers below these bounds, and the wrap-around is
  written out.
\<close>

subsection \<open>State\<close>

definition PAGE_SHIFT :: nat where
  "PAGE_SHIFT = 12"

definition PAGE_SIZE :: nat where
  "PAGE_SIZE = 2 ^ PAGE_SHIFT"

definition SIZEOF_PAGE_T :: nat where
  "SIZEOF_PAGE_T = 8"

record page =
  page_free :: bool
  refcount :: nat

record mem_info =
  phys_base :: addr
  mem_size :: nat
  avail_pages :: nat

text \<open>\<open>next_free_page\<close> is the static variable of \<open>get_free_page\<close>.\<close>

record frames =
  mem_info :: mem_info
  frame_table :: "page list"
  next_free_page :: nat
  pfn_start :: nat
  kernel_size :: nat

text \<open>\<open>ALIGN_UP\<close> for a power of two, on integers of \<open>w\<close> bits; and the subtraction of 64-bit values.\<close>

definition ALIGN_UP :: "nat \<Rightarrow> nat \<Rightarrow> nat \<Rightarrow> nat" where
  "ALIGN_UP w a sz = (a + (sz - 1)) mod 2 ^ w div sz * sz"

definition sub64 :: "nat \<Rightarrow> nat \<Rightarrow> nat" where
  "sub64 a b = nat ((int a - int b) mod 2 ^ 64)"

definition page_to_phys :: "frames \<Rightarrow> nat \<Rightarrow> addr" where
  "page_to_phys s i = (i + pfn_start s) * PAGE_SIZE"

text \<open>The index of the page descriptor; below \<open>pfn_start\<close> the pointer leaves the table.\<close>

definition phys_to_page :: "frames \<Rightarrow> addr \<Rightarrow> nat option" where
  "phys_to_page s paddr =
     (if pfn_start s \<le> paddr div PAGE_SIZE then Some (paddr div PAGE_SIZE - pfn_start s) else None)"

definition set_free :: "bool \<Rightarrow> nat \<Rightarrow> frames \<Rightarrow> frames option" where
  "set_free b i s =
     (if i < length (frame_table s)
      then Some (s\<lparr>frame_table := (frame_table s)[i := (frame_table s ! i)\<lparr>page_free := b\<rparr>]\<rparr>)
      else None)"

subsection \<open>Initialisation\<close>

definition frame_table_init :: "mem_info \<Rightarrow> addr \<Rightarrow> frames" where
  "frame_table_init mi frame_table_start_pa =
     (let ft_phys = ALIGN_UP 64 frame_table_start_pa PAGE_SIZE;
          avail = ALIGN_UP 64 (sub64 (mem_size mi) (sub64 ft_phys (phys_base mi))) PAGE_SIZE div PAGE_SIZE mod 2 ^ 32;
          ft_length = avail * SIZEOF_PAGE_T mod 2 ^ 32;
          ft_pages = ALIGN_UP 32 ft_length PAGE_SIZE div PAGE_SIZE;
          ft_pfn_end = sub64 (ft_phys div PAGE_SIZE + ft_pages) 1
      in \<lparr>mem_info = mi\<lparr>avail_pages := avail\<rparr>,
          frame_table = map (\<lambda>i. if i < ft_pages then \<lparr>page_free = False, refcount = 1\<rparr>
                                 else \<lparr>page_free = True, refcount = 0\<rparr>) [0..<avail],
          next_free_page = 0,
          pfn_start = ft_phys div PAGE_SIZE,
          kernel_size = sub64 ((ft_pfn_end + 1) * PAGE_SIZE mod 2 ^ 64) (phys_base mi) mod 2 ^ 32\<rparr>)"

subsection \<open>Single pages\<close>

text \<open>The \<open>do\<close>-loop: whether a free page was found, and the value of the static index.\<close>

partial_function (option) scan_free :: "frames \<Rightarrow> nat \<Rightarrow> nat \<Rightarrow> (bool \<times> nat) option" where
  "scan_free s loop_mark n =
     (if \<not> n < length (frame_table s) then None
      else if page_free (frame_table s ! n) then Some (True, n)
      else let n' = (n + 1) mod avail_pages (mem_info s)
           in if n' \<noteq> loop_mark then scan_free s loop_mark n' else Some (False, n'))"

definition get_free_page :: "frames \<Rightarrow> (addr \<times> frames) option" where
  "get_free_page s =
     do {
       (fnd, n) \<leftarrow> scan_free s (next_free_page s) (next_free_page s);
       if fnd then do {
         s1 \<leftarrow> set_free False n (s\<lparr>next_free_page := n\<rparr>);
         Some (page_to_phys s1 n, s1)
       }
       else Some (0, s\<lparr>next_free_page := n\<rparr>)
     }"

definition free_page :: "addr \<Rightarrow> frames \<Rightarrow> frames option" where
  "free_page paddr s = do { i \<leftarrow> phys_to_page s paddr; set_free True i s }"

subsection \<open>Contiguous pages\<close>

text \<open>The scan of \<open>get_contig_free_pages\<close>: the first page of the run, if there is one.\<close>

function contig_scan :: "frames \<Rightarrow> nat \<Rightarrow> nat \<Rightarrow> nat \<Rightarrow> nat option" where
  "contig_scan s nrpages i base =
     (if i < avail_pages (mem_info s) then
        if page_free (frame_table s ! i)
        then if i - base + 1 = nrpages then Some base
             else contig_scan s nrpages (i + 1) base
        else contig_scan s nrpages (i + 1) (i + 1)
      else None)"
  by auto
termination
  by (relation "measure (\<lambda>(s, nr, i, b). avail_pages (mem_info s) - i)") auto

declare contig_scan.simps [simp del]

text \<open>\<open>for (i = 0; i < nrpages; i++) frame_table[base + i].free = b;\<close>\<close>

primrec set_free_run :: "bool \<Rightarrow> nat \<Rightarrow> nat \<Rightarrow> frames \<Rightarrow> frames option" where
  "set_free_run b base 0 s = Some s"
| "set_free_run b base (Suc n) s = do { s1 \<leftarrow> set_free_run b base n s; set_free b (base + n) s1 }"

definition get_contig_free_pages :: "nat \<Rightarrow> frames \<Rightarrow> (addr \<times> frames) option" where
  "get_contig_free_pages nrpages s =
     (case contig_scan s nrpages 0 0 of
        Some base \<Rightarrow> do {
          s1 \<leftarrow> set_free_run False base nrpages s;
          Some (page_to_phys s1 base, s1)
        }
      | None \<Rightarrow> Some (0, s))"

definition free_contig_pages :: "addr \<Rightarrow> nat \<Rightarrow> frames \<Rightarrow> frames option" where
  "free_contig_pages paddr nrpages s = do { i \<leftarrow> phys_to_page s paddr; set_free_run True i nrpages s }"

subsection \<open>I/O mappings\<close>

record io_map_t =
  vaddr :: addr
  paddr :: addr
  io_size :: nat

text \<open>
  The calls to the page-table code of the architecture, in the order in which they are made,
  are part of the state.
\<close>

datatype pt_call = Create_mapping addr addr nat | Release_mapping addr nat

record io_space =
  io_maplist :: "io_map_t list"
  pt_calls :: "pt_call list"

definition find_io_map_by_paddr :: "addr \<Rightarrow> io_space \<Rightarrow> io_map_t option" where
  "find_io_map_by_paddr pa s = find (\<lambda>m. paddr m = pa) (io_maplist s)"

text \<open>The loop over the sorted list: the address for the new mapping and the entries before it.\<close>

fun io_target :: "nat \<Rightarrow> addr \<Rightarrow> io_map_t list \<Rightarrow> addr \<times> io_map_t list \<times> io_map_t list" where
  "io_target sz target [] = (target, [], [])"
| "io_target sz target (cur # rest) =
     (if (target + sz) mod 2 ^ 64 \<le> vaddr cur then (target, [], cur # rest)
      else let (t, before, after) = io_target sz (ALIGN_UP 64 ((vaddr cur + io_size cur) mod 2 ^ 64) PAGE_SIZE) rest
           in (t, cur # before, after))"

text \<open>
  \<open>io_base\<close> is \<open>CONFIG_IO_MAPPING_BASE\<close>; \<open>mem_ok\<close> tells whether \<open>malloc\<close> has memory for the
  list entry. \<open>create_mapping\<close> stops the kernel for an empty range.
\<close>

definition io_map :: "addr \<Rightarrow> bool \<Rightarrow> addr \<Rightarrow> nat \<Rightarrow> io_space \<Rightarrow> (addr \<times> io_space) option" where
  "io_map io_base mem_ok phys0 sz s =
     (let offset = phys0 mod PAGE_SIZE;
          phys = phys0 - offset
      in case find_io_map_by_paddr phys s of
           Some m \<Rightarrow> if io_size m = sz then Some ((vaddr m + offset) mod 2 ^ 64, s) else None
         | None \<Rightarrow>
             let (target, before, after) = io_target sz io_base (io_maplist s)
             in if mem_ok \<and> sz \<noteq> 0
                then Some ((target + offset) mod 2 ^ 64,
                  \<lparr>io_maplist = before @ \<lparr>vaddr = target, paddr = phys, io_size = sz\<rparr> # after,
                   pt_calls = pt_calls s @ [Create_mapping target phys sz]\<rparr>)
                else None)"

definition io_unmap :: "addr \<Rightarrow> io_space \<Rightarrow> io_space option" where
  "io_unmap va s =
     (let va' = va - va mod PAGE_SIZE
      in case find (\<lambda>m. vaddr m = va') (io_maplist s) of
           None \<Rightarrow> None
         | Some cur \<Rightarrow> Some \<lparr>io_maplist = remove1 cur (io_maplist s),
             pt_calls = pt_calls s @ [Release_mapping (vaddr cur) (io_size cur)]\<rparr>)"

text \<open>Pages with a virtual mapping.\<close>

definition get_free_vpage :: "addr \<Rightarrow> bool \<Rightarrow> frames \<times> io_space \<Rightarrow> (addr \<times> frames \<times> io_space) option" where
  "get_free_vpage io_base mem_ok = (\<lambda>(fs, s).
     do {
       (pa, fs1) \<leftarrow> get_free_page fs;
       if pa = 0 then None
       else do { (va, s1) \<leftarrow> io_map io_base mem_ok pa PAGE_SIZE s; Some (va, fs1, s1) }
     })"

definition get_contig_free_vpages :: "addr \<Rightarrow> bool \<Rightarrow> nat \<Rightarrow> frames \<times> io_space \<Rightarrow> (addr \<times> frames \<times> io_space) option" where
  "get_contig_free_vpages io_base mem_ok nrpages = (\<lambda>(fs, s).
     do {
       (pa, fs1) \<leftarrow> get_contig_free_pages nrpages fs;
       if pa = 0 then None
       else do { (va, s1) \<leftarrow> io_map io_base mem_ok pa (nrpages * PAGE_SIZE mod 2 ^ 32) s; Some (va, fs1, s1) }
     })"

text \<open>\<open>virt_to_phys_pt\<close> reads the page table; its result is an argument.\<close>

definition free_vpage :: "(addr \<Rightarrow> addr) \<Rightarrow> addr \<Rightarrow> frames \<times> io_space \<Rightarrow> (frames \<times> io_space) option" where
  "free_vpage virt_to_phys_pt va = (\<lambda>(fs, s).
     do {
       s1 \<leftarrow> io_unmap va s;
       fs1 \<leftarrow> free_page (virt_to_phys_pt va) fs;
       Some (fs1, s1)
     })"

definition free_contig_vpages :: "(addr \<Rightarrow> addr) \<Rightarrow> addr \<Rightarrow> nat \<Rightarrow> frames \<times> io_space \<Rightarrow> (frames \<times> io_space) option" where
  "free_contig_vpages virt_to_phys_pt va nrpages = (\<lambda>(fs, s).
     do {
       s1 \<leftarrow> io_unmap va s;
       fs1 \<leftarrow> free_contig_pages (virt_to_phys_pt va) nrpages fs;
       Some (fs1, s1)
     })"

text \<open>\<open>readjust_io_map\<close> after a migration.\<close>

definition readjust_io_map :: "int \<Rightarrow> frames \<times> io_space \<Rightarrow> frames \<times> io_space" where
  "readjust_io_map pfn_offset = (\<lambda>(fs, s).
     (fs\<lparr>pfn_start := nat ((int (pfn_start fs) + pfn_offset) mod 2 ^ 64)\<rparr>,
      s\<lparr>io_maplist := map (\<lambda>m. m\<lparr>paddr :=
           nat ((int (paddr m div PAGE_SIZE) + pfn_offset) mod 2 ^ 64) * PAGE_SIZE mod 2 ^ 64 + paddr m mod PAGE_SIZE\<rparr>)
         (io_maplist s)\<rparr>))"

subsection \<open>Page frames: correctness\<close>

abbreviation is_free :: "frames \<Rightarrow> nat \<Rightarrow> bool" where
  "is_free s i \<equiv> page_free (frame_table s ! i)"

abbreviation npages :: "frames \<Rightarrow> nat" where
  "npages s \<equiv> avail_pages (mem_info s)"

definition frames_inv :: "frames \<Rightarrow> bool" where
  "frames_inv s \<longleftrightarrow> length (frame_table s) = npages s \<and> next_free_page s < npages s \<and> 0 < pfn_start s"

definition scan_result :: "nat \<Rightarrow> nat option \<Rightarrow> bool \<times> nat" where
  "scan_result m r = (case r of Some n \<Rightarrow> (True, n) | None \<Rightarrow> (False, m))"

lemma scan_free_low:
  assumes "n < m" "m < npages s" "length (frame_table s) = npages s"
  shows "scan_free s m n = Some (scan_result m (find (is_free s) [n..<m]))"
  using assms
proof (induction "m - n" arbitrary: n)
  case (Suc k)
  have "scan_free s m (Suc n) = Some (scan_result m (find (is_free s) [Suc n..<m]))" if "Suc n < m"
    by (rule Suc.hyps(1)) (use Suc that in auto)
  then show ?case using Suc.prems
    by (subst scan_free.simps) (auto simp: upt_Cons scan_result_def Let_def)
qed simp

lemma scan_free_high:
  assumes "m \<le> n" "n < npages s" "length (frame_table s) = npages s"
  shows "scan_free s m n = Some (scan_result m (find (is_free s) ([n..<npages s] @ [0..<m])))"
  using assms
proof (induction "npages s - n" arbitrary: n)
  case (Suc k)
  show ?case
  proof (cases "Suc n < npages s")
    case True
    then have "scan_free s m (Suc n) = Some (scan_result m (find (is_free s) ([Suc n..<npages s] @ [0..<m])))"
      by (intro Suc.hyps(1)) (use Suc in auto)
    then show ?thesis using Suc.prems True
      by (subst scan_free.simps) (auto simp: upt_Cons scan_result_def Let_def)
  next
    case False
    then have n: "Suc n = npages s" using Suc.prems by simp
    have "scan_free s m 0 = Some (scan_result m (find (is_free s) [0..<m]))" if "0 < m"
      using scan_free_low [of 0 m s] that Suc.prems by simp
    then show ?thesis using Suc.prems n
      by (subst scan_free.simps) (auto simp: upt_Cons scan_result_def Let_def)
  qed
qed simp

definition page_order :: "frames \<Rightarrow> nat list" where
  "page_order s = [next_free_page s..<npages s] @ [0..<next_free_page s]"

lemma set_page_order: "frames_inv s \<Longrightarrow> set (page_order s) = {..<npages s}"
  by (auto simp: page_order_def frames_inv_def)

lemma get_free_page_eq:
  assumes "frames_inv s"
  shows "get_free_page s = (case find (is_free s) (page_order s) of
     Some n \<Rightarrow> Some (page_to_phys s n,
       s\<lparr>next_free_page := n, frame_table := (frame_table s)[n := (frame_table s ! n)\<lparr>page_free := False\<rparr>]\<rparr>)
   | None \<Rightarrow> Some (0, s))"
proof -
  let ?r = "find (is_free s) (page_order s)"
  have "scan_free s (next_free_page s) (next_free_page s) = Some (scan_result (next_free_page s) ?r)"
    using scan_free_high [of "next_free_page s" "next_free_page s" s] assms
    by (simp add: frames_inv_def page_order_def)
  moreover have "n < length (frame_table s)" if "?r = Some n" for n
    using that set_page_order [OF assms] assms by (auto simp: find_Some_iff frames_inv_def)
  ultimately show ?thesis
    by (auto simp: get_free_page_def scan_result_def set_free_def page_to_phys_def split: option.splits)
qed

definition free_pages :: "frames \<Rightarrow> addr set" where
  "free_pages s = page_to_phys s ` {i. i < npages s \<and> is_free s i}"

definition all_pages :: "frames \<Rightarrow> addr set" where
  "all_pages s = page_to_phys s ` {..<npages s}"

definition take_page :: "frames \<Rightarrow> addr option \<times> frames" where
  "take_page s = (case get_free_page s of
     Some (pa, s') \<Rightarrow> (if pa = 0 then None else Some pa, s') | None \<Rightarrow> (None, s))"

definition give_page :: "addr \<Rightarrow> frames \<Rightarrow> frames" where
  "give_page pa s = (case free_page pa s of Some s' \<Rightarrow> s' | None \<Rightarrow> s)"

lemma page_to_phys_inj: "page_to_phys s i = page_to_phys s j \<longleftrightarrow> i = j"
  by (simp add: page_to_phys_def PAGE_SIZE_def)

lemma phys_to_page_to_phys: "phys_to_page s (page_to_phys s i) = Some i"
  by (simp add: phys_to_page_def page_to_phys_def PAGE_SIZE_def)

lemma free_page_eq:
  assumes "frames_inv s" "i < npages s"
  shows "free_page (page_to_phys s i) s =
    Some (s\<lparr>frame_table := (frame_table s)[i := (frame_table s ! i)\<lparr>page_free := True\<rparr>]\<rparr>)"
  using assms by (simp add: free_page_def phys_to_page_to_phys set_free_def frames_inv_def)

interpretation frame_pool: slot_pool frames_inv free_pages all_pages take_page give_page
proof unfold_locales
  fix s assume "frames_inv s"
  show "free_pages s \<subseteq> all_pages s" by (auto simp: free_pages_def all_pages_def)
next
  fix s i s'
  assume inv: "frames_inv s" and t: "take_page s = (Some i, s')"
  obtain n where n: "find (is_free s) (page_order s) = Some n" "i = page_to_phys s n"
      "s' = s\<lparr>next_free_page := n, frame_table := (frame_table s)[n := (frame_table s ! n)\<lparr>page_free := False\<rparr>]\<rparr>"
    using t get_free_page_eq [OF inv] by (auto simp: take_page_def split: option.splits if_splits)
  have m: "n < npages s" "is_free s n"
    using n(1) set_page_order [OF inv] by (auto simp: find_Some_iff)
  have p: "page_to_phys s' = page_to_phys s" "npages s' = npages s" using n(3) by (auto simp: page_to_phys_def)
  have "is_free s' j \<longleftrightarrow> is_free s j \<and> j \<noteq> n" if "j < npages s" for j
    using n(3) m inv that by (auto simp: nth_list_update frames_inv_def)
  then have "free_pages s' = free_pages s - {i}"
    unfolding free_pages_def p n(2) by (auto simp: page_to_phys_inj)
  moreover have "frames_inv s'" using inv n(3) m by (simp add: frames_inv_def)
  ultimately show "i \<in> free_pages s \<and> free_pages s' = free_pages s - {i} \<and> all_pages s' = all_pages s \<and> frames_inv s'"
    using m n(2) p by (auto simp: free_pages_def all_pages_def)
next
  fix s s'
  assume inv: "frames_inv s" and t: "take_page s = (None, s')"
  have pos: "(page_to_phys s n = 0) = False" for n using inv by (simp add: page_to_phys_def PAGE_SIZE_def frames_inv_def)
  have "find (is_free s) (page_order s) = None" "s' = s"
    using t get_free_page_eq [OF inv] by (auto simp: take_page_def pos split: option.splits if_splits)
  then show "free_pages s = {} \<and> free_pages s' = {} \<and> all_pages s' = all_pages s \<and> frames_inv s'"
    using inv set_page_order [OF inv] by (auto simp: find_None_iff free_pages_def)
next
  fix s i
  assume inv: "frames_inv s" and "i \<in> all_pages s"
  then obtain n where n: "n < npages s" "i = page_to_phys s n" by (auto simp: all_pages_def)
  let ?s = "s\<lparr>frame_table := (frame_table s)[n := (frame_table s ! n)\<lparr>page_free := True\<rparr>]\<rparr>"
  have g: "give_page i s = ?s" using free_page_eq [OF inv n(1)] n(2) by (simp add: give_page_def)
  have p: "page_to_phys ?s = page_to_phys s" by (auto simp: page_to_phys_def)
  have "is_free ?s j \<longleftrightarrow> is_free s j \<or> j = n" if "j < npages s" for j
    using n(1) inv that by (auto simp: nth_list_update frames_inv_def)
  then have "free_pages ?s = insert i (free_pages s)"
    unfolding free_pages_def p using n by auto
  then show "free_pages (give_page i s) = insert i (free_pages s) \<and> all_pages (give_page i s) = all_pages s \<and> frames_inv (give_page i s)"
    using inv p by (simp add: g all_pages_def frames_inv_def)
qed

subsection \<open>Contiguous pages: correctness\<close>

definition run_free :: "frames \<Rightarrow> nat \<Rightarrow> nat \<Rightarrow> bool" where
  "run_free s b n \<longleftrightarrow> b + n \<le> npages s \<and> (\<forall>j. b \<le> j \<and> j < b + n \<longrightarrow> is_free s j)"

lemma contig_scan_first:
  assumes "base \<le> i" "i \<le> npages s" "\<forall>j. base \<le> j \<and> j < i \<longrightarrow> is_free s j" "i - base < nr"
    and "\<forall>b<base. \<not> run_free s b nr"
  shows "case contig_scan s nr i base of
      Some b \<Rightarrow> run_free s b nr \<and> (\<forall>b'<b. \<not> run_free s b' nr)
    | None \<Rightarrow> \<forall>b. \<not> run_free s b nr"
  using assms
proof (induction s nr i base rule: contig_scan.induct)
  case (1 s nr i base)
  consider (fin) "\<not> i < npages s" | (hit) "i < npages s" "is_free s i" "i - base + 1 = nr"
    | (more) "i < npages s" "is_free s i" "i - base + 1 \<noteq> nr" | (busy) "i < npages s" "\<not> is_free s i" by blast
  then show ?case
  proof cases
    case fin
    have "\<not> run_free s b nr" for b
      using 1 fin by (cases "b < base") (auto simp: run_free_def)
    then show ?thesis using fin by (subst contig_scan.simps) simp
  next
    case hit
    then have "run_free s base nr" using 1 by (auto simp: run_free_def) (metis One_nat_def Suc_leI add.commute le_add_diff_inverse less_Suc_eq plus_1_eq_Suc add_Suc_right)
    then show ?thesis using 1 hit by (subst contig_scan.simps) simp
  next
    case more
    have "case contig_scan s nr (i + 1) base of
        Some b \<Rightarrow> run_free s b nr \<and> (\<forall>b'<b. \<not> run_free s b' nr) | None \<Rightarrow> \<forall>b. \<not> run_free s b nr"
      by (rule "1.IH"(1)) (use 1 more in \<open>auto simp: less_Suc_eq\<close>)
    then show ?thesis using more by (subst contig_scan.simps) simp
  next
    case busy
    have "\<not> run_free s b nr" if b: "b < i + 1" for b
    proof (cases "b < base")
      case False
      then have "b \<le> i \<and> i < b + nr" using b "1.prems"(4) by linarith
      then show ?thesis using busy by (auto simp: run_free_def)
    qed (use "1.prems"(5) in simp)
    then have "case contig_scan s nr (i + 1) (i + 1) of
        Some b \<Rightarrow> run_free s b nr \<and> (\<forall>b'<b. \<not> run_free s b' nr) | None \<Rightarrow> \<forall>b. \<not> run_free s b nr"
      by (intro "1.IH"(2)) (use 1 busy in auto)
    then show ?thesis using busy by (subst contig_scan.simps) simp
  qed
qed

lemma set_free_run_eq:
  assumes "base + n \<le> length (frame_table s)"
  shows "\<exists>ft. set_free_run b base n s = Some (s\<lparr>frame_table := ft\<rparr>) \<and> length ft = length (frame_table s) \<and>
    (\<forall>j<length ft. ft ! j = (if base \<le> j \<and> j < base + n then (frame_table s ! j)\<lparr>page_free := b\<rparr> else frame_table s ! j))"
  using assms
proof (induction n)
  case 0
  show ?case by (intro exI [of _ "frame_table s"]) auto
next
  case (Suc n)
  then obtain ft where ft: "set_free_run b base n s = Some (s\<lparr>frame_table := ft\<rparr>)" "length ft = length (frame_table s)"
    "\<forall>j<length ft. ft ! j = (if base \<le> j \<and> j < base + n then (frame_table s ! j)\<lparr>page_free := b\<rparr> else frame_table s ! j)"
    by auto
  show ?case
    by (rule exI [of _ "ft[base + n := (ft ! (base + n))\<lparr>page_free := b\<rparr>]"])
      (use ft Suc.prems in \<open>auto simp: set_free_def nth_list_update\<close>)
qed

lemma set_free_run_pages:
  assumes inv: "frames_inv s" and n: "base + n \<le> npages s"
  obtains s' where "set_free_run b base n s = Some s'" "frames_inv s'" "page_to_phys s' = page_to_phys s"
    "npages s' = npages s" "\<forall>j<npages s. is_free s' j \<longleftrightarrow> (if base \<le> j \<and> j < base + n then b else is_free s j)"
proof -
  obtain ft where ft: "set_free_run b base n s = Some (s\<lparr>frame_table := ft\<rparr>)" "length ft = length (frame_table s)"
    "\<forall>j<length ft. ft ! j = (if base \<le> j \<and> j < base + n then (frame_table s ! j)\<lparr>page_free := b\<rparr> else frame_table s ! j)"
    using set_free_run_eq [of base n s b] inv n by (auto simp: frames_inv_def)
  show thesis
    by (rule that [OF ft(1)]) (use ft inv in \<open>auto simp: frames_inv_def page_to_phys_def\<close>)
qed

lemma contig_ok:
  assumes inv: "frames_inv s" and nr: "0 < nr"
  shows "\<exists>pa s'. get_contig_free_pages nr s = Some (pa, s') \<and> frames_inv s' \<and>
    (if \<exists>b. run_free s b nr
     then \<exists>b. run_free s b nr \<and> (\<forall>b'<b. \<not> run_free s b' nr) \<and> pa = page_to_phys s b \<and>
       free_pages s' = free_pages s - page_to_phys s ` {b..<b + nr} \<and>
       (\<exists>s''. free_contig_pages pa nr s' = Some s'' \<and> free_pages s'' = free_pages s)
     else pa = 0 \<and> s' = s)"
proof (cases "contig_scan s nr 0 0")
  case None
  then have "\<forall>b. \<not> run_free s b nr" using contig_scan_first [of 0 0 s nr] nr by simp
  then show ?thesis using None inv by (simp add: get_contig_free_pages_def)
next
  case (Some b)
  then have b: "run_free s b nr" "\<forall>b'<b. \<not> run_free s b' nr" using contig_scan_first [of 0 0 s nr] nr by simp_all
  have le: "b + nr \<le> npages s" using b(1) by (simp add: run_free_def)
  obtain s' where s': "set_free_run False b nr s = Some s'" "frames_inv s'" "page_to_phys s' = page_to_phys s"
      "npages s' = npages s" "\<forall>j<npages s. is_free s' j \<longleftrightarrow> (if b \<le> j \<and> j < b + nr then False else is_free s j)"
    by (rule set_free_run_pages [OF inv le])
  obtain s'' where s'': "set_free_run True b nr s' = Some s''" "frames_inv s''" "page_to_phys s'' = page_to_phys s'"
      "npages s'' = npages s'" "\<forall>j<npages s'. is_free s'' j \<longleftrightarrow> (if b \<le> j \<and> j < b + nr then True else is_free s' j)"
    by (rule set_free_run_pages [OF s'(2), of b nr]) (use le s'(4) in auto)
  have "free_pages s' = free_pages s - page_to_phys s ` {b..<b + nr}"
    unfolding free_pages_def s'(3,4) using s'(5) by (auto simp: page_to_phys_inj split: if_splits)
  moreover have "is_free s'' j = is_free s j" if "j < npages s" for j
    using that s'(4,5) s''(5) b(1) by (auto simp: run_free_def)
  then have "free_pages s'' = free_pages s" unfolding free_pages_def s'(3,4) s''(3,4) by auto
  moreover have "free_contig_pages (page_to_phys s b) nr s' = Some s''"
    using s''(1) phys_to_page_to_phys [of s' b] s'(3) by (simp add: free_contig_pages_def)
  moreover have "get_contig_free_pages nr s = Some (page_to_phys s b, s')"
    using Some s'(1,3) by (simp add: get_contig_free_pages_def)
  ultimately show ?thesis using b s'(2) by auto
qed

subsection \<open>Initialisation: correctness\<close>

lemma PAGE_SIZE_eq: "PAGE_SIZE = 4096"
  by (simp add: PAGE_SIZE_def PAGE_SHIFT_def)

text \<open>Rounding up to pages without the bound of the machine integers.\<close>

definition page_up :: "nat \<Rightarrow> nat" where
  "page_up a = (a + (PAGE_SIZE - 1)) div PAGE_SIZE * PAGE_SIZE"

lemma page_up_bounds:
  shows "a \<le> page_up a" "PAGE_SIZE dvd page_up a" "page_up a < a + PAGE_SIZE"
    "PAGE_SIZE dvd a \<Longrightarrow> page_up a = a"
proof -
  have "page_up a + (a + 4095) mod 4096 = a + 4095" "(a + 4095) mod 4096 < 4096"
    by (simp_all add: page_up_def PAGE_SIZE_eq)
  then show "a \<le> page_up a" "page_up a < a + PAGE_SIZE"
    unfolding PAGE_SIZE_eq by linarith+
  show "PAGE_SIZE dvd page_up a" by (simp add: page_up_def)
  show "PAGE_SIZE dvd a \<Longrightarrow> page_up a = a"
    by (auto simp: page_up_def PAGE_SIZE_eq elim!: dvdE)
qed

lemma ALIGN_UP_page: "a + PAGE_SIZE \<le> 2 ^ w \<Longrightarrow> ALIGN_UP w a PAGE_SIZE = page_up a"
  by (simp add: ALIGN_UP_def page_up_def PAGE_SIZE_eq)

lemma sub64_eq: "b \<le> a \<Longrightarrow> a < 2 ^ 64 \<Longrightarrow> sub64 a b = a - b"
  by (simp add: sub64_def of_nat_diff [symmetric] nat_mod_distrib del: of_nat_diff)

lemma frame_table_init_ok:
  assumes al: "PAGE_SIZE dvd phys_base mi" "PAGE_SIZE dvd mem_size mi"
    and st: "phys_base mi \<le> start" "page_up start < phys_base mi + mem_size mi" "0 < start"
    and lim: "phys_base mi + mem_size mi < 2 ^ 64" "mem_size mi \<le> 2 ^ 41 - 2 ^ 21"
    and s: "s = frame_table_init mi start"
  shows "frames_inv s \<and> (\<forall>p\<in>free_pages s. phys_base mi + kernel_size s \<le> p \<and>
      page_up start + npages s * SIZEOF_PAGE_T \<le> p \<and> p + PAGE_SIZE \<le> phys_base mi + mem_size mi) \<and>
    (page_up start - phys_base mi + page_up (npages s * SIZEOF_PAGE_T) < 2 ^ 32 \<longrightarrow>
      kernel_size s = page_up start - phys_base mi + page_up (npages s * SIZEOF_PAGE_T))"
proof -
  define ft where "ft = page_up start div PAGE_SIZE"
  define av where "av = mem_size mi div PAGE_SIZE - (ft - phys_base mi div PAGE_SIZE)"
  define fp where "fp = page_up (av * SIZEOF_PAGE_T) div PAGE_SIZE"
  obtain b z where bz: "phys_base mi = PAGE_SIZE * b" "mem_size mi = PAGE_SIZE * z" using al unfolding dvd_def by blast
  have ft: "page_up start = PAGE_SIZE * ft" using page_up_bounds(2) [of start] by (simp add: ft_def)
  have "PAGE_SIZE * b \<le> PAGE_SIZE * ft" "PAGE_SIZE * ft < PAGE_SIZE * b + PAGE_SIZE * z" "0 < PAGE_SIZE * ft"
    using st page_up_bounds(1) [of start] ft bz by linarith+
  then have lt: "b \<le> ft" "ft < b + z" "0 < ft" by (simp_all add: PAGE_SIZE_eq)
  have av: "av = z - (ft - b)" by (simp add: av_def bz PAGE_SIZE_eq)
  have zb: "z \<le> 2 ^ 29 - 2 ^ 9" "b + z < 2 ^ 52" using lim by (simp_all add: bz PAGE_SIZE_eq)
  have "start + PAGE_SIZE \<le> 2 ^ 64"
    using page_up_bounds(1) [of start] ft lt zb by (simp add: PAGE_SIZE_eq)
  then have phys: "ALIGN_UP 64 start PAGE_SIZE = PAGE_SIZE * ft" using ALIGN_UP_page ft by simp
  have "sub64 (PAGE_SIZE * ft) (PAGE_SIZE * b) = PAGE_SIZE * (ft - b)"
    using lt zb by (subst sub64_eq) (simp_all add: PAGE_SIZE_eq diff_mult_distrib2)
  moreover have "sub64 (PAGE_SIZE * z) (PAGE_SIZE * (ft - b)) = PAGE_SIZE * av"
    using lt zb by (subst sub64_eq) (simp_all add: av PAGE_SIZE_eq diff_mult_distrib2)
  moreover have avz: "0 < av" "av \<le> z" using lt av by simp_all
  ultimately have avail: "ALIGN_UP 64 (sub64 (mem_size mi) (sub64 (PAGE_SIZE * ft) (phys_base mi))) PAGE_SIZE div PAGE_SIZE mod 2 ^ 32 = av"
    using zb ALIGN_UP_page [of "PAGE_SIZE * av" 64] page_up_bounds(4) [of "PAGE_SIZE * av"] by (simp add: bz PAGE_SIZE_eq)
  have len: "av * SIZEOF_PAGE_T mod 2 ^ 32 = av * SIZEOF_PAGE_T" "ALIGN_UP 32 (av * SIZEOF_PAGE_T) PAGE_SIZE = page_up (av * SIZEOF_PAGE_T)"
    using avz zb by (simp add: SIZEOF_PAGE_T_def, intro ALIGN_UP_page) (simp add: SIZEOF_PAGE_T_def PAGE_SIZE_eq)
  have fp: "page_up (av * SIZEOF_PAGE_T) = PAGE_SIZE * fp"
    using page_up_bounds(2) [of "av * SIZEOF_PAGE_T"] by (simp add: fp_def)
  have fpz: "av * SIZEOF_PAGE_T \<le> PAGE_SIZE * fp" "1 \<le> fp" "fp \<le> av"
    using page_up_bounds(1,3) [of "av * SIZEOF_PAGE_T"] fp avz by (simp_all add: SIZEOF_PAGE_T_def PAGE_SIZE_eq)
  define K where "K = PAGE_SIZE * (ft - b) + PAGE_SIZE * fp"
  have sum: "ft + fp \<le> b + z" using fpz lt av by simp
  then have "(ft + fp) * PAGE_SIZE mod 2 ^ 64 = (ft + fp) * PAGE_SIZE" using zb by (simp add: PAGE_SIZE_eq)
  moreover have k: "sub64 (ft + fp) 1 + 1 = ft + fp" using sum fpz zb by (simp add: sub64_eq)
  moreover have "sub64 ((ft + fp) * PAGE_SIZE) (PAGE_SIZE * b) = K"
    using sum lt zb by (subst sub64_eq) (simp_all add: K_def PAGE_SIZE_eq)
  ultimately have ks: "sub64 ((sub64 (ft + fp) 1 + 1) * PAGE_SIZE mod 2 ^ 64) (phys_base mi) mod 2 ^ 32 = K mod 2 ^ 32"
    unfolding bz by (simp only:)
  note init = s [unfolded frame_table_init_def Let_def phys avail len fp]
  have f: "npages s = av" "pfn_start s = ft" "next_free_page s = 0" "length (frame_table s) = av" "kernel_size s = K mod 2 ^ 32"
    using ks [unfolded PAGE_SIZE_eq] by (simp_all add: init PAGE_SIZE_eq)
  have free: "is_free s i \<longleftrightarrow> fp \<le> i" if "i < av" for i
    using that by (simp add: init PAGE_SIZE_eq)
  have "phys_base mi + kernel_size s \<le> p \<and> page_up start + npages s * SIZEOF_PAGE_T \<le> p \<and>
      p + PAGE_SIZE \<le> phys_base mi + mem_size mi" if p: "p \<in> free_pages s" for p
  proof -
    obtain i where i: "i < av" "fp \<le> i" "p = (i + ft) * PAGE_SIZE"
      using p free f(1,2) by (auto simp: free_pages_def page_to_phys_def)
    have "b + (ft - b) + fp \<le> i + ft" "i + ft + 1 \<le> b + z" using i lt av by linarith+
    moreover have "kernel_size s \<le> K" using f(5) by simp
    ultimately show ?thesis using i(3) f(1) fpz(1) lt unfolding bz PAGE_SIZE_eq ft K_def by simp
  qed
  then show ?thesis using f lt avz fp by (simp add: frames_inv_def ft bz K_def diff_mult_distrib2)
qed

subsection \<open>I/O mappings: correctness\<close>

definition io_end :: "io_map_t \<Rightarrow> addr" where
  "io_end m = page_up (vaddr m + io_size m)"

definition io_wf :: "addr \<Rightarrow> io_map_t \<Rightarrow> bool" where
  "io_wf base m \<longleftrightarrow> base \<le> vaddr m \<and> PAGE_SIZE dvd vaddr m \<and> PAGE_SIZE dvd paddr m \<and> 0 < io_size m"

definition io_inv :: "addr \<Rightarrow> addr \<Rightarrow> io_map_t list \<Rightarrow> bool" where
  "io_inv base L ms \<longleftrightarrow> (\<forall>m\<in>set ms. io_wf base m \<and> io_end m \<le> L) \<and> sorted_wrt (\<lambda>a b. io_end a \<le> vaddr b) ms \<and>
     distinct (map paddr ms)"

lemma page_up_le_iff: "PAGE_SIZE dvd v \<Longrightarrow> page_up x \<le> v \<longleftrightarrow> x \<le> v"
proof
  assume v: "PAGE_SIZE dvd v" "x \<le> v"
  obtain j k where jk: "page_up x = PAGE_SIZE * j" "v = PAGE_SIZE * k"
    using page_up_bounds(2) [of x] v(1) unfolding dvd_def by blast
  have "PAGE_SIZE * j < PAGE_SIZE * k + PAGE_SIZE" using page_up_bounds(3) [of x] v(2) jk by linarith
  then show "page_up x \<le> v" using jk by (simp add: PAGE_SIZE_eq)
qed (use page_up_bounds(1) le_trans in blast)

text \<open>
  \<open>L\<close> bounds the ends of the mappings; as long as the new range fits behind it, the sums of the
  loop do not wrap around.
\<close>

lemma io_end_eq:
  assumes "io_end m + page_up sz < 2 ^ 64"
  shows "ALIGN_UP 64 ((vaddr m + io_size m) mod 2 ^ 64) PAGE_SIZE = io_end m"
proof -
  have "vaddr m + io_size m \<le> io_end m" using page_up_bounds(1) by (simp add: io_end_def)
  moreover have "io_end m + PAGE_SIZE \<le> 2 ^ 64"
  proof -
    obtain k where "io_end m = PAGE_SIZE * k" using page_up_bounds(2) [of "vaddr m + io_size m"] by (auto simp: io_end_def)
    then show ?thesis using assms by (simp add: PAGE_SIZE_eq)
  qed
  ultimately show ?thesis using ALIGN_UP_page [of "vaddr m + io_size m" 64] by (simp add: io_end_def PAGE_SIZE_eq)
qed

lemma io_target_ok:
  assumes "io_target sz target ms = (t, bf, af)" "PAGE_SIZE dvd target"
    and "\<forall>m\<in>set ms. target \<le> vaddr m \<and> PAGE_SIZE dvd vaddr m \<and> io_end m \<le> L" "sorted_wrt (\<lambda>a b. io_end a \<le> vaddr b) ms"
    and "target \<le> L" "L + page_up sz < 2 ^ 64"
  shows "ms = bf @ af \<and> target \<le> t \<and> t \<le> L \<and> PAGE_SIZE dvd t \<and> (\<forall>m\<in>set bf. io_end m \<le> t) \<and>
    (\<forall>m\<in>set af. page_up (t + sz) \<le> vaddr m)"
  using assms
proof (induction sz target ms arbitrary: t bf af rule: io_target.induct)
  case (2 sz target cur rest)
  have c: "vaddr cur \<le> io_end cur" "target \<le> io_end cur" "io_end cur \<le> L"
    using page_up_bounds(1) [of "vaddr cur + io_size cur"] "2.prems"(3) by (auto simp: io_end_def)
  have nw: "(target + sz) mod 2 ^ 64 = target + sz"
    using "2.prems"(5,6) page_up_bounds(1) [of sz] by simp
  have e: "ALIGN_UP 64 ((vaddr cur + io_size cur) mod 2 ^ 64) PAGE_SIZE = io_end cur"
    using c(3) "2.prems"(6) by (intro io_end_eq [of _ sz]) simp
  note tgt = io_target.simps(2) [of sz target cur rest, unfolded nw e]
  show ?case
  proof (cases "target + sz \<le> vaddr cur")
    case True
    have "vaddr cur \<le> vaddr m" if "m \<in> set rest" for m using "2.prems"(4) c(1) that by force
    then show ?thesis using "2.prems" tgt True by (fastforce simp: page_up_le_iff intro: le_trans)
  next
    case False
    obtain t' bf' af' where r: "io_target sz (io_end cur) rest = (t', bf', af')" by (cases "io_target sz (io_end cur) rest") auto
    have "rest = bf' @ af' \<and> io_end cur \<le> t' \<and> t' \<le> L \<and> PAGE_SIZE dvd t' \<and> (\<forall>m\<in>set bf'. io_end m \<le> t') \<and>
        (\<forall>m\<in>set af'. page_up (t' + sz) \<le> vaddr m)"
      using "2.IH" [unfolded nw e, OF False, of t' bf' af'] r "2.prems"(3-6) page_up_bounds(2) by (auto simp: io_end_def)
    then show ?thesis using "2.prems"(1) tgt False r c(2) by auto
  qed
qed simp

text \<open>The page-table calls, replayed.\<close>

fun replay :: "pt_call list \<Rightarrow> (addr \<times> addr \<times> nat) set \<Rightarrow> (addr \<times> addr \<times> nat) set" where
  "replay [] M = M"
| "replay (Create_mapping v p z # cs) M = replay cs (insert (v, p, z) M)"
| "replay (Release_mapping v z # cs) M = replay cs (M - {(v', p, z'). v' = v \<and> z' = z})"

lemma replay_append: "replay (cs @ ds) M = replay ds (replay cs M)"
  by (induction cs M rule: replay.induct) auto

abbreviation entry :: "io_map_t \<Rightarrow> addr \<times> addr \<times> nat" where
  "entry m \<equiv> (vaddr m, paddr m, io_size m)"

text \<open>\<open>n\<close> is the number of bytes, in whole pages, that the calls of \<open>io_map\<close> have asked for.\<close>

inductive io_reach :: "addr \<Rightarrow> nat \<Rightarrow> io_space \<Rightarrow> bool" for base :: addr where
  io_init: "PAGE_SIZE dvd base \<Longrightarrow> io_reach base 0 \<lparr>io_maplist = [], pt_calls = []\<rparr>"
| io_mapped: "io_reach base n s \<Longrightarrow> io_map base ok phys sz s = Some (va, s') \<Longrightarrow> io_reach base (n + page_up sz) s'"
| io_unmapped: "io_reach base n s \<Longrightarrow> io_unmap va s = Some s' \<Longrightarrow> io_reach base n s'"

lemma io_wf_apart:
  assumes "io_inv base L ms" "m \<in> set ms" "n \<in> set ms" "m \<noteq> n"
  shows "io_end m \<le> vaddr n \<or> io_end n \<le> vaddr m"
proof -
  obtain i j where "i < length ms" "j < length ms" "ms ! i = m" "ms ! j = n" "i \<noteq> j"
    using assms(2-4) by (metis in_set_conv_nth)
  then show ?thesis using assms(1) by (cases i j rule: linorder_cases) (auto simp: io_inv_def sorted_wrt_iff_nth_less)
qed

lemma io_end_gt: "io_wf base m \<Longrightarrow> vaddr m < io_end m"
  using page_up_bounds(1) [of "vaddr m + io_size m"] by (auto simp: io_wf_def io_end_def)

lemma page_up_add: "PAGE_SIZE dvd t \<Longrightarrow> page_up (t + sz) = t + page_up sz"
proof -
  assume "PAGE_SIZE dvd t"
  then obtain k where "t = PAGE_SIZE * k" unfolding dvd_def by blast
  then have "t + sz + (PAGE_SIZE - 1) = (sz + (PAGE_SIZE - 1)) + k * PAGE_SIZE" "t = k * PAGE_SIZE"
    by (simp_all add: PAGE_SIZE_eq)
  then show ?thesis unfolding page_up_def by (simp only: div_mult_self1 [of PAGE_SIZE] add_mult_distrib) (simp add: PAGE_SIZE_eq)
qed

lemma io_map_inv:
  assumes inv: "io_inv base L (io_maplist s)" "PAGE_SIZE dvd base" "base \<le> L" "L + page_up sz < 2 ^ 64"
    and m: "io_map base ok phys sz s = Some (va, s')"
  shows "io_inv base (L + page_up sz) (io_maplist s') \<and> (\<exists>m\<in>set (io_maplist s'). va = (vaddr m + phys mod PAGE_SIZE) mod 2 ^ 64 \<and>
      paddr m = phys - phys mod PAGE_SIZE \<and> io_size m = sz \<and>
      (s' = s \<or> set (io_maplist s') = insert m (set (io_maplist s)) \<and>
         pt_calls s' = pt_calls s @ [Create_mapping (vaddr m) (paddr m) sz]))"
proof (cases "find_io_map_by_paddr (phys - phys mod PAGE_SIZE) s")
  case (Some n)
  then have "n \<in> set (io_maplist s)" "paddr n = phys - phys mod PAGE_SIZE"
    by (auto simp: find_io_map_by_paddr_def find_Some_iff)
  moreover have "io_inv base (L + page_up sz) (io_maplist s)" using inv(1) by (auto simp: io_inv_def)
  ultimately show ?thesis using m Some by (auto simp: io_map_def Let_def split: if_splits)
next
  case None
  obtain t bf af where t: "io_target sz base (io_maplist s) = (t, bf, af)"
    by (cases "io_target sz base (io_maplist s)") auto
  let ?m = "\<lparr>vaddr = t, paddr = phys - phys mod PAGE_SIZE, io_size = sz\<rparr>"
  have r: "io_maplist s = bf @ af \<and> base \<le> t \<and> t \<le> L \<and> PAGE_SIZE dvd t \<and> (\<forall>m\<in>set bf. io_end m \<le> t) \<and>
      (\<forall>m\<in>set af. page_up (t + sz) \<le> vaddr m)"
    by (rule io_target_ok [OF t]) (use inv in \<open>auto simp: io_inv_def io_wf_def\<close>)
  have s': "va = (t + phys mod PAGE_SIZE) mod 2 ^ 64" "sz \<noteq> 0"
      "s' = \<lparr>io_maplist = bf @ ?m # af, pt_calls = pt_calls s @ [Create_mapping t (phys - phys mod PAGE_SIZE) sz]\<rparr>"
    using m None t by (auto simp: io_map_def Let_def split: if_splits)
  have new: "paddr ?m \<notin> paddr ` set (bf @ af)"
    using None r by (auto simp: find_io_map_by_paddr_def find_None_iff)
  have "io_end ?m \<le> L + page_up sz" using r by (simp add: io_end_def page_up_add)
  moreover have "io_wf base ?m" using r s'(2) by (simp add: io_wf_def minus_mod_eq_mult_div)
  moreover have "io_wf base m \<and> io_end m \<le> L + page_up sz" if "m \<in> set bf \<union> set af" for m
    using inv(1) r that by (auto simp: io_inv_def intro: trans_le_add1)
  ultimately have "\<forall>m\<in>set (bf @ ?m # af). io_wf base m \<and> io_end m \<le> L + page_up sz" by auto
  then have "io_inv base (L + page_up sz) (io_maplist s')"
    using inv(1) r s'(3) new by (auto simp: io_inv_def sorted_wrt_append io_end_def)
  then show ?thesis using s' r by auto
qed

lemma io_unmap_inv:
  assumes inv: "io_inv base L (io_maplist s)" and u: "io_unmap va s = Some s'"
  shows "io_inv base L (io_maplist s') \<and> (\<exists>m\<in>set (io_maplist s). vaddr m = va - va mod PAGE_SIZE \<and>
    set (io_maplist s') = set (io_maplist s) - {m} \<and> pt_calls s' = pt_calls s @ [Release_mapping (vaddr m) (io_size m)])"
proof -
  obtain m where m: "find (\<lambda>m. vaddr m = va - va mod PAGE_SIZE) (io_maplist s) = Some m"
      "s' = \<lparr>io_maplist = remove1 m (io_maplist s), pt_calls = pt_calls s @ [Release_mapping (vaddr m) (io_size m)]\<rparr>"
    using u by (auto simp: io_unmap_def Let_def split: option.splits)
  have "m \<in> set (io_maplist s)" "vaddr m = va - va mod PAGE_SIZE" using m(1) by (auto simp: find_Some_iff)
  moreover have d: "distinct (io_maplist s)" using inv distinct_map by (auto simp: io_inv_def)
  moreover have "io_inv base L (remove1 m (io_maplist s))"
  proof -
    obtain xs ys where "io_maplist s = xs @ m # ys" "m \<notin> set xs" using calculation(1) split_list_first by fastforce
    then show ?thesis using inv by (auto simp: io_inv_def sorted_wrt_append remove1_append)
  qed
  ultimately show ?thesis using m(2) by auto
qed

lemma io_reach_inv:
  assumes "io_reach base n s" "base + n < 2 ^ 64"
  shows "PAGE_SIZE dvd base \<and> io_inv base (base + n) (io_maplist s) \<and> replay (pt_calls s) {} = entry ` set (io_maplist s)"
  using assms
proof (induction rule: io_reach.induct)
  case (io_mapped n s ok phys sz va s')
  then show ?case using io_map_inv [of base "base + n" s sz ok phys va s'] by (auto simp: replay_append add.assoc)
next
  case (io_unmapped n s va s')
  then have inv: "io_inv base (base + n) (io_maplist s)" by simp
  obtain m where m: "m \<in> set (io_maplist s)" "set (io_maplist s') = set (io_maplist s) - {m}"
      "pt_calls s' = pt_calls s @ [Release_mapping (vaddr m) (io_size m)]"
    using io_unmap_inv [OF inv io_unmapped.hyps(2)] by auto
  have "k = m" if "k \<in> set (io_maplist s)" "vaddr k = vaddr m" for k
    using io_wf_apart [OF inv, of m k] io_end_gt [of base m] io_end_gt [of base k] that m(1) inv
    by (auto simp: io_inv_def)
  then have "entry ` set (io_maplist s) - {(v', p, z'). v' = vaddr m \<and> z' = io_size m} = entry ` (set (io_maplist s) - {m})"
    using m(1) by fastforce
  then show ?case using io_unmapped io_unmap_inv [OF inv io_unmapped.hyps(2)] m by (auto simp: replay_append)
qed (simp add: io_inv_def)

text \<open>
  A driver that maps a range which does not start at a page boundary gets an address behind
  which fewer bytes are mapped than it asked for: the offset is not added to the size.
\<close>

lemma io_map_tail_unmapped:
  assumes "io_reach base n s" "base + n + page_up sz < 2 ^ 64" "io_map base ok phys sz s = Some (va, s')" "s' \<noteq> s"
    and "page_up sz < phys mod PAGE_SIZE + sz"
  shows "\<exists>v p. pt_calls s' = pt_calls s @ [Create_mapping v p sz] \<and> va = (v + phys mod PAGE_SIZE) mod 2 ^ 64 \<and>
    v + page_up sz < v + phys mod PAGE_SIZE + sz"
  using io_map_inv [of base "base + n" s sz ok phys va s'] io_reach_inv [OF assms(1)] assms(2-5) by auto

text \<open>
  A range that does not fit between the base and the end of the address space is placed over the
  first mapping: the sum wraps around and the loop stops at once.
\<close>

lemma io_map_wraps:
  assumes "find_io_map_by_paddr phys s = None" "PAGE_SIZE dvd phys" "io_maplist s = m # ms" "vaddr m = base"
    and "2 ^ 64 \<le> base + sz" "base < 2 ^ 64" "sz < 2 ^ 64"
  shows "\<exists>s'. io_map base True phys sz s = Some (base, s') \<and> io_maplist s' = \<lparr>vaddr = base, paddr = phys, io_size = sz\<rparr> # m # ms"
proof -
  have "(base + sz) mod 2 ^ 64 = base + sz - 2 ^ 64" using assms(5-7) by (subst mod_if) simp
  then have "(base + sz) mod 2 ^ 64 \<le> base" using assms(7) by simp
  then show ?thesis using assms by (simp add: io_map_def Let_def)
qed

subsection \<open>Properties\<close>

definition ex_frames :: frames where
  "ex_frames = frame_table_init \<lparr>phys_base = 0x40000000, mem_size = 0x10000, avail_pages = 0\<rparr> 0x40001234"

lemma ex_frames_eq:
  "ex_frames = \<lparr>mem_info = \<lparr>phys_base = 0x40000000, mem_size = 0x10000, avail_pages = 14\<rparr>,
     frame_table = map (\<lambda>i. if i < 1 then \<lparr>page_free = False, refcount = 1\<rparr> else \<lparr>page_free = True, refcount = 0\<rparr>) [0..<14],
     next_free_page = 0, pfn_start = 0x40002, kernel_size = 0x3000\<rparr>"
proof -
  have 1: "ALIGN_UP 64 0x40001234 4096 = 0x40002000" "sub64 0x40002000 0x40000000 = 0x2000" "sub64 0x10000 0x2000 = 0xe000"
    "ALIGN_UP 64 0xe000 4096 = 0xe000" "(14 :: nat) * 8 mod 2 ^ 32 = 112" "ALIGN_UP 32 112 4096 = 4096"
    by (simp_all add: ALIGN_UP_def sub64_def)
  have 2: "(0xe000 :: nat) div 4096 mod 2 ^ 32 = 14" "(0x40002000 :: nat) div 4096 = 0x40002" "(4096 :: nat) div 4096 = 1"
    "sub64 (0x40002 + 1) 1 = 0x40002" "sub64 ((0x40002 + 1) * 4096 mod 2 ^ 64) 0x40000000 mod 2 ^ 32 = 0x3000"
    by (simp_all add: sub64_def)
  show ?thesis by (simp only: ex_frames_def frame_table_init_def Let_def mem_info.simps PAGE_SIZE_eq SIZEOF_PAGE_T_def 1 2)
qed

lemma ex_frames_inv: "frames_inv ex_frames"
  using frame_table_init_ok [where mi = "\<lparr>phys_base = 0x40000000, mem_size = 0x10000, avail_pages = 0\<rparr>" and start = "0x40001234" and s = ex_frames]
  by (simp add: ex_frames_def PAGE_SIZE_eq page_up_def)

text \<open>
  C7. No page frame is ever handed out twice: through every sequence of \<open>get_free_page\<close> and
  \<open>free_page\<close> the pages held are distinct, none of them is marked free, and pages held and
  pages free together are the pages that were free at the start.
\<close>

theorem page_ownership_exclusive:
  assumes "frames_inv s" and "pool_run take_page give_page ops ([], s) = (held, s')"
  shows "distinct held \<and> set held \<inter> free_pages s' = {} \<and> set held \<union> free_pages s' = free_pages s"
proof -
  have "frame_pool.owned [] s" using assms(1) by (simp add: frame_pool.owned_def)
  from frame_pool.pool_run_exclusive [OF this assms(2)] show ?thesis by (simp add: frame_pool.owned_def)
qed

lemma page_ownership_exclusive_witness:
  "distinct (fst (pool_run take_page give_page [Take, Take, Give 0, Take] ([], ex_frames)))"
  using page_ownership_exclusive [OF ex_frames_inv, of "[Take, Take, Give 0, Take]"]
  by (metis prod.collapse)

text \<open>
  C16. \<open>get_contig_free_pages\<close> returns the lowest run of free pages of the length asked for and
  marks exactly these pages busy; it returns 0 only when there is no such run.
  \<open>free_contig_pages\<close> undoes the allocation.
\<close>

theorem contig_pages_first_fit:
  assumes "frames_inv s" and "0 < nr"
  shows "\<exists>pa s'. get_contig_free_pages nr s = Some (pa, s') \<and> frames_inv s' \<and>
    (if \<exists>b. run_free s b nr
     then \<exists>b. run_free s b nr \<and> (\<forall>b'<b. \<not> run_free s b' nr) \<and> pa = page_to_phys s b \<and>
       free_pages s' = free_pages s - page_to_phys s ` {b..<b + nr} \<and>
       (\<exists>s''. free_contig_pages pa nr s' = Some s'' \<and> free_pages s'' = free_pages s)
     else pa = 0 \<and> s' = s)"
  by (rule contig_ok [OF assms])

lemma contig_pages_first_fit_witness: "\<exists>pa s'. get_contig_free_pages 3 ex_frames = Some (pa, s') \<and> frames_inv s'"
  using contig_pages_first_fit [OF ex_frames_inv, of 3] by auto

text \<open>
  C17. In a memory below the end of the address space and of at most 2 TiB less 2 MiB, every page
  that can be handed out after \<open>frame_table_init\<close> lies behind the kernel and the whole frame table
  and inside the memory; \<open>kernel_size\<close> is the size of the two unless it exceeds 32 bits. For larger
  memories the length of the frame table, of type \<open>uint32_t\<close>, wraps around.
\<close>

theorem frame_table_init_excludes_kernel:
  assumes "PAGE_SIZE dvd phys_base mi" and "PAGE_SIZE dvd mem_size mi"
    and "phys_base mi \<le> start" and "page_up start < phys_base mi + mem_size mi" and "0 < start"
    and "phys_base mi + mem_size mi < 2 ^ 64" and "mem_size mi \<le> 2 ^ 41 - 2 ^ 21"
    and "s = frame_table_init mi start"
  shows "frames_inv s \<and> (\<forall>p\<in>free_pages s. phys_base mi + kernel_size s \<le> p \<and>
      page_up start + npages s * SIZEOF_PAGE_T \<le> p \<and> p + PAGE_SIZE \<le> phys_base mi + mem_size mi) \<and>
    (page_up start - phys_base mi + page_up (npages s * SIZEOF_PAGE_T) < 2 ^ 32 \<longrightarrow>
      kernel_size s = page_up start - phys_base mi + page_up (npages s * SIZEOF_PAGE_T))"
  by (rule frame_table_init_ok [OF assms])

lemma frame_table_init_excludes_kernel_witness:
  "page_to_phys ex_frames 1 \<in> free_pages ex_frames \<and> 0x40003000 \<le> page_to_phys ex_frames 1"
proof -
  let ?mi = "\<lparr>phys_base = 0x40000000, mem_size = 0x10000, avail_pages = 0\<rparr> :: mem_info"
  have n: "npages ex_frames = 14" and "is_free ex_frames 1" unfolding ex_frames_eq by simp_all
  then have f: "page_to_phys ex_frames 1 \<in> free_pages ex_frames" using n unfolding free_pages_def by fastforce
  have a: "PAGE_SIZE dvd phys_base ?mi" "PAGE_SIZE dvd mem_size ?mi" "phys_base ?mi \<le> 0x40001234"
      "page_up 0x40001234 < phys_base ?mi + mem_size ?mi" "0 < (0x40001234 :: nat)"
      "phys_base ?mi + mem_size ?mi < 2 ^ 64" "mem_size ?mi \<le> 2 ^ 41 - 2 ^ 21"
    by (simp_all add: PAGE_SIZE_eq page_up_def)
  have "kernel_size ex_frames = 0x3000"
    using frame_table_init_excludes_kernel [OF a ex_frames_def] by (simp add: n page_up_def PAGE_SIZE_eq SIZEOF_PAGE_T_def)
  moreover have "phys_base ?mi + kernel_size ex_frames \<le> page_to_phys ex_frames 1"
    using frame_table_init_excludes_kernel [OF a ex_frames_def] f by blast
  ultimately show ?thesis using f by simp
qed

text \<open>
  C18. After any sequence of \<open>io_map\<close> and \<open>io_unmap\<close> whose requests together, in whole pages, fit
  between the base of the I/O range and the end of the address space, no two I/O mappings share a
  page, no mapping leaves that range, and the list agrees with the page table: the mappings
  created and not released are exactly those of the list. Without that bound the sums of the loop
  wrap around.
\<close>

theorem io_mappings_disjoint:
  assumes "io_reach base asked s" and "base + asked < 2 ^ 64"
  shows "(\<forall>m\<in>set (io_maplist s). base \<le> vaddr m \<and> io_end m \<le> base + asked) \<and>
    (\<forall>m\<in>set (io_maplist s). \<forall>n\<in>set (io_maplist s). m \<noteq> n \<longrightarrow> io_end m \<le> vaddr n \<or> io_end n \<le> vaddr m) \<and>
    replay (pt_calls s) {} = entry ` set (io_maplist s)"
proof -
  have inv: "io_inv base (base + asked) (io_maplist s)" "replay (pt_calls s) {} = entry ` set (io_maplist s)"
    using io_reach_inv [OF assms] by blast+
  then show ?thesis using io_wf_apart [OF inv(1)] by (auto simp: io_inv_def io_wf_def)
qed

lemma io_mappings_disjoint_witness:
  "\<exists>s. io_reach 0x10000 0x2000 s \<and> io_maplist s = [\<lparr>vaddr = 0x10000, paddr = 0x9000000, io_size = 0x1000\<rparr>,
      \<lparr>vaddr = 0x11000, paddr = 0xa000000, io_size = 0x200\<rparr>] \<and>
     replay (pt_calls s) {} = {(0x10000, 0x9000000, 0x1000), (0x11000, 0xa000000, 0x200)}"
proof -
  let ?s0 = "\<lparr>io_maplist = [], pt_calls = []\<rparr> :: io_space"
  let ?s1 = "snd (the (io_map 0x10000 True 0x9000000 0x1000 ?s0))"
  let ?s2 = "snd (the (io_map 0x10000 True 0xa000040 0x200 ?s1))"
  have "io_reach 0x10000 0 ?s0" by (rule io_init) (simp add: PAGE_SIZE_eq)
  moreover have "io_map 0x10000 True 0x9000000 0x1000 ?s0 = Some (0x10000, ?s1)" by code_simp
  moreover have "io_map 0x10000 True 0xa000040 0x200 ?s1 = Some (0x11040, ?s2)" by code_simp
  ultimately have "io_reach 0x10000 (0 + page_up 0x1000 + page_up 0x200) ?s2" using io_mapped by blast
  then have r: "io_reach 0x10000 0x2000 ?s2" by (simp add: page_up_def PAGE_SIZE_eq)
  have l: "io_maplist ?s2 = [\<lparr>vaddr = 0x10000, paddr = 0x9000000, io_size = 0x1000\<rparr>,
      \<lparr>vaddr = 0x11000, paddr = 0xa000000, io_size = 0x200\<rparr>]" by code_simp
  show ?thesis
    by (rule exI [of _ ?s2]) (use io_mappings_disjoint [OF r] r l in auto)
qed

end
