(* ===== verification/So3_Sched.thy ===== *)
theory So3_Sched
  imports So3_Interfaces
begin

section \<open>The scheduler\<close>

text \<open>
  Model of \<open>so3/kernel/schedule.c\<close> with the thread and process control blocks of
  \<open>thread.h\<close> and \<open>process.h\<close>. Threads are named by their identifier; the ready and the zombie
  list hold identifiers in queue order. All three scheduling policies are modelled.

  The functions run with interrupts off on one processor, so each is one atomic step; the
  switch of the processor context at the end of \<open>schedule\<close> is the change of
  \<open>current_thread\<close>. The interrupt mask is part of this context: \<open>irqs_on\<close> tells for the current
  thread whether interrupts are enabled, and for the others whether they will be when the thread
  continues. \<open>schedule\<close> and \<open>waiting\<close> save the mask of their caller when they are called and
  restore it before they return to it, so they leave \<open>irqs_on\<close> as it is. \<open>None\<close> stands for a failed \<open>ASSERT\<close>, \<open>BUG()\<close> or the access to a control
  block that does not exist. \<open>mem_ok\<close> tells whether the heap can serve the queue entries.
\<close>

subsection \<open>Control blocks\<close>

datatype thread_state = THREAD_STATE_NEW | THREAD_STATE_READY | THREAD_STATE_RUNNING
  | THREAD_STATE_WAITING | THREAD_STATE_ZOMBIE

datatype proc_state = PROC_STATE_NEW | PROC_STATE_READY | PROC_STATE_RUNNING
  | PROC_STATE_WAITING | PROC_STATE_ZOMBIE

datatype sched_policy = SCHED_POLICY_RR | SCHED_POLICY_PRIO | SCHED_POLICY_PRIO_DYN

record tcb =
  prio :: nat
  current_prio :: nat
  last_prio_inc_time :: nat
  tstate :: thread_state
  stack_slotID :: nat
  tpcb :: "nat option"
  pcb_stack_slotID :: nat
  texit_status :: int
  joinQueue :: "nat list"

record completion =
  ccount :: nat
  cwaiters :: "nat list"

record pcb =
  pstate :: proc_state
  pgtable :: addr
  main_thread :: "nat option"
  threads :: "nat list"
  threads_active :: completion
  user_stack_slot :: "bool list"
  pexit_status :: int
  ptrace_pending :: bool

text \<open>\<open>lock_flags\<close> holds the local variable \<open>flags\<close> of the threads that sleep in \<open>mutex_lock\<close>.\<close>

record kernel =
  tcbs :: "nat \<Rightarrow> tcb option"
  pcbs :: "nat \<Rightarrow> pcb option"
  readyThreads :: "nat list"
  zombieThreads :: "nat list"
  current_thread :: "nat option"
  tcb_idle :: "nat option"
  policy :: sched_policy
  sched_preempt :: bool
  in_scheduling :: bool
  in_interrupt :: bool
  boot_completed :: bool
  schedule_timer :: nat
  clock :: nat
  cur_pgtable :: addr
  kernel_stack_slot :: "bool list"
  tid_next :: nat
  mem_ok :: bool
  irqs_on :: "nat \<Rightarrow> bool"
  lock_flags :: "nat \<Rightarrow> bool"

definition local_irq_save :: "nat \<Rightarrow> kernel \<Rightarrow> bool \<times> kernel" where
  "local_irq_save c s = (irqs_on s c, s\<lparr>irqs_on := (irqs_on s)(c := False)\<rparr>)"

definition local_irq_restore :: "nat \<Rightarrow> bool \<Rightarrow> kernel \<Rightarrow> kernel" where
  "local_irq_restore c flags s = s\<lparr>irqs_on := (irqs_on s)(c := flags)\<rparr>"

definition upd_tcb :: "nat \<Rightarrow> (tcb \<Rightarrow> tcb) \<Rightarrow> kernel \<Rightarrow> kernel option" where
  "upd_tcb t f s = (case tcbs s t of None \<Rightarrow> None | Some c \<Rightarrow> Some (s\<lparr>tcbs := (tcbs s)(t \<mapsto> f c)\<rparr>))"

definition upd_pcb :: "nat \<Rightarrow> (pcb \<Rightarrow> pcb) \<Rightarrow> kernel \<Rightarrow> kernel option" where
  "upd_pcb p f s = (case pcbs s p of None \<Rightarrow> None | Some c \<Rightarrow> Some (s\<lparr>pcbs := (pcbs s)(p \<mapsto> f c)\<rparr>))"

subsection \<open>Queues\<close>

definition preempt_disable :: "kernel \<Rightarrow> kernel" where
  "preempt_disable s = s\<lparr>sched_preempt := False\<rparr>"

definition preempt_enable :: "kernel \<Rightarrow> kernel" where
  "preempt_enable s = s\<lparr>sched_preempt := True\<rparr>"

definition ready :: "nat \<Rightarrow> kernel \<Rightarrow> kernel option" where
  "ready t s =
     do {
       s1 \<leftarrow> upd_tcb t (\<lambda>c. c\<lparr>tstate := THREAD_STATE_READY\<rparr>) s;
       if \<not> mem_ok s then None
       else do {
         s2 \<leftarrow> (if policy s = SCHED_POLICY_PRIO_DYN
                then upd_tcb t (\<lambda>c. c\<lparr>last_prio_inc_time := clock s,
                  current_prio := if current_prio c > prio c then current_prio c - 1 else current_prio c\<rparr>) s1
                else Some s1);
         Some (s2\<lparr>readyThreads := readyThreads s2 @ [t]\<rparr>)
       }
     }"

definition remove_zombie :: "nat \<Rightarrow> kernel \<Rightarrow> kernel option" where
  "remove_zombie t s =
     do {
       c \<leftarrow> tcbs s t;
       if tstate c = THREAD_STATE_ZOMBIE \<and> t \<in> set (zombieThreads s)
       then Some (s\<lparr>zombieThreads := remove1 t (zombieThreads s)\<rparr>)
       else None
     }"

definition wake_up :: "nat \<Rightarrow> kernel \<Rightarrow> kernel option" where
  "wake_up t s =
     do {
       c \<leftarrow> tcbs s t;
       if tstate c = THREAD_STATE_WAITING then ready t s else Some s
     }"

definition remove_ready :: "nat \<Rightarrow> kernel \<Rightarrow> kernel option" where
  "remove_ready t s =
     do {
       c \<leftarrow> tcbs s t;
       if tstate c = THREAD_STATE_READY \<and> t \<in> set (readyThreads s)
       then Some (s\<lparr>readyThreads := remove1 t (readyThreads s)\<rparr>)
       else None
     }"

subsection \<open>Choosing the next thread\<close>

definition tstate_of :: "kernel \<Rightarrow> nat \<Rightarrow> thread_state option" where
  "tstate_of s t = map_option tstate (tcbs s t)"

definition running_current :: "kernel \<Rightarrow> nat option" where
  "running_current s =
     (case current_thread s of
        None \<Rightarrow> None
      | Some c \<Rightarrow> if tstate_of s c = Some THREAD_STATE_RUNNING then Some c else None)"

text \<open>The comparison loop over the ready list, with the running thread as first candidate.\<close>

definition better :: "(tcb \<Rightarrow> nat) \<Rightarrow> kernel \<Rightarrow> nat \<Rightarrow> nat option \<Rightarrow> nat option" where
  "better pr s t best =
     (case best of
        None \<Rightarrow> Some t
      | Some b \<Rightarrow> if pr (the (tcbs s t)) > pr (the (tcbs s b)) then Some t else Some b)"

definition pick :: "(tcb \<Rightarrow> nat) \<Rightarrow> kernel \<Rightarrow> nat option" where
  "pick pr s = fold (better pr s) (readyThreads s) (running_current s)"

definition take_picked :: "nat option \<Rightarrow> kernel \<Rightarrow> (nat option \<times> kernel) option" where
  "take_picked p s =
     (if p \<noteq> running_current s
      then do { s1 \<leftarrow> (case p of None \<Rightarrow> None | Some t \<Rightarrow> remove_ready t s); Some (p, s1) }
      else Some (p, s))"

definition PRIO_MAX_DELAY :: nat where
  "PRIO_MAX_DELAY = 500"

definition MILLISECS :: "nat \<Rightarrow> nat" where
  "MILLISECS ms = ms * 1000000"

definition age :: "nat \<Rightarrow> tcb \<Rightarrow> tcb" where
  "age now c =
     (if last_prio_inc_time c + MILLISECS PRIO_MAX_DELAY < now
      then c\<lparr>current_prio := if current_prio c < 99 then current_prio c + 1 else current_prio c,
             last_prio_inc_time := now\<rparr>
      else c)"

definition age_ready :: "kernel \<Rightarrow> kernel" where
  "age_ready s = s\<lparr>tcbs := (\<lambda>t. if t \<in> set (readyThreads s) then map_option (age (clock s)) (tcbs s t) else tcbs s t)\<rparr>"

definition eligible :: "kernel \<Rightarrow> nat \<Rightarrow> bool" where
  "eligible s t =
     (case tcbs s t of None \<Rightarrow> False
      | Some c \<Rightarrow> (case tpcb c of None \<Rightarrow> True
          | Some p \<Rightarrow> (case pcbs s p of None \<Rightarrow> False
              | Some d \<Rightarrow> pstate d = PROC_STATE_READY \<or> pstate d = PROC_STATE_RUNNING)))"

definition next_thread_prio_dyn :: "kernel \<Rightarrow> (nat option \<times> kernel) option" where
  "next_thread_prio_dyn s = (let s1 = age_ready s in take_picked (pick current_prio s1) s1)"

definition next_thread_prio :: "kernel \<Rightarrow> (nat option \<times> kernel) option" where
  "next_thread_prio s = take_picked (pick prio s) s"

definition next_thread_rr :: "kernel \<Rightarrow> (nat option \<times> kernel) option" where
  "next_thread_rr s =
     (case find (eligible s) (readyThreads s) of
        None \<Rightarrow> Some (None, s)
      | Some t \<Rightarrow> do { s1 \<leftarrow> remove_ready t s; Some (Some t, s1) })"

definition next_thread :: "kernel \<Rightarrow> (nat option \<times> kernel) option" where
  "next_thread s =
     (case policy s of
        SCHED_POLICY_PRIO_DYN \<Rightarrow> next_thread_prio_dyn s
      | SCHED_POLICY_PRIO \<Rightarrow> next_thread_prio s
      | SCHED_POLICY_RR \<Rightarrow> next_thread_rr s)"

subsection \<open>The scheduling function\<close>

definition SCHEDULE_FREQ :: nat where
  "SCHEDULE_FREQ = 10"

text \<open>The change of the process context, when the next thread uses another page table.\<close>

definition switch_mm :: "nat option \<Rightarrow> nat \<Rightarrow> kernel \<Rightarrow> kernel option" where
  "switch_mm prev nxt s =
     do {
       c \<leftarrow> tcbs s nxt;
       case tpcb c of None \<Rightarrow> Some s
       | Some p \<Rightarrow> do {
           d \<leftarrow> pcbs s p;
           if pgtable d = cur_pgtable s then Some s
           else do {
             s1 \<leftarrow> upd_pcb p (\<lambda>d. d\<lparr>pstate := PROC_STATE_RUNNING\<rparr>) s;
             s2 \<leftarrow> (case prev of None \<Rightarrow> Some s1
               | Some q \<Rightarrow> do {
                   cq \<leftarrow> tcbs s1 q;
                   case tpcb cq of None \<Rightarrow> Some s1
                   | Some pq \<Rightarrow> upd_pcb pq (\<lambda>d. if pstate d \<noteq> PROC_STATE_ZOMBIE \<and> pstate d \<noteq> PROC_STATE_WAITING
                       then d\<lparr>pstate := PROC_STATE_READY\<rparr> else d) s1
                 });
             Some (s2\<lparr>cur_pgtable := pgtable d\<rparr>)
           }
         }
     }"

definition switch_thread :: "nat option \<Rightarrow> nat \<Rightarrow> kernel \<Rightarrow> kernel option" where
  "switch_thread prev nxt s =
     do {
       s1 \<leftarrow> (case prev of None \<Rightarrow> Some s
         | Some q \<Rightarrow> if tstate_of s q = Some THREAD_STATE_RUNNING \<and> tcb_idle s \<noteq> Some q then ready q s else Some s);
       s2 \<leftarrow> upd_tcb nxt (\<lambda>c. c\<lparr>tstate := THREAD_STATE_RUNNING\<rparr>) s1;
       switch_mm prev nxt (s2\<lparr>current_thread := Some nxt\<rparr>)
     }"

definition schedule :: "kernel \<Rightarrow> kernel option" where
  "schedule s =
     (if \<not> boot_completed s then Some s
      else if \<not> sched_preempt s then None
      else if tcb_idle s = None then None
      else if in_scheduling s then Some s
      else do {
        let prev = current_thread s;
        (n0, s1) \<leftarrow> next_thread (s\<lparr>in_scheduling := True\<rparr>);
        let s2 = s1\<lparr>schedule_timer := clock s1 + MILLISECS SCHEDULE_FREQ\<rparr>;
        let nxt = (if n0 = None \<and> running_current s2 = None then tcb_idle s2 else n0);
        s3 \<leftarrow> (case nxt of None \<Rightarrow> Some s2
          | Some n \<Rightarrow> if nxt \<noteq> prev then switch_thread prev n s2 else Some s2);
        Some (s3\<lparr>in_scheduling := False, in_interrupt := False\<rparr>)
      })"

definition waiting :: "kernel \<Rightarrow> kernel option" where
  "waiting s =
     do {
       c \<leftarrow> current_thread s;
       if tstate_of s c \<noteq> Some THREAD_STATE_RUNNING then None
       else do {
         s1 \<leftarrow> upd_tcb c (\<lambda>d. d\<lparr>tstate := THREAD_STATE_WAITING\<rparr>) s;
         schedule s1
       }
     }"

definition zombie :: "kernel \<Rightarrow> kernel option" where
  "zombie s =
     do {
       c \<leftarrow> current_thread s;
       if tstate_of s c \<noteq> Some THREAD_STATE_RUNNING then None
       else do {
         s1 \<leftarrow> upd_tcb c (\<lambda>d. d\<lparr>tstate := THREAD_STATE_ZOMBIE\<rparr>) s;
         if \<not> mem_ok s1 then None
         else schedule (s1\<lparr>zombieThreads := zombieThreads s1 @ [c]\<rparr>)
       }
     }"

end
