(* ===== verification/So3_Sched_Proofs.thy ===== *)
theory So3_Sched_Proofs
  imports So3_Sched
begin

text \<open>
  Correctness of the scheduler: the ready and zombie lists always agree with the states of
  the threads, a scheduling step never fails and always leaves exactly one current thread
  running, and the selection policies choose what they promise.
\<close>

subsection \<open>Invariant\<close>

text \<open>
  The ready list holds exactly the ready threads, the zombie list exactly the zombies, each
  once; apart from the current thread only the idle thread can be marked running (it is
  never put back into a queue).
\<close>

definition idle_ok :: "kernel \<Rightarrow> bool" where
  "idle_ok s \<longleftrightarrow> (\<exists>i. tcb_idle s = Some i \<and>
     (tstate_of s i = Some THREAD_STATE_NEW \<or> tstate_of s i = Some THREAD_STATE_RUNNING))"

definition ready_ok :: "kernel \<Rightarrow> bool" where
  "ready_ok s \<longleftrightarrow> distinct (readyThreads s) \<and>
     (\<forall>t. t \<in> set (readyThreads s) \<longleftrightarrow> tstate_of s t = Some THREAD_STATE_READY)"

definition zombie_ok :: "kernel \<Rightarrow> bool" where
  "zombie_ok s \<longleftrightarrow> distinct (zombieThreads s) \<and>
     (\<forall>t. t \<in> set (zombieThreads s) \<longleftrightarrow> tstate_of s t = Some THREAD_STATE_ZOMBIE)"

definition running_ok :: "kernel \<Rightarrow> bool" where
  "running_ok s \<longleftrightarrow>
     (\<forall>t. tstate_of s t = Some THREAD_STATE_RUNNING \<longrightarrow> current_thread s = Some t \<or> tcb_idle s = Some t) \<and>
     (\<forall>c. current_thread s = Some c \<longrightarrow> tstate_of s c \<noteq> None \<and>
        tstate_of s c \<noteq> Some THREAD_STATE_NEW \<and> tstate_of s c \<noteq> Some THREAD_STATE_READY)"

definition pcb_ok :: "kernel \<Rightarrow> bool" where
  "pcb_ok s \<longleftrightarrow> (\<forall>t c p. tcbs s t = Some c \<longrightarrow> tpcb c = Some p \<longrightarrow> pcbs s p \<noteq> None)"

definition queues_ok :: "kernel \<Rightarrow> bool" where
  "queues_ok s \<longleftrightarrow> boot_completed s \<and> sched_preempt s \<and> mem_ok s \<and> \<not> in_scheduling s \<and>
     idle_ok s \<and> ready_ok s \<and> zombie_ok s \<and> running_ok s \<and> pcb_ok s"

definition sched_inv :: "kernel \<Rightarrow> bool" where
  "sched_inv s \<longleftrightarrow> queues_ok s \<and> (\<exists>c. current_thread s = Some c \<and> tstate_of s c = Some THREAD_STATE_RUNNING)"

lemmas queue_defs = idle_ok_def ready_ok_def zombie_ok_def running_ok_def pcb_ok_def

lemma tstate_of_upd [tstate_simps]:
  "tstate_of (s\<lparr>tcbs := (tcbs s)(t \<mapsto> c)\<rparr>) u = (if u = t then Some (tstate c) else tstate_of s u)"
  by (simp add: tstate_of_def)

lemma tstate_of_frame [tstate_simps]:
  "tstate_of (s\<lparr>readyThreads := r\<rparr>) = tstate_of s" "tstate_of (s\<lparr>zombieThreads := r\<rparr>) = tstate_of s"
  "tstate_of (s\<lparr>current_thread := c\<rparr>) = tstate_of s" "tstate_of (s\<lparr>in_scheduling := b\<rparr>) = tstate_of s"
  "tstate_of (s\<lparr>in_interrupt := b\<rparr>) = tstate_of s" "tstate_of (s\<lparr>schedule_timer := n\<rparr>) = tstate_of s"
  "tstate_of (s\<lparr>pcbs := p\<rparr>) = tstate_of s" "tstate_of (s\<lparr>cur_pgtable := a\<rparr>) = tstate_of s"
  by (auto simp: tstate_of_def)

lemma upd_tcb_eq: "tcbs s t = Some c \<Longrightarrow> upd_tcb t f s = Some (s\<lparr>tcbs := (tcbs s)(t \<mapsto> f c)\<rparr>)"
  by (simp add: upd_tcb_def)

lemma ready_eq:
  assumes "tcbs s t = Some c" "mem_ok s"
  obtains c' where "ready t s = Some (s\<lparr>tcbs := (tcbs s)(t \<mapsto> c'), readyThreads := readyThreads s @ [t]\<rparr>)"
    "tstate c' = THREAD_STATE_READY" "tpcb c' = tpcb c"
proof -
  let ?c = "c\<lparr>tstate := THREAD_STATE_READY\<rparr>"
  let ?d = "?c\<lparr>last_prio_inc_time := clock s,
    current_prio := if current_prio c > prio c then current_prio c - 1 else current_prio c\<rparr>"
  show thesis
    by (rule that [of "if policy s = SCHED_POLICY_PRIO_DYN then ?d else ?c"])
      (use assms in \<open>auto simp: ready_def upd_tcb_def\<close>)
qed

subsection \<open>The choice\<close>

lemma pick_candidates:
  assumes "fold (better pr s) xs b = r"
  shows "(r = b \<or> (\<exists>t\<in>set xs. r = Some t)) \<and> (xs \<noteq> [] \<or> b \<noteq> None \<longrightarrow> r \<noteq> None)"
  using assms
proof (induction xs arbitrary: b)
  case (Cons x xs)
  have "better pr s x b = b \<or> better pr s x b = Some x" "better pr s x b \<noteq> None"
    by (auto simp: better_def split: option.splits)
  then show ?case using Cons.IH [of "better pr s x b"] Cons.prems by auto
qed simp

text \<open>A choice takes a ready thread out of the list, keeps the running one, or finds nothing.\<close>

definition choice :: "kernel \<Rightarrow> nat option \<Rightarrow> kernel \<Rightarrow> bool" where
  "choice s n s1 \<longleftrightarrow> (\<exists>T R. s1 = s\<lparr>tcbs := T, readyThreads := R\<rparr> \<and>
     (\<forall>t. map_option (\<lambda>c. (tstate c, tpcb c)) (T t) = map_option (\<lambda>c. (tstate c, tpcb c)) (tcbs s t)) \<and>
     ((\<exists>t. n = Some t \<and> t \<in> set (readyThreads s) \<and> R = remove1 t (readyThreads s)) \<or>
      (n = running_current s \<and> R = readyThreads s) \<or> (n = None \<and> R = readyThreads s)))"

lemma choiceI:
  assumes "s1 = s\<lparr>tcbs := T, readyThreads := R\<rparr>"
    "\<forall>t. map_option (\<lambda>c. (tstate c, tpcb c)) (T t) = map_option (\<lambda>c. (tstate c, tpcb c)) (tcbs s t)"
    "(\<exists>t. n = Some t \<and> t \<in> set (readyThreads s) \<and> R = remove1 t (readyThreads s)) \<or>
      (n = running_current s \<and> R = readyThreads s) \<or> (n = None \<and> R = readyThreads s)"
  shows "choice s n s1"
  using assms unfolding choice_def by blast

lemma remove_ready_eq:
  "ready_ok s \<Longrightarrow> t \<in> set (readyThreads s) \<Longrightarrow>
    remove_ready t s = Some (s\<lparr>readyThreads := remove1 t (readyThreads s)\<rparr>)"
  by (auto simp: remove_ready_def ready_ok_def tstate_of_def)

lemma take_picked_ok:
  assumes "ready_ok s" "n = pick pr s"
  shows "\<exists>R. take_picked n s = Some (n, s\<lparr>readyThreads := R\<rparr>) \<and>
    ((\<exists>t. n = Some t \<and> t \<in> set (readyThreads s) \<and> R = remove1 t (readyThreads s)) \<or>
     (n = running_current s \<and> R = readyThreads s))"
proof (cases "n = running_current s")
  case True
  then show ?thesis by (intro exI [of _ "readyThreads s"]) (simp add: take_picked_def)
next
  case False
  then obtain t where t: "n = Some t" "t \<in> set (readyThreads s)"
    using pick_candidates [of pr s "readyThreads s" "running_current s" n] assms(2) by (auto simp: pick_def)
  then show ?thesis using False remove_ready_eq [OF assms(1) t(2)]
    by (intro exI [of _ "remove1 t (readyThreads s)"]) (auto simp: take_picked_def)
qed

lemma age_info: "(tstate (age n c), tpcb (age n c)) = (tstate c, tpcb c)"
  by (simp add: age_def)

lemma age_ready_facts:
  "ready_ok s \<Longrightarrow> ready_ok (age_ready s)" "running_current (age_ready s) = running_current s"
  "readyThreads (age_ready s) = readyThreads s"
proof -
  have st: "tstate_of (age_ready s) = tstate_of s"
    by (rule ext) (auto simp: tstate_of_def age_ready_def option.map_comp comp_def age_def option.map_ident
        intro!: option.map_cong)
  show "readyThreads (age_ready s) = readyThreads s" by (simp add: age_ready_def)
  moreover have "current_thread (age_ready s) = current_thread s" by (simp add: age_ready_def)
  ultimately show "ready_ok s \<Longrightarrow> ready_ok (age_ready s)" "running_current (age_ready s) = running_current s"
    using st by (simp_all add: ready_ok_def running_current_def split: option.split)
qed

lemma next_thread_ok:
  assumes "ready_ok s"
  shows "\<exists>n s1. next_thread s = Some (n, s1) \<and> choice s n s1"
proof (cases "policy s")
  case SCHED_POLICY_RR
  show ?thesis
  proof (cases "find (eligible s) (readyThreads s)")
    case None
    have "choice s None s" by (rule choiceI [where T = "tcbs s" and R = "readyThreads s"]) simp_all
    then show ?thesis using None SCHED_POLICY_RR by (simp add: next_thread_def next_thread_rr_def)
  next
    case (Some t)
    then have t: "t \<in> set (readyThreads s)" by (auto simp: find_Some_iff)
    have "choice s (Some t) (s\<lparr>readyThreads := remove1 t (readyThreads s)\<rparr>)"
      by (rule choiceI [where T = "tcbs s" and R = "remove1 t (readyThreads s)"]) (use t in simp_all)
    then show ?thesis using Some SCHED_POLICY_RR remove_ready_eq [OF assms t]
      by (simp add: next_thread_def next_thread_rr_def)
  qed
next
  case SCHED_POLICY_PRIO
  obtain R where R: "take_picked (pick prio s) s = Some (pick prio s, s\<lparr>readyThreads := R\<rparr>)"
    "(\<exists>t. pick prio s = Some t \<and> t \<in> set (readyThreads s) \<and> R = remove1 t (readyThreads s)) \<or>
     (pick prio s = running_current s \<and> R = readyThreads s)"
    using take_picked_ok [OF assms refl] by blast
  have "choice s (pick prio s) (s\<lparr>readyThreads := R\<rparr>)"
    by (rule choiceI [where T = "tcbs s" and R = "R"]) (use R(2) in auto)
  then show ?thesis using R(1) SCHED_POLICY_PRIO by (simp add: next_thread_def next_thread_prio_def)
next
  case SCHED_POLICY_PRIO_DYN
  let ?s = "age_ready s"
  note a = age_ready_facts [of s]
  obtain R where R: "take_picked (pick current_prio ?s) ?s = Some (pick current_prio ?s, ?s\<lparr>readyThreads := R\<rparr>)"
    "(\<exists>t. pick current_prio ?s = Some t \<and> t \<in> set (readyThreads ?s) \<and> R = remove1 t (readyThreads ?s)) \<or>
     (pick current_prio ?s = running_current ?s \<and> R = readyThreads ?s)"
    using take_picked_ok [OF a(1) [OF assms] refl] by blast
  have "choice s (pick current_prio ?s) (?s\<lparr>readyThreads := R\<rparr>)"
    by (rule choiceI [where T = "tcbs ?s" and R = "R"])
      (use R(2) a in \<open>auto simp: age_ready_def option.map_comp comp_def age_def intro!: option.map_cong\<close>)
  then show ?thesis using R(1) SCHED_POLICY_PRIO_DYN
    by (simp add: next_thread_def next_thread_prio_dyn_def Let_def)
qed

subsection \<open>The switch\<close>

text \<open>A switch changes states of processes, but only between ready and running.\<close>

definition runnable :: "pcb \<Rightarrow> bool" where
  "runnable d \<longleftrightarrow> pstate d = PROC_STATE_READY \<or> pstate d = PROC_STATE_RUNNING"

definition pcbs_le :: "(nat \<Rightarrow> pcb option) \<Rightarrow> (nat \<Rightarrow> pcb option) \<Rightarrow> bool" where
  "pcbs_le P Q \<longleftrightarrow> dom Q = dom P \<and> (\<forall>p d. P p = Some d \<and> runnable d \<longrightarrow> (\<exists>e. Q p = Some e \<and> runnable e))"

lemma pcbs_le_refl [simp]: "pcbs_le P P"
  by (simp add: pcbs_le_def)

lemma pcbs_le_trans: "pcbs_le P Q \<Longrightarrow> pcbs_le Q R \<Longrightarrow> pcbs_le P R"
  unfolding pcbs_le_def by metis

lemma pcbs_le_upd: "P p = Some d \<Longrightarrow> (runnable d \<Longrightarrow> runnable e) \<Longrightarrow> pcbs_le P (P(p \<mapsto> e))"
  by (auto simp: pcbs_le_def)

lemma pcb_ok_iff: "pcb_ok s \<longleftrightarrow> (\<forall>t p. map_option tpcb (tcbs s t) = Some (Some p) \<longrightarrow> pcbs s p \<noteq> None)"
  by (auto simp: pcb_ok_def)

lemma switch_mm_ok:
  assumes "pcb_ok s" "tcbs s n \<noteq> None" "\<And>q. prev = Some q \<Longrightarrow> tcbs s q \<noteq> None"
  shows "\<exists>P a. switch_mm prev n s = Some (s\<lparr>pcbs := P, cur_pgtable := a\<rparr>) \<and> pcbs_le (pcbs s) P"
proof -
  obtain c where c: "tcbs s n = Some c" using assms(2) by blast
  show ?thesis
  proof (cases "tpcb c")
    case None
    then show ?thesis using c by (intro exI [of _ "pcbs s"] exI [of _ "cur_pgtable s"]) (simp add: switch_mm_def)
  next
    case (Some p)
    then obtain d where d: "pcbs s p = Some d" using assms(1) c unfolding pcb_ok_def by blast
    show ?thesis
    proof (cases "pgtable d = cur_pgtable s")
      case True
      then show ?thesis using c d Some
        by (intro exI [of _ "pcbs s"] exI [of _ "cur_pgtable s"]) (simp add: switch_mm_def)
    next
      case pg: False
      let ?P = "(pcbs s)(p \<mapsto> d\<lparr>pstate := PROC_STATE_RUNNING\<rparr>)"
      have dom: "pcbs_le (pcbs s) ?P" by (rule pcbs_le_upd [of _ p d]) (simp_all add: d runnable_def)
      consider "prev = None" | q cq where "prev = Some q" "tcbs s q = Some cq" "tpcb cq = None"
        | q cq pq where "prev = Some q" "tcbs s q = Some cq" "tpcb cq = Some pq"
        using assms(3) by (cases prev) (auto, metis option.exhaust)
      then show ?thesis
      proof cases
        case 1
        then show ?thesis using pg c d Some dom
          by (intro exI [of _ ?P] exI [of _ "pgtable d"]) (simp add: switch_mm_def upd_pcb_def)
      next
        case 2
        then show ?thesis using pg c d Some dom
          by (intro exI [of _ ?P] exI [of _ "pgtable d"]) (simp add: switch_mm_def upd_pcb_def)
      next
        case 3
        then obtain dq where dq: "?P pq = Some dq" using assms(1) dom unfolding pcb_ok_def pcbs_le_def by blast
        let ?Q = "?P(pq \<mapsto> if pstate dq \<noteq> PROC_STATE_ZOMBIE \<and> pstate dq \<noteq> PROC_STATE_WAITING
                       then dq\<lparr>pstate := PROC_STATE_READY\<rparr> else dq)"
        have "pcbs_le (pcbs s) ?Q"
          by (rule pcbs_le_trans [OF dom], rule pcbs_le_upd [of _ pq dq]) (use dq in \<open>simp_all add: runnable_def\<close>)
        then show ?thesis using pg c d Some 3 dq
          by (intro exI [of _ ?Q] exI [of _ "pgtable d"]) (simp add: switch_mm_def upd_pcb_def)
      qed
    qed
  qed
qed

definition put_back :: "nat option \<Rightarrow> kernel \<Rightarrow> nat list" where
  "put_back prev s = (case prev of None \<Rightarrow> []
     | Some q \<Rightarrow> if tstate_of s q = Some THREAD_STATE_RUNNING \<and> tcb_idle s \<noteq> Some q then [q] else [])"

lemma put_back_ok:
  assumes "mem_ok s" "\<forall>q. prev = Some q \<longrightarrow> tcbs s q \<noteq> None"
  shows "\<exists>T. (case prev of None \<Rightarrow> Some s
      | Some q \<Rightarrow> if tstate_of s q = Some THREAD_STATE_RUNNING \<and> tcb_idle s \<noteq> Some q then ready q s else Some s)
      = Some (s\<lparr>tcbs := T, readyThreads := readyThreads s @ put_back prev s\<rparr>) \<and>
    (\<forall>u. map_option tstate (T u) = (if u \<in> set (put_back prev s) then Some THREAD_STATE_READY else tstate_of s u)) \<and>
    (\<forall>u. map_option tpcb (T u) = map_option tpcb (tcbs s u))"
proof (cases "\<exists>q. prev = Some q \<and> tstate_of s q = Some THREAD_STATE_RUNNING \<and> tcb_idle s \<noteq> Some q")
  case False
  then have "put_back prev s = []" by (cases prev) (simp_all add: put_back_def)
  moreover have "(case prev of None \<Rightarrow> Some s
      | Some q \<Rightarrow> if tstate_of s q = Some THREAD_STATE_RUNNING \<and> tcb_idle s \<noteq> Some q then ready q s else Some s) = Some s"
    using False by (cases prev) auto
  ultimately show ?thesis by (intro exI [of _ "tcbs s"]) (simp add: tstate_of_def)
next
  case True
  then obtain q where q: "prev = Some q" "tstate_of s q = Some THREAD_STATE_RUNNING" "tcb_idle s \<noteq> Some q" by blast
  obtain c where c: "tcbs s q = Some c" using assms(2) q(1) by blast
  obtain c' where "ready q s = Some (s\<lparr>tcbs := (tcbs s)(q \<mapsto> c'), readyThreads := readyThreads s @ [q]\<rparr>)"
    "tstate c' = THREAD_STATE_READY" "tpcb c' = tpcb c"
    using ready_eq [OF c assms(1)] by metis
  moreover have "put_back prev s = [q]" using q by (simp add: put_back_def)
  ultimately show ?thesis using q c by (intro exI [of _ "(tcbs s)(q \<mapsto> c')"]) (simp add: tstate_of_def)
qed

lemma switch_thread_ok:
  assumes "pcb_ok s" "mem_ok s" "tcbs s n \<noteq> None" "\<forall>q. prev = Some q \<longrightarrow> tcbs s q \<noteq> None" "prev \<noteq> Some n"
  shows "\<exists>T P a. switch_thread prev n s = Some (s\<lparr>readyThreads := readyThreads s @ put_back prev s, tcbs := T,
      current_thread := Some n, pcbs := P, cur_pgtable := a\<rparr>) \<and> pcbs_le (pcbs s) P \<and>
    (\<forall>u. map_option tstate (T u) = (if u = n then Some THREAD_STATE_RUNNING
       else if u \<in> set (put_back prev s) then Some THREAD_STATE_READY else tstate_of s u)) \<and>
    (\<forall>u. map_option tpcb (T u) = map_option tpcb (tcbs s u))"
proof -
  obtain T where m: "(case prev of None \<Rightarrow> Some s
      | Some q \<Rightarrow> if tstate_of s q = Some THREAD_STATE_RUNNING \<and> tcb_idle s \<noteq> Some q then ready q s else Some s)
      = Some (s\<lparr>tcbs := T, readyThreads := readyThreads s @ put_back prev s\<rparr>)"
    and T1: "\<forall>u. map_option tstate (T u) = (if u \<in> set (put_back prev s) then Some THREAD_STATE_READY else tstate_of s u)"
    and T2: "\<forall>u. map_option tpcb (T u) = map_option tpcb (tcbs s u)"
    using put_back_ok [OF assms(2,4)] by (elim exE conjE) (rule that)
  note T = T1 [rule_format] T2 [rule_format]
  have Tn: "T n \<noteq> None" using T(2) assms(3) by (metis option.map_disc_iff)
  then obtain c where c: "T n = Some c" by (cases "T n") simp_all
  let ?c = "c\<lparr>tstate := THREAD_STATE_RUNNING\<rparr>"
  let ?s = "s\<lparr>readyThreads := readyThreads s @ put_back prev s, tcbs := T(n \<mapsto> ?c), current_thread := Some n\<rparr>"
  have "tcbs s u \<noteq> None \<Longrightarrow> T u \<noteq> None" for u using T(2) by (metis option.map_disc_iff)
  moreover have "pcb_ok ?s"
    unfolding pcb_ok_iff
  proof (intro allI impI)
    fix u p assume "map_option tpcb (tcbs ?s u) = Some (Some p)"
    then have "map_option tpcb (T u) = Some (Some p)" using c by (simp split: if_splits)
    then show "pcbs ?s p \<noteq> None" using assms(1) T(2) [of u] by (simp only: pcb_ok_iff) simp
  qed
  moreover have "tcbs ?s n \<noteq> None" by simp
  moreover have "tcbs ?s q \<noteq> None" if "prev = Some q" for q
    using assms(4) that T(2) [of q] c by (auto simp: map_option_eq_Some dest: sym)
  ultimately obtain P a where P: "switch_mm prev n ?s = Some (?s\<lparr>pcbs := P, cur_pgtable := a\<rparr>)" "pcbs_le (pcbs s) P"
    using switch_mm_ok [of ?s n prev] by force
  have "switch_thread prev n s = Some (?s\<lparr>pcbs := P, cur_pgtable := a\<rparr>)"
    unfolding switch_thread_def m using P(1) c by (simp add: upd_tcb_def)
  then show ?thesis using T [of n] T P(2) c
    by (intro exI [of _ "T(n \<mapsto> ?c)"] exI [of _ P] exI [of _ a]) auto
qed

subsection \<open>What one scheduling step does\<close>

text \<open>
  \<open>scheduled s n s'\<close>: the step either keeps the running thread \<open>n\<close>, or gives the processor to
  \<open>n\<close>, a ready thread or the idle one, and puts the preempted thread at the end of the list.
\<close>

definition frame_kept :: "kernel \<Rightarrow> kernel \<Rightarrow> bool" where
  "frame_kept s s' \<longleftrightarrow> boot_completed s' = boot_completed s \<and> sched_preempt s' = sched_preempt s \<and>
     mem_ok s' = mem_ok s \<and> tcb_idle s' = tcb_idle s \<and> zombieThreads s' = zombieThreads s \<and>
     policy s' = policy s \<and> clock s' = clock s \<and> \<not> in_scheduling s' \<and> pcbs_le (pcbs s) (pcbs s') \<and>
     (\<forall>u. map_option tpcb (tcbs s' u) = map_option tpcb (tcbs s u))"

definition elected :: "kernel \<Rightarrow> nat \<Rightarrow> nat list \<Rightarrow> bool" where
  "elected s n R \<longleftrightarrow> n \<in> set (readyThreads s) \<and> R = remove1 n (readyThreads s) \<or>
     tcb_idle s = Some n \<and> R = readyThreads s \<and> running_current s = None"

definition scheduled :: "kernel \<Rightarrow> nat \<Rightarrow> kernel \<Rightarrow> bool" where
  "scheduled s n s' \<longleftrightarrow> current_thread s' = Some n \<and> frame_kept s s' \<and>
     (running_current s = Some n \<and> tstate_of s' = tstate_of s \<and> readyThreads s' = readyThreads s \<or>
      current_thread s \<noteq> Some n \<and>
      (\<exists>R. elected s n R \<and> readyThreads s' = R @ put_back (current_thread s) s) \<and>
      tstate_of s' = (\<lambda>u. if u = n then Some THREAD_STATE_RUNNING
        else if u \<in> set (put_back (current_thread s) s) then Some THREAD_STATE_READY else tstate_of s u))"

lemma tstate_of_cong: "tcbs s = tcbs s' \<Longrightarrow> tstate_of s = tstate_of s'"
  by (simp add: tstate_of_def fun_eq_iff)

lemma running_current_cong:
  "tstate_of s = tstate_of s' \<Longrightarrow> current_thread s = current_thread s' \<Longrightarrow> running_current s = running_current s'"
  by (simp add: running_current_def split: option.split)

lemma put_back_cong:
  "tstate_of s = tstate_of s' \<Longrightarrow> tcb_idle s = tcb_idle s' \<Longrightarrow> put_back p s = put_back p s'"
  by (simp add: put_back_def split: option.split)

lemma ready_ok_cong:
  "tstate_of s = tstate_of s' \<Longrightarrow> readyThreads s = readyThreads s' \<Longrightarrow> ready_ok s = ready_ok s'"
  by (simp add: ready_ok_def)

lemma running_current_Some:
  "running_current s = Some t \<longleftrightarrow> current_thread s = Some t \<and> tstate_of s t = Some THREAD_STATE_RUNNING"
  by (auto simp: running_current_def split: option.splits if_splits)

lemma choice_tinfo:
  assumes "choice s n s1"
  shows "tstate_of s1 = tstate_of s" "map_option tpcb (tcbs s1 u) = map_option tpcb (tcbs s u)"
proof -
  have e: "map_option (\<lambda>c. (tstate c, tpcb c)) (tcbs s1 u) = map_option (\<lambda>c. (tstate c, tpcb c)) (tcbs s u)" for u
    using assms by (auto simp: choice_def)
  have "map_option fst (map_option (\<lambda>c. (tstate c, tpcb c)) (tcbs s1 u)) =
      map_option fst (map_option (\<lambda>c. (tstate c, tpcb c)) (tcbs s u))" for u
    using e by simp
  then show "tstate_of s1 = tstate_of s" by (simp add: tstate_of_def option.map_comp comp_def fun_eq_iff)
  have "map_option snd (map_option (\<lambda>c. (tstate c, tpcb c)) (tcbs s1 u)) =
      map_option snd (map_option (\<lambda>c. (tstate c, tpcb c)) (tcbs s u))"
    using e by simp
  then show "map_option tpcb (tcbs s1 u) = map_option tpcb (tcbs s u)" by (simp add: option.map_comp comp_def)
qed

lemma tcbs_tstate_of: "tcbs s t \<noteq> None \<longleftrightarrow> tstate_of s t \<noteq> None"
  by (simp add: tstate_of_def)

text \<open>The thread a step gives the processor to, from the choice of the policy.\<close>

lemma chosen_elected:
  assumes q: "queues_ok s" and c: "choice (s\<lparr>in_scheduling := True\<rparr>) n s1"
  defines "x \<equiv> if n = None \<and> running_current s = None then tcb_idle s else n"
  shows "(x = None \<or> x = current_thread s) \<and> running_current s \<noteq> None \<and> readyThreads s1 = readyThreads s \<or>
    (\<exists>m. x = Some m \<and> current_thread s \<noteq> Some m \<and> elected s m (readyThreads s1))"
proof -
  have rc: "running_current (s\<lparr>in_scheduling := True\<rparr>) = running_current s"
    by (rule running_current_cong) (simp_all add: tstate_simps)
  have rd: "tstate_of s t = Some THREAD_STATE_READY" if "t \<in> set (readyThreads s)" for t
    using q that by (simp add: queues_ok_def ready_ok_def)
  have cur: "current_thread s \<noteq> Some t" if "tstate_of s t = Some THREAD_STATE_READY" for t
    using q that by (auto simp: queues_ok_def running_ok_def)
  obtain i where i: "tcb_idle s = Some i"
    "tstate_of s i = Some THREAD_STATE_NEW \<or> tstate_of s i = Some THREAD_STATE_RUNNING"
    using q by (auto simp: queues_ok_def idle_ok_def)
  have icur: "current_thread s \<noteq> Some i" if "running_current s = None"
    using q i(2) that by (auto simp: queues_ok_def running_ok_def running_current_def)
  consider t where "n = Some t" "t \<in> set (readyThreads s)" "readyThreads s1 = remove1 t (readyThreads s)"
    | "n = running_current s" "n \<noteq> None" "readyThreads s1 = readyThreads s" | "n = None" "readyThreads s1 = readyThreads s"
    using c rc by (cases "running_current s") (auto simp: choice_def)
  then show ?thesis
  proof cases
    case (1 t)
    then show ?thesis using rd cur by (auto simp: x_def elected_def)
  next
    case 2
    then obtain y where "running_current s = Some y" "n = Some y" by force
    moreover from this have "current_thread s = Some y" by (simp add: running_current_Some)
    ultimately show ?thesis using 2(3) by (simp add: x_def)
  next
    case 3
    then show ?thesis using i(1) icur by (auto simp: x_def elected_def)
  qed
qed

definition policy_choice :: "kernel \<Rightarrow> nat \<Rightarrow> bool" where
  "policy_choice s n \<longleftrightarrow> (\<forall>t s1. next_thread (s\<lparr>in_scheduling := True\<rparr>) = Some (Some t, s1) \<longrightarrow> n = t)"

lemma schedule_policy_spec:
  assumes q: "queues_ok s"
  shows "\<exists>s' n. schedule s = Some s' \<and> scheduled s n s' \<and> policy_choice s n"
proof -
  let ?s = "s\<lparr>in_scheduling := True\<rparr>"
  have qd: "boot_completed s" "sched_preempt s" "mem_ok s" "\<not> in_scheduling s" "idle_ok s" "ready_ok s"
    "running_ok s" "pcb_ok s"
    using q by (simp_all add: queues_ok_def)
  have "ready_ok ?s" using qd(6) by (subst ready_ok_cong [of _ s]) (simp_all add: tstate_simps)
  then obtain n s1 where n: "next_thread ?s = Some (n, s1)" and c: "choice ?s n s1"
    using next_thread_ok by blast
  let ?s2 = "s1\<lparr>schedule_timer := clock s1 + MILLISECS SCHEDULE_FREQ\<rparr>"
  obtain T R where s1: "s1 = ?s\<lparr>tcbs := T, readyThreads := R\<rparr>" using c by (auto simp: choice_def)
  have st: "tstate_of ?s2 = tstate_of s" using choice_tinfo(1) [OF c] by (simp add: tstate_simps)
  have tp: "map_option tpcb (tcbs ?s2 u) = map_option tpcb (tcbs s u)" for u
    using choice_tinfo(2) [OF c] by simp
  have rc: "running_current ?s2 = running_current s"
    by (rule running_current_cong [OF st]) (simp add: s1)
  have pb: "put_back p ?s2 = put_back p s" for p by (rule put_back_cong [OF st]) (simp add: s1)
  let ?x = "if n = None \<and> running_current s = None then tcb_idle s else n"
  let ?k = "case ?x of None \<Rightarrow> Some ?s2
          | Some m \<Rightarrow> if ?x \<noteq> current_thread s then switch_thread (current_thread s) m ?s2 else Some ?s2"
  have sch: "schedule s = do { s3 \<leftarrow> ?k; Some (s3\<lparr>in_scheduling := False, in_interrupt := False\<rparr>) }"
    unfolding schedule_def using qd n rc s1 by (auto simp: Let_def idle_ok_def)
  consider "?x = None \<or> ?x = current_thread s" "running_current s \<noteq> None" "readyThreads s1 = readyThreads s"
    | m where "?x = Some m" "current_thread s \<noteq> Some m" "elected s m (readyThreads s1)"
    using chosen_elected [OF q c] by blast
  then show ?thesis
  proof cases
    case a: 1
    have "?k = Some ?s2" using a(1) by (auto split: option.splits)
    then have sched: "schedule s = Some (?s2\<lparr>in_scheduling := False, in_interrupt := False\<rparr>)" unfolding sch by simp
    obtain m where m: "running_current s = Some m" using a(2) by blast
    have fk: "frame_kept s (?s2\<lparr>in_scheduling := False, in_interrupt := False\<rparr>)"
      using tp by (simp add: frame_kept_def s1)
    have "scheduled s m (?s2\<lparr>in_scheduling := False, in_interrupt := False\<rparr>)"
      unfolding scheduled_def using fk m st a(3) by (simp add: s1 running_current_Some tstate_of_def fun_eq_iff)
    moreover have "policy_choice s m"
      using n m a(1) by (auto simp: policy_choice_def running_current_Some)
    ultimately show ?thesis using sched by blast
  next
    case m: (2 m)
    have k: "?k = switch_thread (current_thread s) m ?s2" using m(1,2) by simp
    have "tstate_of s m \<noteq> None"
      using m(3) qd(5,6) by (auto simp: elected_def ready_ok_def idle_ok_def)
    then have tm: "tcbs ?s2 m \<noteq> None" using st by (simp only: tcbs_tstate_of) simp
    have tc: "\<forall>p. current_thread s = Some p \<longrightarrow> tcbs ?s2 p \<noteq> None"
      using qd(7) st unfolding tcbs_tstate_of running_ok_def by simp
    have po: "pcb_ok ?s2" using qd(8) tp by (simp only: pcb_ok_iff) (simp add: s1)
    have "mem_ok ?s2" using qd(3) by (simp add: s1)
    from switch_thread_ok [OF po this tm tc m(2)] obtain T' P a where
      w: "switch_thread (current_thread s) m ?s2 = Some (?s2\<lparr>readyThreads := readyThreads ?s2 @ put_back (current_thread s) ?s2,
        tcbs := T', current_thread := Some m, pcbs := P, cur_pgtable := a\<rparr>)" "pcbs_le (pcbs ?s2) P"
      and T': "\<forall>u. map_option tstate (T' u) = (if u = m then Some THREAD_STATE_RUNNING
        else if u \<in> set (put_back (current_thread s) ?s2) then Some THREAD_STATE_READY else tstate_of ?s2 u)"
        "\<forall>u. map_option tpcb (T' u) = map_option tpcb (tcbs ?s2 u)"
      by (elim exE conjE) (rule that)
    let ?s' = "?s2\<lparr>readyThreads := readyThreads ?s2 @ put_back (current_thread s) ?s2,
        tcbs := T', current_thread := Some m, pcbs := P, cur_pgtable := a,
        in_scheduling := False, in_interrupt := False\<rparr>"
    have sched: "schedule s = Some ?s'" unfolding sch k w(1) by simp
    have fk: "frame_kept s ?s'" using w(2) T'(2) tp by (simp add: frame_kept_def s1)
    have "tstate_of ?s' = (\<lambda>u. if u = m then Some THREAD_STATE_RUNNING
        else if u \<in> set (put_back (current_thread s) s) then Some THREAD_STATE_READY else tstate_of s u)"
      using T'(1) st pb by (simp add: tstate_of_def fun_eq_iff)
    then have "scheduled s m ?s'" unfolding scheduled_def using fk m(2,3) pb by auto
    moreover have "policy_choice s m" using n m(1) by (auto simp: policy_choice_def)
    ultimately show ?thesis using sched by blast
  qed
qed

lemma schedule_spec:
  "queues_ok s \<Longrightarrow> \<exists>s' n. schedule s = Some s' \<and> scheduled s n s'"
  using schedule_policy_spec by blast

subsection \<open>The invariant is kept\<close>

lemma elected_facts:
  assumes "queues_ok s" "elected s n R"
  shows "distinct R" "tstate_of s n \<noteq> Some THREAD_STATE_ZOMBIE" "tstate_of s n \<noteq> Some THREAD_STATE_WAITING"
    "tstate_of s n \<noteq> None" "t \<in> set R \<longleftrightarrow> t \<noteq> n \<and> tstate_of s t = Some THREAD_STATE_READY"
proof -
  have d: "distinct (readyThreads s)" and r: "\<And>t. t \<in> set (readyThreads s) \<longleftrightarrow> tstate_of s t = Some THREAD_STATE_READY"
    using assms(1) by (simp_all add: queues_ok_def ready_ok_def)
  have i: "tstate_of s n = Some THREAD_STATE_NEW \<or> tstate_of s n = Some THREAD_STATE_RUNNING" if "tcb_idle s = Some n"
    using assms(1) that by (auto simp: queues_ok_def idle_ok_def)
  consider "tstate_of s n = Some THREAD_STATE_READY" "R = remove1 n (readyThreads s)"
    | "tstate_of s n = Some THREAD_STATE_NEW \<or> tstate_of s n = Some THREAD_STATE_RUNNING" "R = readyThreads s"
    using assms(2) i r unfolding elected_def by blast
  then have "distinct R \<and> tstate_of s n \<noteq> Some THREAD_STATE_ZOMBIE \<and> tstate_of s n \<noteq> Some THREAD_STATE_WAITING \<and>
    tstate_of s n \<noteq> None \<and> (t \<in> set R \<longleftrightarrow> t \<noteq> n \<and> tstate_of s t = Some THREAD_STATE_READY)"
    by cases (use d in \<open>auto simp: set_remove1_eq r\<close>)
  then show "distinct R" "tstate_of s n \<noteq> Some THREAD_STATE_ZOMBIE" "tstate_of s n \<noteq> Some THREAD_STATE_WAITING"
    "tstate_of s n \<noteq> None" "t \<in> set R \<longleftrightarrow> t \<noteq> n \<and> tstate_of s t = Some THREAD_STATE_READY" by blast+
qed

lemma put_back_set:
  "t \<in> set (put_back p s) \<longleftrightarrow> p = Some t \<and> tstate_of s t = Some THREAD_STATE_RUNNING \<and> tcb_idle s \<noteq> Some t"
  "distinct (put_back p s)"
  by (auto simp: put_back_def split: option.splits)

lemma scheduled_states:
  assumes q: "queues_ok s" and s: "scheduled s n s'"
  shows "tstate_of s' n = Some THREAD_STATE_RUNNING"
    "tstate_of s' t = Some THREAD_STATE_WAITING \<longleftrightarrow> tstate_of s t = Some THREAD_STATE_WAITING"
    "tstate_of s' t = Some THREAD_STATE_ZOMBIE \<longleftrightarrow> tstate_of s t = Some THREAD_STATE_ZOMBIE"
    "tstate_of s' t = None \<longleftrightarrow> tstate_of s t = None"
  using s unfolding scheduled_def
  by (auto simp: running_current_Some put_back_set split: if_splits dest: elected_facts(2-4) [OF q])

lemma scheduled_ready_ok:
  assumes q: "queues_ok s" and s: "scheduled s n s'"
  shows "ready_ok s'"
  using s unfolding scheduled_def
proof (elim conjE disjE exE)
  assume "running_current s = Some n" "tstate_of s' = tstate_of s" "readyThreads s' = readyThreads s"
  then show ?thesis using q ready_ok_cong [of s' s] by (simp add: queues_ok_def)
next
  fix R assume n: "current_thread s \<noteq> Some n" and R: "elected s n R" "readyThreads s' = R @ put_back (current_thread s) s"
    and st: "tstate_of s' = (\<lambda>u. if u = n then Some THREAD_STATE_RUNNING
        else if u \<in> set (put_back (current_thread s) s) then Some THREAD_STATE_READY else tstate_of s u)"
  note e = elected_facts [OF q R(1)]
  have "set R \<inter> set (put_back (current_thread s) s) = {}" by (auto simp: e(5) put_back_set)
  moreover have "t \<in> set (readyThreads s') \<longleftrightarrow> tstate_of s' t = Some THREAD_STATE_READY" for t
    using n by (auto simp: R(2) st e(5) put_back_set)
  ultimately show ?thesis using e(1) by (simp add: ready_ok_def R(2) put_back_set(2))
qed

lemma scheduled_running_ok:
  assumes q: "queues_ok s" and s: "scheduled s n s'"
  shows "running_ok s'"
proof -
  have r: "running_ok s" using q by (simp add: queues_ok_def)
  have f: "tcb_idle s' = tcb_idle s" "current_thread s' = Some n" using s by (auto simp: scheduled_def frame_kept_def)
  have "t = n \<or> tcb_idle s = Some t" if "tstate_of s' t = Some THREAD_STATE_RUNNING" for t
    using s r that unfolding scheduled_def running_ok_def
    by (auto simp: running_current_Some put_back_set split: if_splits)
  then show ?thesis using scheduled_states(1) [OF q s] f by (auto simp: running_ok_def)
qed

lemma scheduled_idle_ok:
  assumes q: "queues_ok s" and s: "scheduled s n s'"
  shows "idle_ok s'"
proof -
  obtain i where i: "tcb_idle s = Some i" "tstate_of s i = Some THREAD_STATE_NEW \<or> tstate_of s i = Some THREAD_STATE_RUNNING"
    using q by (auto simp: queues_ok_def idle_ok_def)
  have "i \<notin> set (put_back (current_thread s) s)" using i(1) by (simp add: put_back_set)
  moreover have "tcb_idle s' = Some i" using s i(1) by (simp add: scheduled_def frame_kept_def)
  ultimately show ?thesis using s i(2) by (auto simp: scheduled_def idle_ok_def split: if_splits)
qed

lemma scheduled_inv:
  assumes q: "queues_ok s" and s: "scheduled s n s'"
  shows "sched_inv s'"
proof -
  have f: "frame_kept s s'" "current_thread s' = Some n" using s by (simp_all add: scheduled_def)
  have "zombie_ok s'"
    using q f(1) scheduled_states(3) [OF q s] by (simp add: queues_ok_def zombie_ok_def frame_kept_def)
  moreover have "pcb_ok s'"
    using q f(1) by (simp only: queues_ok_def pcb_ok_iff frame_kept_def pcbs_le_def domIff [symmetric] simp_thms) blast
  ultimately show ?thesis
    using q f scheduled_ready_ok [OF q s] scheduled_running_ok [OF q s] scheduled_idle_ok [OF q s]
      scheduled_states(1) [OF q s]
    by (simp add: sched_inv_def queues_ok_def frame_kept_def)
qed

subsection \<open>Blocking and waking\<close>

definition sleeping :: "kernel \<Rightarrow> nat set" where
  "sleeping s = {t. tstate_of s t = Some THREAD_STATE_WAITING}"

definition not_idle :: "kernel \<Rightarrow> nat \<Rightarrow> bool" where
  "not_idle s t \<longleftrightarrow> tcb_idle s \<noteq> Some t"

lemma sched_inv_current:
  assumes "sched_inv s"
  obtains c where "current_thread s = Some c" "tstate_of s c = Some THREAD_STATE_RUNNING"
  using assms by (auto simp: sched_inv_def)

lemma queues_ok_upd:
  assumes "queues_ok s" "tcbs s t = Some c" "tpcb d = tpcb c"
    "tstate_of s t = Some THREAD_STATE_RUNNING" "tcb_idle s \<noteq> Some t"
    "tstate d = THREAD_STATE_WAITING \<and> Z = zombieThreads s \<or>
      tstate d = THREAD_STATE_ZOMBIE \<and> Z = zombieThreads s @ [t]"
  shows "queues_ok (s\<lparr>tcbs := (tcbs s)(t \<mapsto> d), zombieThreads := Z\<rparr>)" (is "queues_ok ?s")
proof -
  have st: "tstate_of ?s u = (if u = t then Some (tstate d) else tstate_of s u)" for u
    by (simp add: tstate_of_def)
  have z: "zombie_ok s" and r: "ready_ok s" using assms(1) by (simp_all add: queues_ok_def)
  have tz: "t \<notin> set (zombieThreads s)" and tr: "t \<notin> set (readyThreads s)"
    using z r assms(4) by (simp_all add: zombie_ok_def ready_ok_def)
  have zs: "u \<in> set (zombieThreads s) \<longleftrightarrow> tstate_of s u = Some THREAD_STATE_ZOMBIE"
    and rs: "u \<in> set (readyThreads s) \<longleftrightarrow> tstate_of s u = Some THREAD_STATE_READY" for u
    using z r by (simp_all add: zombie_ok_def ready_ok_def)
  have dz: "distinct (zombieThreads s)" "distinct (readyThreads s)"
    using z r by (simp_all add: zombie_ok_def ready_ok_def)
  have "u \<in> set Z \<longleftrightarrow> tstate_of ?s u = Some THREAD_STATE_ZOMBIE" for u
    using assms(6) zs [of u] tz by (cases "u = t") (auto simp: st)
  moreover have "distinct Z" using assms(6) tz dz by auto
  ultimately have "zombie_ok ?s" by (simp add: zombie_ok_def)
  moreover have "u \<in> set (readyThreads s) \<longleftrightarrow> tstate_of ?s u = Some THREAD_STATE_READY" for u
    using assms(6) rs [of u] tr by (cases "u = t") (auto simp: st)
  then have "ready_ok ?s" using dz(2) by (simp add: ready_ok_def)
  moreover have "pcb_ok ?s" using assms(1-3) by (auto simp: pcb_ok_def queues_ok_def)
  moreover have "idle_ok ?s" using assms(1,5) by (auto simp: idle_ok_def queues_ok_def st)
  moreover have "running_ok ?s" using assms(1,6) by (auto simp: running_ok_def queues_ok_def st)
  ultimately show ?thesis using assms(1) by (simp add: queues_ok_def)
qed

lemma waiting_ok:
  assumes inv: "sched_inv s" and c: "current_thread s = Some c" "tcb_idle s \<noteq> Some c"
  shows "\<exists>s'. waiting s = Some s' \<and> sched_inv s' \<and> sleeping s' = insert c (sleeping s) \<and>
    zombieThreads s' = zombieThreads s"
proof -
  have r: "tstate_of s c = Some THREAD_STATE_RUNNING" using inv c(1) by (auto elim: sched_inv_current)
  then obtain d where d: "tcbs s c = Some d" by (auto simp: tstate_of_def)
  let ?s = "s\<lparr>tcbs := (tcbs s)(c \<mapsto> d\<lparr>tstate := THREAD_STATE_WAITING\<rparr>)\<rparr>"
  have q: "queues_ok ?s"
    using queues_ok_upd [of s c d "d\<lparr>tstate := THREAD_STATE_WAITING\<rparr>" "zombieThreads s"] inv d r c(2)
    by (simp add: sched_inv_def)
  obtain s' n where s': "schedule ?s = Some s'" "scheduled ?s n s'" using schedule_spec [OF q] by blast
  have "sleeping s' = sleeping ?s" using scheduled_states(2) [OF q s'(2)] by (simp add: sleeping_def)
  moreover have "sleeping ?s = insert c (sleeping s)" by (auto simp: sleeping_def tstate_simps)
  moreover have "zombieThreads s' = zombieThreads s" using s'(2) by (simp add: scheduled_def frame_kept_def)
  ultimately show ?thesis using s'(1) c(1) r d scheduled_inv [OF q s'(2)]
    by (simp add: waiting_def upd_tcb_def)
qed

lemma zombie_step_ok:
  assumes inv: "sched_inv s" and c: "current_thread s = Some c" "tcb_idle s \<noteq> Some c"
  shows "\<exists>s'. zombie s = Some s' \<and> sched_inv s' \<and> zombieThreads s' = zombieThreads s @ [c] \<and>
    tstate_of s' c = Some THREAD_STATE_ZOMBIE \<and> sleeping s' = sleeping s"
proof -
  have r: "tstate_of s c = Some THREAD_STATE_RUNNING" using inv c(1) by (auto elim: sched_inv_current)
  then obtain d where d: "tcbs s c = Some d" by (auto simp: tstate_of_def)
  let ?s = "s\<lparr>tcbs := (tcbs s)(c \<mapsto> d\<lparr>tstate := THREAD_STATE_ZOMBIE\<rparr>), zombieThreads := zombieThreads s @ [c]\<rparr>"
  have q: "queues_ok ?s"
    using queues_ok_upd [of s c d "d\<lparr>tstate := THREAD_STATE_ZOMBIE\<rparr>" "zombieThreads s @ [c]"] inv d r c(2)
    by (simp add: sched_inv_def)
  obtain s' n where s': "schedule ?s = Some s'" "scheduled ?s n s'" using schedule_spec [OF q] by blast
  note st = scheduled_states(2,3) [OF q s'(2)]
  have "tstate_of ?s c = Some THREAD_STATE_ZOMBIE" by (simp add: tstate_of_def)
  then have "tstate_of s' c = Some THREAD_STATE_ZOMBIE" using st(2) by blast
  moreover have "sleeping s' = sleeping s" using st(1) r by (auto simp: sleeping_def tstate_of_def)
  moreover have "zombieThreads s' = zombieThreads s @ [c]" using s'(2) by (simp add: scheduled_def frame_kept_def)
  moreover have "mem_ok s" using inv by (simp add: sched_inv_def queues_ok_def)
  ultimately show ?thesis using s'(1) c(1) r d scheduled_inv [OF q s'(2)]
    by (simp add: zombie_def upd_tcb_def)
qed

lemma ready_ok_step:
  assumes inv: "sched_inv s" and t: "t \<in> sleeping s"
  shows "\<exists>s'. ready t s = Some s' \<and> sched_inv s' \<and> sleeping s' = sleeping s - {t} \<and>
    current_thread s' = current_thread s \<and> readyThreads s' = readyThreads s @ [t]"
proof -
  have w: "tstate_of s t = Some THREAD_STATE_WAITING" using t by (simp add: sleeping_def)
  then obtain c where c: "tcbs s t = Some c" by (auto simp: tstate_of_def)
  have q: "queues_ok s" and "mem_ok s" using inv by (simp_all add: sched_inv_def queues_ok_def)
  then obtain c' where s': "ready t s = Some (s\<lparr>tcbs := (tcbs s)(t \<mapsto> c'), readyThreads := readyThreads s @ [t]\<rparr>)"
    (is "_ = Some ?s") "tstate c' = THREAD_STATE_READY" "tpcb c' = tpcb c"
    using ready_eq [OF c] by metis
  have st: "tstate_of ?s u = (if u = t then Some THREAD_STATE_READY else tstate_of s u)" for u
    using s'(2) by (simp add: tstate_of_def)
  have r: "ready_ok s" using q by (simp add: queues_ok_def)
  then have "t \<notin> set (readyThreads s)" using w by (simp add: ready_ok_def)
  then have "ready_ok ?s" using r by (auto simp: ready_ok_def st)
  moreover have "pcb_ok ?s" using q c s'(3) by (auto simp: pcb_ok_def queues_ok_def)
  moreover have "zombie_ok ?s" using q w by (auto simp: zombie_ok_def queues_ok_def st)
  moreover obtain i where i: "tcb_idle s = Some i"
    "tstate_of s i = Some THREAD_STATE_NEW \<or> tstate_of s i = Some THREAD_STATE_RUNNING"
    using q by (auto simp: idle_ok_def queues_ok_def)
  then have "i \<noteq> t" using w by auto
  then have "idle_ok ?s" using i by (simp add: idle_ok_def st)
  moreover have "running_ok ?s" using inv w by (auto simp: running_ok_def queues_ok_def sched_inv_def st)
  moreover have "current_thread s \<noteq> Some t" using inv w by (auto simp: sched_inv_def)
  ultimately have "sched_inv ?s" using inv by (auto simp: sched_inv_def queues_ok_def st)
  moreover have "sleeping ?s = sleeping s - {t}" by (auto simp: sleeping_def st)
  ultimately show ?thesis using s'(1) by simp
qed

interpretation so3_block: thread_blocking sched_inv sleeping not_idle current_thread waiting ready
proof unfold_locales
  show "\<exists>s'. waiting s = Some s' \<and> sched_inv s' \<and> sleeping s' = insert c (sleeping s)"
    if "sched_inv s" "current_thread s = Some c" "not_idle s c" for s c
    using waiting_ok [OF that(1,2)] that(3) by (auto simp: not_idle_def)
  show "\<exists>s'. ready t s = Some s' \<and> sched_inv s' \<and> sleeping s' = sleeping s - {t} \<and> current_thread s' = current_thread s"
    if "sched_inv s" "t \<in> sleeping s" for s t
    using ready_ok_step [OF that] by blast
  show "c \<notin> sleeping s" if "sched_inv s" "current_thread s = Some c" for s c
    using that by (auto simp: sched_inv_def sleeping_def)
qed

subsection \<open>The interrupt mask\<close>

definition context_of :: "kernel \<Rightarrow> (nat \<Rightarrow> bool) \<times> (nat \<Rightarrow> bool) \<times> nat option" where
  "context_of s = (irqs_on s, lock_flags s, tcb_idle s)"

lemma upd_context: "upd_tcb t f s = Some s' \<Longrightarrow> context_of s' = context_of s" "upd_pcb p g s = Some s' \<Longrightarrow> context_of s' = context_of s"
  by (auto simp: upd_tcb_def upd_pcb_def context_of_def split: option.splits)

lemma ready_context: "ready t s = Some s' \<Longrightarrow> context_of s' = context_of s"
  by (auto simp: ready_def context_of_def split: Option.bind_splits if_splits dest!: upd_context(1))

lemma next_thread_context: "next_thread s = Some (n, s') \<Longrightarrow> context_of s' = context_of s"
  by (auto simp: next_thread_def next_thread_prio_dyn_def next_thread_prio_def next_thread_rr_def take_picked_def
      remove_ready_def age_ready_def context_of_def Let_def
      split: sched_policy.splits Option.bind_splits option.splits if_splits)

lemma switch_mm_context: "switch_mm prev n s = Some s' \<Longrightarrow> context_of s' = context_of s"
  by (auto simp: switch_mm_def context_of_def split: Option.bind_splits option.splits if_splits dest!: upd_context(2))

lemma switch_thread_context: "switch_thread prev n s = Some s' \<Longrightarrow> context_of s' = context_of s"
  by (auto simp: switch_thread_def context_of_def split: Option.bind_splits option.splits if_splits
      dest!: switch_mm_context ready_context upd_context(1))

lemma schedule_context: "schedule s = Some s' \<Longrightarrow> context_of s' = context_of s"
  by (auto simp: schedule_def context_of_def Let_def split: Option.bind_splits option.splits if_splits prod.splits
      dest!: next_thread_context switch_thread_context)

lemma waiting_context: "waiting s = Some s' \<Longrightarrow> context_of s' = context_of s"
  by (auto simp: waiting_def split: Option.bind_splits if_splits dest!: schedule_context upd_context(1))

lemma irq_frame [simp]:
  "sched_inv (s\<lparr>irqs_on := f\<rparr>) = sched_inv s" "sched_inv (s\<lparr>lock_flags := f\<rparr>) = sched_inv s"
  "sleeping (s\<lparr>irqs_on := f\<rparr>) = sleeping s" "sleeping (s\<lparr>lock_flags := f\<rparr>) = sleeping s"
  "not_idle (s\<lparr>irqs_on := f\<rparr>) = not_idle s" "not_idle (s\<lparr>lock_flags := f\<rparr>) = not_idle s"
  by (simp_all add: sched_inv_def queues_ok_def queue_defs tstate_of_def [abs_def] sleeping_def not_idle_def fun_eq_iff)

subsection \<open>Round robin and priorities\<close>


lemma eligible_iff:
  "eligible s t \<longleftrightarrow> (\<exists>r. map_option tpcb (tcbs s t) = Some r \<and>
    (\<forall>p. r = Some p \<longrightarrow> (\<exists>d. pcbs s p = Some d \<and> runnable d)))"
  by (auto simp: eligible_def runnable_def split: option.splits)

lemma eligible_kept: "frame_kept s s' \<Longrightarrow> eligible s t \<Longrightarrow> eligible s' t"
  unfolding eligible_iff frame_kept_def pcbs_le_def by metis

text \<open>A step elects the first eligible thread of the ready list.\<close>

lemma rr_elects:
  assumes q: "queues_ok s" "policy s = SCHED_POLICY_RR" and r: "readyThreads s = as @ t # ts" "eligible s t"
    and n: "\<forall>a \<in> set as. \<not> eligible s a"
  shows "\<exists>s' ys. schedule s = Some s' \<and> sched_inv s' \<and> policy s' = SCHED_POLICY_RR \<and>
    current_thread s' = Some t \<and> readyThreads s' = as @ ts @ ys \<and> frame_kept s s' \<and>
    (\<forall>u. eligible s u \<longrightarrow> eligible s' u)"
proof -
  obtain s' n where s': "schedule s = Some s'" "scheduled s n s'" "policy_choice s n"
    using schedule_policy_spec [OF q(1)] by blast
  let ?s = "s\<lparr>in_scheduling := True\<rparr>"
  have "ready_ok s" using q(1) by (simp add: queues_ok_def)
  then have rk: "ready_ok ?s" by (subst ready_ok_cong [of _ s]) (simp_all add: tstate_simps)
  have "distinct (as @ t # ts)" using \<open>ready_ok s\<close> r(1) by (simp add: ready_ok_def)
  then have rm: "remove1 t (as @ t # ts) = as @ ts" by (simp add: remove1_append)
  have e: "eligible ?s u \<longleftrightarrow> eligible s u" for u by (simp add: eligible_iff)
  have "find (eligible ?s) (as @ t # ts) = Some t" using n r(2) e by (induction as) auto
  then have "next_thread ?s = Some (Some t, ?s\<lparr>readyThreads := as @ ts\<rparr>)"
    using remove_ready_eq [OF rk, of t] q(2) r(1) rm by (simp add: next_thread_def next_thread_rr_def)
  then have nt: "n = t" using s'(3) by (simp add: policy_choice_def)
  have k: "frame_kept s s'" "current_thread s' = Some t" using s'(2) nt by (simp_all add: scheduled_def)
  have "tstate_of s t = Some THREAD_STATE_READY" using \<open>ready_ok s\<close> r(1) unfolding ready_ok_def by force
  then have "running_current s \<noteq> Some t" "tcb_idle s \<noteq> Some t"
    using q(1) by (auto simp: running_current_Some queues_ok_def idle_ok_def)
  then have "\<exists>ys. readyThreads s' = as @ ts @ ys" using s'(2) nt r(1) rm by (auto simp: scheduled_def elected_def)
  moreover have "policy s' = SCHED_POLICY_RR" using k(1) q(2) by (simp add: frame_kept_def)
  ultimately show ?thesis using s'(1) k eligible_kept [OF k(1)] scheduled_inv [OF q(1) s'(2)] by blast
qed

lemmas rr_step = rr_elects [of _ "[]", simplified]


definition prio_of :: "kernel \<Rightarrow> nat \<Rightarrow> nat" where
  "prio_of s t = prio (the (tcbs s t))"

lemma better_max:
  assumes "fold (better pr s) xs b = Some r" "t \<in> set xs \<or> b = Some t"
  shows "pr (the (tcbs s t)) \<le> pr (the (tcbs s r))"
  using assms
proof (induction xs arbitrary: b t)
  case (Cons x xs)
  obtain c where c: "better pr s x b = Some c" by (cases "better pr s x b") (auto simp: better_def split: option.splits if_splits)
  have "pr (the (tcbs s x)) \<le> pr (the (tcbs s c))" "b = Some u \<Longrightarrow> pr (the (tcbs s u)) \<le> pr (the (tcbs s c))" for u
    using c by (auto simp: better_def split: option.splits if_splits)
  moreover have "pr (the (tcbs s c)) \<le> pr (the (tcbs s r))" using Cons.IH [of "Some c" c] Cons.prems(1) c by simp
  moreover have "t \<in> set xs \<Longrightarrow> pr (the (tcbs s t)) \<le> pr (the (tcbs s r))" using Cons.IH [of "Some c" t] Cons.prems(1) c by simp
  ultimately show ?case using Cons.prems(2) by (auto intro: order_trans)
qed simp
lemma better_keeps:
  "fold (better pr s) xs (Some c) = Some r \<Longrightarrow> r = c \<or> pr (the (tcbs s c)) < pr (the (tcbs s r))"
proof (induction xs arbitrary: c)
  case (Cons x xs)
  show ?case
  proof (cases "pr (the (tcbs s c)) < pr (the (tcbs s x))")
    case True
    then show ?thesis using Cons.IH [of x] Cons.prems by (auto simp: better_def)
  next
    case False
    then show ?thesis using Cons.IH [of c] Cons.prems by (simp add: better_def)
  qed
qed simp

lemma prio_pick:
  assumes q: "queues_ok s" "policy s = SCHED_POLICY_PRIO" and n: "policy_choice s n"
    and t: "t \<in> set (readyThreads s) \<or> running_current s = Some t"
  shows "fold (better prio (s\<lparr>in_scheduling := True\<rparr>)) (readyThreads s) (running_current s) = Some n"
proof -
  let ?s = "s\<lparr>in_scheduling := True\<rparr>"
  have rc: "running_current ?s = running_current s"
    by (rule running_current_cong) (simp_all add: tstate_simps)
  have "ready_ok s" using q(1) by (simp add: queues_ok_def)
  then have rk: "ready_ok ?s" by (subst ready_ok_cong [of _ s]) (simp_all add: tstate_simps)
  have "pick prio ?s \<noteq> None"
    using pick_candidates [of prio ?s "readyThreads ?s" "running_current ?s" "pick prio ?s"] t rc
    by (auto simp: pick_def)
  then obtain m where m: "pick prio ?s = Some m" by blast
  obtain R where "take_picked (pick prio ?s) ?s = Some (pick prio ?s, ?s\<lparr>readyThreads := R\<rparr>)"
    using take_picked_ok [OF rk refl] by blast
  then have "n = m" using n q(2) m by (simp add: policy_choice_def next_thread_def next_thread_prio_def)
  then show ?thesis using m rc by (simp add: pick_def)
qed

lemma prio_choice:
  assumes "queues_ok s" "policy s = SCHED_POLICY_PRIO" "policy_choice s n"
    "t \<in> set (readyThreads s) \<or> running_current s = Some t"
  shows "prio_of s t \<le> prio_of s n"
  using better_max [OF prio_pick [OF assms] assms(4)] by (simp add: prio_of_def)

lemma prio_strict:
  assumes "queues_ok s" "policy s = SCHED_POLICY_PRIO" "policy_choice s n" "running_current s = Some c"
  shows "n = c \<or> prio_of s c < prio_of s n"
  using better_keeps [OF prio_pick [OF assms(1-3), of c, unfolded assms(4)]] by (simp add: prio_of_def)

subsection \<open>The theorems\<close>

text \<open>A kernel with the idle thread 0, the running thread 1 and three more threads.\<close>

definition ex_tcb :: "nat \<Rightarrow> thread_state \<Rightarrow> tcb" where
  "ex_tcb p st = \<lparr>prio = p, current_prio = p, last_prio_inc_time = 0, tstate = st, stack_slotID = 0, tpcb = None,
     pcb_stack_slotID = 0, texit_status = 0, joinQueue = []\<rparr>"

definition ex_kernel :: "sched_policy \<Rightarrow> kernel" where
  "ex_kernel pol = \<lparr>tcbs = [0 \<mapsto> ex_tcb 1 THREAD_STATE_NEW, 1 \<mapsto> ex_tcb 10 THREAD_STATE_RUNNING,
       2 \<mapsto> ex_tcb 10 THREAD_STATE_READY, 3 \<mapsto> ex_tcb 20 THREAD_STATE_READY, 4 \<mapsto> ex_tcb 5 THREAD_STATE_WAITING],
     pcbs = Map.empty, readyThreads = [2, 3], zombieThreads = [], current_thread = Some 1, tcb_idle = Some 0,
     policy = pol, sched_preempt = True, in_scheduling = False, in_interrupt = False, boot_completed = True,
     schedule_timer = 0, clock = 0, cur_pgtable = 0, kernel_stack_slot = [], tid_next = 5, mem_ok = True,
     irqs_on = (\<lambda>_. True), lock_flags = (\<lambda>_. False)\<rparr>"

lemma ex_kernel_inv: "sched_inv (ex_kernel pol)"
  by (auto simp: sched_inv_def queues_ok_def queue_defs ex_kernel_def ex_tcb_def tstate_of_def)

text \<open>
  C5. In a state whose queues agree with the threads' states, a call of the scheduler always
  returns, in a state where they agree again: some thread is current and running, no other
  thread is running except possibly the idle one, the ready list holds each ready thread
  exactly once, and no sleeping or zombie thread is touched.
\<close>

theorem schedule_one_running:
  assumes "sched_inv s"
  shows "\<exists>s' n. schedule s = Some s' \<and> sched_inv s' \<and> current_thread s' = Some n \<and>
    (\<forall>t. tstate_of s' t = Some THREAD_STATE_RUNNING \<longrightarrow> t = n \<or> tcb_idle s' = Some t) \<and>
    distinct (readyThreads s') \<and> set (readyThreads s') = {t. tstate_of s' t = Some THREAD_STATE_READY} \<and>
    sleeping s' = sleeping s \<and> zombieThreads s' = zombieThreads s"
proof -
  have q: "queues_ok s" using assms by (simp add: sched_inv_def)
  obtain s' n where s': "schedule s = Some s'" "scheduled s n s'" using schedule_spec [OF q] by blast
  have i: "sched_inv s'" by (rule scheduled_inv [OF q s'(2)])
  have "current_thread s' = Some n" "zombieThreads s' = zombieThreads s"
    using s'(2) by (simp_all add: scheduled_def frame_kept_def)
  moreover have "sleeping s' = sleeping s" using scheduled_states(2) [OF q s'(2)] by (simp add: sleeping_def)
  moreover have "running_ok s'" "distinct (readyThreads s')" "set (readyThreads s') = {t. tstate_of s' t = Some THREAD_STATE_READY}"
    using i by (auto simp: sched_inv_def queues_ok_def ready_ok_def)
  ultimately show ?thesis using s'(1) i by (auto simp: running_ok_def)
qed

theorem schedule_one_running_witness:
  "\<exists>s' n. schedule (ex_kernel SCHED_POLICY_RR) = Some s' \<and> sched_inv s' \<and> current_thread s' = Some n"
  using schedule_one_running [OF ex_kernel_inv, of SCHED_POLICY_RR] by blast

text \<open>
  C27. A thread that blocks and is then woken comes back as the last ready thread: both calls
  return, the invariant holds after each, in between the thread sleeps and another one runs,
  and in the end the set of sleeping threads is what it was.
\<close>

theorem wait_wake_roundtrip:
  assumes "sched_inv s" "current_thread s = Some c" "tcb_idle s \<noteq> Some c"
  shows "\<exists>s1 s2. waiting s = Some s1 \<and> sched_inv s1 \<and> c \<in> sleeping s1 \<and> current_thread s1 \<noteq> Some c \<and>
    wake_up c s1 = Some s2 \<and> sched_inv s2 \<and> sleeping s2 = sleeping s \<and>
    readyThreads s2 = readyThreads s1 @ [c] \<and> current_thread s2 = current_thread s1"
proof -
  obtain s1 where s1: "waiting s = Some s1" "sched_inv s1" "sleeping s1 = insert c (sleeping s)"
    using waiting_ok [OF assms] by blast
  then obtain s2 where s2: "ready c s1 = Some s2" "sched_inv s2" "sleeping s2 = sleeping s1 - {c}"
      "current_thread s2 = current_thread s1" "readyThreads s2 = readyThreads s1 @ [c]"
    using ready_ok_step [of s1 c] by blast
  have "c \<notin> sleeping s" using so3_block.cur_awake [OF assms(1,2)] .
  moreover have "current_thread s1 \<noteq> Some c" using so3_block.cur_awake [OF s1(2), of c] s1(3) by blast
  moreover have "c \<in> sleeping s1" using s1(3) by simp
  then have "wake_up c s1 = ready c s1" by (auto simp: wake_up_def sleeping_def tstate_of_def)
  ultimately show ?thesis using s1 s2 by auto
qed

theorem wait_wake_roundtrip_witness:
  "\<exists>s1 s2. waiting (ex_kernel SCHED_POLICY_RR) = Some s1 \<and> wake_up 1 s1 = Some s2 \<and> sched_inv s2 \<and>
    readyThreads s2 = readyThreads s1 @ [1]"
  using wait_wake_roundtrip [OF ex_kernel_inv, of SCHED_POLICY_RR 1] by (auto simp: ex_kernel_def)



text \<open>
  C26. Under the priority policy the thread that runs after a scheduling step had the highest
  priority of all ready threads and the running one; a running thread is only replaced by
  one of strictly higher priority.
\<close>

theorem prio_runs_highest:
  assumes "sched_inv s" "policy s = SCHED_POLICY_PRIO"
  shows "\<exists>s' n. schedule s = Some s' \<and> current_thread s' = Some n \<and>
    (\<forall>t. tstate_of s t = Some THREAD_STATE_READY \<longrightarrow> prio_of s t \<le> prio_of s n) \<and>
    (\<forall>c. current_thread s = Some c \<longrightarrow> c = n \<or> prio_of s c < prio_of s n)"
proof -
  have q: "queues_ok s" using assms by (simp add: sched_inv_def)
  obtain s' n where s': "schedule s = Some s'" "scheduled s n s'" "policy_choice s n"
    using schedule_policy_spec [OF q] by blast
  have p: "prio_of s t \<le> prio_of s n" if "t \<in> set (readyThreads s) \<or> running_current s = Some t" for t
    using prio_choice [OF q assms(2) s'(3)] that by blast
  obtain c where c: "current_thread s = Some c" "running_current s = Some c"
    using assms(1) by (auto simp: sched_inv_def running_current_Some)
  have "c = n \<or> prio_of s c < prio_of s n" using prio_strict [OF q assms(2) s'(3) c(2)] by blast
  moreover have "\<forall>t. tstate_of s t = Some THREAD_STATE_READY \<longrightarrow> prio_of s t \<le> prio_of s n"
    using p q by (simp add: queues_ok_def ready_ok_def)
  moreover have "current_thread s' = Some n" using s'(2) by (simp add: scheduled_def)
  ultimately show ?thesis using s'(1) c(1) by auto
qed

theorem prio_runs_highest_witness:
  "\<exists>s' n. schedule (ex_kernel SCHED_POLICY_PRIO) = Some s' \<and> current_thread s' = Some n \<and>
    20 \<le> prio_of (ex_kernel SCHED_POLICY_PRIO) n"
proof -
  have "tstate_of (ex_kernel SCHED_POLICY_PRIO) 3 = Some THREAD_STATE_READY"
    "prio_of (ex_kernel SCHED_POLICY_PRIO) 3 = 20"
    by (simp_all add: ex_kernel_def ex_tcb_def tstate_of_def prio_of_def)
  then show ?thesis using prio_runs_highest [OF ex_kernel_inv, of SCHED_POLICY_PRIO]
    by (auto simp: ex_kernel_def)
qed

end
