(* ===== verification/So3_Mutex.thy ===== *)
theory So3_Mutex
  imports So3_Sched_Proofs
begin

section \<open>Mutexes\<close>

text \<open>
  Model of \<open>so3/kernel/mutex.c\<close> over the scheduler. \<open>mutex_lock\<close> is cut at its call of
  \<open>waiting\<close>: \<open>mutex_lock\<close> is what the caller does up to there, \<open>mutex_lock_resume\<close> what it
  does when it is scheduled again. \<open>mutex_unlock\<close> is cut where it has interrupts enabled: the
  test of the recursion count, the store that frees the mutex and the wake-up of the first
  waiter. Each part runs with interrupts off, so it is atomic; the step relation interleaves
  the parts of all threads with scheduling steps. Only the current thread moves. A thread sleeps
  in \<open>mutex_lock\<close> with interrupts off in its context, and the interrupt mask that it found at its
  call is restored when it has the mutex; between its calls a thread may change the mask.
\<close>

subsection \<open>The operations\<close>

record mutex =
  mcount :: int
  owner :: "nat option"
  recursive_count :: nat
  tcb_list :: "nat list"

definition mutex_init :: mutex where
  "mutex_init = \<lparr>mcount = 1, owner = None, recursive_count = 0, tcb_list = []\<rparr>"

definition mutex_is_locked :: "mutex \<Rightarrow> bool" where
  "mutex_is_locked m \<longleftrightarrow> mcount m \<noteq> 1"

datatype lock_outcome = Acquired | Blocked

text \<open>One turn of the waiting loop, and the end of the function when it is left.\<close>

definition lock_loop :: "nat \<Rightarrow> mutex \<Rightarrow> lock_outcome \<times> mutex" where
  "lock_loop c m =
     (let m1 = (if mcount m \<ge> 0 then m\<lparr>mcount := -1\<rparr> else m)
      in if mcount m \<ge> 0 \<and> mcount m = 1
         then (Acquired, m1\<lparr>mcount := if tcb_list m1 = [] then 0 else mcount m1, owner := Some c\<rparr>)
         else (Blocked, m1\<lparr>tcb_list := tcb_list m1 @ [c]\<rparr>))"

definition lock_enter :: "nat \<Rightarrow> mutex \<Rightarrow> lock_outcome \<times> mutex" where
  "lock_enter c m =
     (if \<not> mutex_is_locked m then (Acquired, m\<lparr>mcount := 0, owner := Some c\<rparr>)
      else if owner m = Some c
      then (Acquired, m\<lparr>recursive_count := (recursive_count m + 1) mod 2 ^ 32, owner := Some c\<rparr>)
      else lock_loop c m)"

text \<open>The end of the function, or the call of \<open>waiting\<close>, where \<open>flags\<close> stays on the thread's stack.\<close>

definition wait_if_blocked ::
  "nat \<Rightarrow> bool \<Rightarrow> lock_outcome \<times> mutex \<Rightarrow> kernel \<Rightarrow> (lock_outcome \<times> mutex \<times> kernel) option" where
  "wait_if_blocked c flags r s =
     (case r of (Acquired, m) \<Rightarrow> Some (Acquired, m, local_irq_restore c flags s)
      | (Blocked, m) \<Rightarrow> do {
          s1 \<leftarrow> waiting (s\<lparr>lock_flags := (lock_flags s)(c := flags)\<rparr>);
          Some (Blocked, m, s1)
        })"

definition mutex_lock :: "mutex \<Rightarrow> kernel \<Rightarrow> (lock_outcome \<times> mutex \<times> kernel) option" where
  "mutex_lock m s =
     do {
       c \<leftarrow> current_thread s;
       let (flags, s1) = local_irq_save c s;
       wait_if_blocked c flags (lock_enter c m) s1
     }"

text \<open>After the sleep; the test is \<open>BUG_ON(local_irq_is_enabled())\<close>.\<close>

definition mutex_lock_resume :: "mutex \<Rightarrow> kernel \<Rightarrow> (lock_outcome \<times> mutex \<times> kernel) option" where
  "mutex_lock_resume m s =
     do {
       c \<leftarrow> current_thread s;
       if irqs_on s c then None else wait_if_blocked c (lock_flags s c) (lock_loop c m) s
     }"

text \<open>The first part of the unlocking tells whether the mutex is to be freed.\<close>

definition unlock_begin :: "mutex \<Rightarrow> (bool \<times> mutex) option" where
  "unlock_begin m =
     (if \<not> mutex_is_locked m then None
      else if recursive_count m > 0 then Some (False, m\<lparr>recursive_count := recursive_count m - 1\<rparr>)
      else Some (True, m))"

definition unlock_release :: "mutex \<Rightarrow> mutex" where
  "unlock_release m = m\<lparr>mcount := 1\<rparr>"

definition unlock_wake :: "mutex \<Rightarrow> kernel \<Rightarrow> (mutex \<times> kernel) option" where
  "unlock_wake m s =
     (case tcb_list m of
        [] \<Rightarrow> Some (m, s)
      | h # r \<Rightarrow> do {
          s1 \<leftarrow> ready h s;
          s2 \<leftarrow> schedule s1;
          Some (m\<lparr>tcb_list := r\<rparr>, s2)
        })"

text \<open>The whole function when it is not interrupted.\<close>

definition mutex_unlock :: "mutex \<Rightarrow> kernel \<Rightarrow> (mutex \<times> kernel) option" where
  "mutex_unlock m s =
     do {
       (free, m1) \<leftarrow> unlock_begin m;
       if free then unlock_wake (unlock_release m1) s else Some (m1, s)
     }"

subsection \<open>Interleaved use by the threads\<close>

datatype mpc = Outside | Critical nat | Sleeping | Woken | Releasing | Waking

type_synonym msys = "mutex \<times> kernel \<times> (nat \<Rightarrow> mpc)"

definition after_lock :: "lock_outcome \<Rightarrow> mpc" where
  "after_lock r = (case r of Acquired \<Rightarrow> Critical 0 | Blocked \<Rightarrow> Sleeping)"

definition woken_first :: "mutex \<Rightarrow> (nat \<Rightarrow> mpc) \<Rightarrow> nat \<Rightarrow> mpc" where
  "woken_first m pc = (case tcb_list m of [] \<Rightarrow> pc | h # r \<Rightarrow> pc(h := Woken))"

inductive mstep :: "msys \<Rightarrow> msys \<Rightarrow> bool" where
  lock: "current_thread s = Some c \<Longrightarrow> not_idle s c \<Longrightarrow> pc c = Outside \<Longrightarrow>
    mutex_lock m s = Some (r, m', s') \<Longrightarrow> mstep (m, s, pc) (m', s', pc(c := after_lock r))"
| lock_again: "current_thread s = Some c \<Longrightarrow> pc c = Critical n \<Longrightarrow> n + 1 < 2 ^ 32 \<Longrightarrow>
    mutex_lock m s = Some (r, m', s') \<Longrightarrow> mstep (m, s, pc) (m', s', pc(c := Critical (n + 1)))"
| lock_resume: "current_thread s = Some c \<Longrightarrow> not_idle s c \<Longrightarrow> pc c = Woken \<Longrightarrow>
    mutex_lock_resume m s = Some (r, m', s') \<Longrightarrow> mstep (m, s, pc) (m', s', pc(c := after_lock r))"
| unlock: "current_thread s = Some c \<Longrightarrow> pc c = Critical n \<Longrightarrow> unlock_begin m = Some (free, m') \<Longrightarrow>
    mstep (m, s, pc) (m', s, pc(c := if free then Releasing else Critical (n - 1)))"
| release: "current_thread s = Some c \<Longrightarrow> pc c = Releasing \<Longrightarrow>
    mstep (m, s, pc) (unlock_release m, s, pc(c := Waking))"
| wake: "current_thread s = Some c \<Longrightarrow> pc c = Waking \<Longrightarrow> unlock_wake m s = Some (m', s') \<Longrightarrow>
    mstep (m, s, pc) (m', s', (woken_first m pc)(c := Outside))"
| irq_mask: "current_thread s = Some c \<Longrightarrow> pc c = Outside \<or> (\<exists>n. pc c = Critical n) \<Longrightarrow>
    mstep (m, s, pc) (m, local_irq_restore c b s, pc)"
| preempt: "schedule s = Some s' \<Longrightarrow> mstep (m, s, pc) (m, s', pc)"
| block_elsewhere: "current_thread s = Some c \<Longrightarrow> not_idle s c \<Longrightarrow> pc c = Outside \<or> (\<exists>n. pc c = Critical n) \<Longrightarrow>
    waiting s = Some s' \<Longrightarrow> mstep (m, s, pc) (m, s', pc)"
| wake_elsewhere: "t \<in> sleeping s \<Longrightarrow> pc t \<noteq> Sleeping \<Longrightarrow> ready t s = Some s' \<Longrightarrow>
    mstep (m, s, pc) (m, s', pc)"

subsection \<open>Invariant\<close>

fun holds :: "mpc \<Rightarrow> bool" where
  "holds (Critical n) = True"
| "holds Releasing = True"
| "holds _ = False"

definition queue_inv :: "msys \<Rightarrow> bool" where
  "queue_inv = (\<lambda>(m, s, pc). sched_inv s \<and> distinct (tcb_list m) \<and>
     set (tcb_list m) = {t. pc t = Sleeping} \<and> set (tcb_list m) \<subseteq> sleeping s \<and>
     (\<forall>t. pc t = Woken \<longrightarrow> t \<notin> sleeping s))"

definition holder_inv :: "msys \<Rightarrow> bool" where
  "holder_inv = (\<lambda>(m, s, pc). mcount m \<le> 1 \<and>
     (mcount m = 1 \<longrightarrow> (\<forall>t. \<not> holds (pc t)) \<and> recursive_count m = 0) \<and>
     (mcount m \<noteq> 1 \<longrightarrow> (\<exists>h. owner m = Some h \<and> (\<forall>t. holds (pc t) \<longleftrightarrow> t = h))) \<and>
     (\<forall>t n. pc t = Critical n \<longrightarrow> recursive_count m = n \<and> n < 2 ^ 32) \<and>
     (\<forall>t. pc t = Releasing \<longrightarrow> recursive_count m = 0))"

definition wakeup_inv :: "msys \<Rightarrow> bool" where
  "wakeup_inv = (\<lambda>(m, s, pc). tcb_list m \<noteq> [] \<and> mcount m = 1 \<longrightarrow> (\<exists>t. pc t = Waking \<or> pc t = Woken))"

lemmas mutex_inv_defs = queue_inv_def holder_inv_def wakeup_inv_def

lemmas mutex_op_defs = mutex_lock_def mutex_lock_resume_def lock_enter_def lock_loop_def mutex_is_locked_def
  wait_if_blocked_def unlock_begin_def unlock_release_def unlock_wake_def
lemma lock_loop_queue:
  "lock_loop c m = (r, m') \<Longrightarrow> tcb_list m' = (case r of Acquired \<Rightarrow> tcb_list m | Blocked \<Rightarrow> tcb_list m @ [c])"
  by (auto simp: lock_loop_def Let_def split: if_splits)

lemma lock_enter_queue:
  "lock_enter c m = (r, m') \<Longrightarrow> tcb_list m' = (case r of Acquired \<Rightarrow> tcb_list m | Blocked \<Rightarrow> tcb_list m @ [c])"
  using lock_loop_queue [of c m r m'] by (auto simp: lock_enter_def split: if_splits)

lemma irq_saved [simp]: "local_irq_restore c (irqs_on s c) (s\<lparr>irqs_on := (irqs_on s)(c := False)\<rparr>) = s"
  by (simp add: local_irq_restore_def)

lemma irq_restore_frame [simp]:
  "sched_inv (local_irq_restore c b s) = sched_inv s" "sleeping (local_irq_restore c b s) = sleeping s"
  "not_idle (local_irq_restore c b s) = not_idle s" "current_thread (local_irq_restore c b s) = current_thread s"
  "irqs_on (local_irq_restore c b s) = (irqs_on s)(c := b)"
  by (simp_all add: local_irq_restore_def)

lemma wait_if_blocked_ok:
  assumes q: "queue_inv (m, s, pc)" and c: "current_thread s = Some c" "not_idle s c" "pc c \<noteq> Sleeping"
    and l: "tcb_list m' = (case r of Acquired \<Rightarrow> tcb_list m | Blocked \<Rightarrow> tcb_list m @ [c])"
    and p: "p \<noteq> Sleeping" "p \<noteq> Woken"
  shows "\<exists>s'. wait_if_blocked c flags (r, m') s = Some (r, m', s') \<and>
    irqs_on s' = (if r = Acquired then (irqs_on s)(c := flags) else irqs_on s) \<and>
    queue_inv (m', s', pc(c := case r of Acquired \<Rightarrow> p | Blocked \<Rightarrow> Sleeping))"
proof (cases r)
  case Acquired
  then show ?thesis using q l p c(3) by (auto simp: wait_if_blocked_def queue_inv_def)
next
  case Blocked
  let ?s = "s\<lparr>lock_flags := (lock_flags s)(c := flags)\<rparr>"
  have i: "sched_inv ?s" and w: "\<And>t. pc t = Woken \<Longrightarrow> t \<notin> sleeping s" using q by (auto simp: queue_inv_def)
  obtain s' where s': "waiting ?s = Some s'" "sched_inv s'" "sleeping s' = insert c (sleeping s)"
    using so3_block.block_ok [OF i] c(1,2) by auto
  have "irqs_on s' = irqs_on s" using waiting_context [OF s'(1)] by (simp add: context_of_def)
  moreover have "c \<notin> set (tcb_list m)" using q c(3) by (auto simp: queue_inv_def)
  then have "queue_inv (m', s', pc(c := Sleeping))"
    using q s'(2,3) l Blocked w by (auto simp: queue_inv_def)
  ultimately show ?thesis using Blocked s'(1) by (simp add: wait_if_blocked_def)
qed

lemma mutex_lock_ok:
  assumes "queue_inv (m, s, pc)" "current_thread s = Some c" "not_idle s c" "pc c \<noteq> Sleeping"
    "p \<noteq> Sleeping" "p \<noteq> Woken"
  shows "\<exists>r m' s'. mutex_lock m s = Some (r, m', s') \<and> lock_enter c m = (r, m') \<and>
    irqs_on s' = (if r = Acquired then irqs_on s else (irqs_on s)(c := False)) \<and>
    queue_inv (m', s', pc(c := case r of Acquired \<Rightarrow> p | Blocked \<Rightarrow> Sleeping))"
proof -
  obtain r m' where r: "lock_enter c m = (r, m')" by fastforce
  let ?s = "s\<lparr>irqs_on := (irqs_on s)(c := False)\<rparr>"
  have "queue_inv (m, ?s, pc)" "current_thread ?s = Some c" "not_idle ?s c" using assms(1-3) by (auto simp: queue_inv_def)
  from wait_if_blocked_ok [OF this assms(4) lock_enter_queue [OF r] assms(5,6), of "irqs_on s c"]
  show ?thesis using r assms(2) by (auto simp: mutex_lock_def local_irq_save_def)
qed

lemma mutex_lock_resume_ok:
  assumes "queue_inv (m, s, pc)" "current_thread s = Some c" "not_idle s c" "pc c \<noteq> Sleeping"
    "p \<noteq> Sleeping" "p \<noteq> Woken" "\<not> irqs_on s c"
  shows "\<exists>r m' s'. mutex_lock_resume m s = Some (r, m', s') \<and> lock_loop c m = (r, m') \<and>
    irqs_on s' = (if r = Acquired then (irqs_on s)(c := lock_flags s c) else irqs_on s) \<and>
    queue_inv (m', s', pc(c := case r of Acquired \<Rightarrow> p | Blocked \<Rightarrow> Sleeping))"
proof -
  obtain r m' where r: "lock_loop c m = (r, m')" by fastforce
  show ?thesis using wait_if_blocked_ok [OF assms(1-4) lock_loop_queue [OF r] assms(5,6), of "lock_flags s c"] r assms(2,7)
    by (simp add: mutex_lock_resume_def)
qed

lemma unlock_wake_ok:
  assumes q: "queue_inv (m, s, pc)" and c: "pc c = Waking"
  shows "\<exists>m' s'. unlock_wake m s = Some (m', s') \<and> tcb_list m' = tl (tcb_list m) \<and> mcount m' = mcount m \<and>
    owner m' = owner m \<and> recursive_count m' = recursive_count m \<and>
    queue_inv (m', s', (woken_first m pc)(c := Outside))"
proof (cases "tcb_list m")
  case Nil
  then show ?thesis using q c by (auto simp: unlock_wake_def woken_first_def queue_inv_def)
next
  case (Cons h r)
  have i: "sched_inv s" and h: "h \<in> sleeping s" "pc h = Sleeping" using q Cons by (auto simp: queue_inv_def)
  obtain s1 where s1: "ready h s = Some s1" "sched_inv s1" "sleeping s1 = sleeping s - {h}"
    using so3_block.wake_ok [OF i h(1)] by blast
  then have q1: "queues_ok s1" by (simp add: sched_inv_def)
  obtain s2 n where s2: "schedule s1 = Some s2" "scheduled s1 n s2" using schedule_spec [OF q1] by blast
  have "sleeping s2 = sleeping s1" using scheduled_states(2) [OF q1 s2(2)] by (simp add: sleeping_def)
  then have sl: "sleeping s2 = sleeping s - {h}" using s1(3) by simp
  have d: "h \<notin> set r" "distinct r" and l: "insert h (set r) = {t. pc t = Sleeping}" "set r \<subseteq> sleeping s"
    using q Cons by (simp_all add: queue_inv_def)
  have pc: "(woken_first m pc)(c := Outside) = pc(h := Woken, c := Outside)" using Cons by (simp add: woken_first_def)
  have "set r = {t. (pc(h := Woken, c := Outside)) t = Sleeping}" using l(1) d(1) c by auto
  moreover have "set r \<subseteq> sleeping s2" using l(2) d(1) sl by blast
  moreover have "t \<notin> sleeping s2" if "(pc(h := Woken, c := Outside)) t = Woken" for t
    using q that sl by (auto simp: queue_inv_def split: if_splits)
  ultimately have "queue_inv (m\<lparr>tcb_list := r\<rparr>, s2, (woken_first m pc)(c := Outside))"
    using d(2) scheduled_inv [OF q1 s2(2)] unfolding pc queue_inv_def by (simp del: fun_upd_apply)
  then show ?thesis using s1(1) s2(1) Cons by (simp add: unlock_wake_def)
qed

lemma schedule_sleeping:
  assumes "sched_inv s" "schedule s = Some s'"
  shows "sched_inv s'" "sleeping s' = sleeping s"
proof -
  have q: "queues_ok s" using assms(1) by (simp add: sched_inv_def)
  obtain n where n: "scheduled s n s'" using schedule_spec [OF q] assms(2) by auto
  show "sched_inv s'" by (rule scheduled_inv [OF q n])
  show "sleeping s' = sleeping s" using scheduled_states(2) [OF q n] by (simp add: sleeping_def)
qed
text \<open>The holder invariant does not depend on the scheduler.\<close>

lemma holder_take:
  assumes "holder_inv (m, s, pc)" "mcount m = 1" "mcount m' < 1" "owner m' = Some c" "recursive_count m' = recursive_count m"
  shows "holder_inv (m', s', pc(c := Critical 0))"
  using assms by (auto simp: holder_inv_def)

lemma holder_skip:
  assumes h: "holder_inv (m, s, pc)" and c: "\<not> holds (pc c)" "\<not> holds p"
    and m': "mcount m' \<le> 1" "mcount m' = 1 \<longleftrightarrow> mcount m = 1" "owner m' = owner m" "recursive_count m' = recursive_count m"
  shows "holder_inv (m', s', pc(c := p))"
proof -
  have hp: "holds ((pc(c := p)) t) \<longleftrightarrow> holds (pc t)" for t using c by simp
  have "pc t = Critical n" if "(pc(c := p)) t = Critical n" for t n using c(2) that by (auto split: if_splits)
  moreover have "pc t = Releasing" if "(pc(c := p)) t = Releasing" for t using c(2) that by (auto split: if_splits)
  ultimately show ?thesis using h m' unfolding holder_inv_def by (simp only: prod.case hp) blast
qed

lemma holder_is_owner:
  "holder_inv (m, s, pc) \<Longrightarrow> holds (pc t) \<Longrightarrow> mcount m \<noteq> 1 \<and> owner m = Some t \<and> (\<forall>u. holds (pc u) \<longrightarrow> u = t)"
  by (auto simp: holder_inv_def)

lemma not_owner: "holder_inv (m, s, pc) \<Longrightarrow> \<not> holds (pc c) \<Longrightarrow> mcount m \<noteq> 1 \<Longrightarrow> owner m \<noteq> Some c"
  by (force simp: holder_inv_def)

lemma holder_lock_loop:
  assumes h: "holder_inv (m, s, pc)" and c: "\<not> holds (pc c)" "lock_loop c m = (r, m')"
  shows "holder_inv (m', s', pc(c := after_lock r)) \<and> (r = Acquired \<longleftrightarrow> mcount m = 1) \<and> mcount m' \<noteq> 1"
proof (cases "mcount m = 1")
  case True
  then have "r = Acquired" "mcount m' < 1" "owner m' = Some c" "recursive_count m' = recursive_count m"
    using c(2) by (auto simp: lock_loop_def Let_def)
  then show ?thesis using holder_take [OF h True] True by (simp add: after_lock_def)
next
  case False
  have "mcount m \<le> 1" using h by (simp add: holder_inv_def)
  then have "r = Blocked" "mcount m' < 1" "owner m' = owner m" "recursive_count m' = recursive_count m"
    using c(2) False by (auto simp: lock_loop_def Let_def split: if_splits)
  then show ?thesis using holder_skip [OF h c(1), of Sleeping m'] False by (simp add: after_lock_def)
qed

lemma holder_lock_enter:
  assumes h: "holder_inv (m, s, pc)" and c: "\<not> holds (pc c)" "lock_enter c m = (r, m')"
  shows "holder_inv (m', s', pc(c := after_lock r)) \<and> (r = Acquired \<longleftrightarrow> mcount m = 1) \<and> mcount m' \<noteq> 1"
proof (cases "mcount m = 1")
  case True
  then have "r = Acquired" "mcount m' = 0" "owner m' = Some c" "recursive_count m' = recursive_count m"
    using c(2) by (auto simp: lock_enter_def mutex_is_locked_def)
  then show ?thesis using holder_take [OF h True] True by (simp add: after_lock_def)
next
  case False
  then have "lock_loop c m = (r, m')"
    using c(2) not_owner [OF h c(1)] by (simp add: lock_enter_def mutex_is_locked_def)
  then show ?thesis using holder_lock_loop [OF h c(1)] by blast
qed

lemma holder_lock_again:
  assumes h: "holder_inv (m, s, pc)" and c: "pc c = Critical n" "n + 1 < 2 ^ 32"
  shows "lock_enter c m = (Acquired, m\<lparr>recursive_count := n + 1, owner := Some c\<rparr>)"
    "holder_inv (m\<lparr>recursive_count := n + 1, owner := Some c\<rparr>, s', pc(c := Critical (n + 1)))"
proof -
  have o: "mcount m \<noteq> 1" "owner m = Some c" "\<And>u. holds (pc u) \<longleftrightarrow> u = c"
    using holder_is_owner [OF h, of c] c(1) by (auto simp: c(1))
  have r: "recursive_count m = n" "mcount m \<le> 1" using h c(1) by (auto simp: holder_inv_def)
  show "lock_enter c m = (Acquired, m\<lparr>recursive_count := n + 1, owner := Some c\<rparr>)"
    using o(1,2) r(1) c(2) by (simp add: lock_enter_def mutex_is_locked_def)
  have "pc t \<noteq> Critical k" "pc t \<noteq> Releasing" if "t \<noteq> c" for t k using o(3) [of t] that by auto
  then show "holder_inv (m\<lparr>recursive_count := n + 1, owner := Some c\<rparr>, s', pc(c := Critical (n + 1)))"
    using o r c(2) by (auto simp: holder_inv_def)
qed

lemma holder_unlock:
  assumes h: "holder_inv (m, s, pc)" and c: "pc c = Critical n"
  shows "\<exists>free m'. unlock_begin m = Some (free, m') \<and> (free \<longleftrightarrow> n = 0) \<and> tcb_list m' = tcb_list m \<and>
    mcount m' = mcount m \<and> mcount m \<noteq> 1 \<and>
    holder_inv (m', s', pc(c := if free then Releasing else Critical (n - 1)))"
proof -
  have o: "mcount m \<noteq> 1" "owner m = Some c" "\<And>u. holds (pc u) \<longleftrightarrow> u = c"
    using holder_is_owner [OF h, of c] c(1) by (auto simp: c(1))
  have r: "recursive_count m = n" "mcount m \<le> 1" "n < 2 ^ 32" using h c(1) by (auto simp: holder_inv_def)
  have u: "pc t \<noteq> Critical k" "pc t \<noteq> Releasing" if "t \<noteq> c" for t k using o(3) [of t] that by auto
  show ?thesis
  proof (cases "n = 0")
    case True
    then have "unlock_begin m = Some (True, m)" using o(1) r(1) by (simp add: unlock_begin_def mutex_is_locked_def)
    moreover have "holder_inv (m, s', pc(c := Releasing))" using o r u True by (auto simp: holder_inv_def)
    ultimately show ?thesis using True o(1) by auto
  next
    case False
    let ?m = "m\<lparr>recursive_count := n - 1\<rparr>"
    have "unlock_begin m = Some (False, ?m)" using o(1) r(1) False by (simp add: unlock_begin_def mutex_is_locked_def)
    moreover have "holder_inv (?m, s', pc(c := Critical (n - 1)))" using o r u False by (auto simp: holder_inv_def)
    ultimately show ?thesis using False o(1) by auto
  qed
qed

lemma holder_release:
  assumes h: "holder_inv (m, s, pc)" and c: "pc c = Releasing"
  shows "holder_inv (unlock_release m, s', pc(c := Waking))"
proof -
  have "\<And>u. holds (pc u) \<longleftrightarrow> u = c" using holder_is_owner [OF h, of c] c by (auto simp: c)
  then have n: "\<not> holds (pc t)" if "t \<noteq> c" for t using that by simp
  have e: "pc t \<noteq> Critical k" "pc t \<noteq> Releasing" if "t \<noteq> c" for t k using n [OF that] by auto
  have "\<not> holds ((pc(c := Waking)) t)" "(pc(c := Waking)) t \<noteq> Critical k" "(pc(c := Waking)) t \<noteq> Releasing" for t k
    using n [of t] e [of t] by simp_all
  moreover have "recursive_count m = 0" using h c by (auto simp: holder_inv_def)
  ultimately show ?thesis by (simp add: holder_inv_def unlock_release_def del: fun_upd_apply)
qed
subsection \<open>Every step keeps the invariant\<close>

definition mutex_inv :: "msys \<Rightarrow> bool" where
  "mutex_inv x \<longleftrightarrow> queue_inv x \<and> holder_inv x \<and> wakeup_inv x"

lemma queue_pc:
  "queue_inv (m, s, pc) \<Longrightarrow> pc c \<noteq> Sleeping \<Longrightarrow> p \<noteq> Sleeping \<Longrightarrow> p \<noteq> Woken \<Longrightarrow> tcb_list m' = tcb_list m \<Longrightarrow>
    queue_inv (m', s, pc(c := p))"
  by (auto simp: queue_inv_def)

lemma wakeup_locked: "mcount m \<noteq> 1 \<Longrightarrow> wakeup_inv (m, s, pc)"
  by (simp add: wakeup_inv_def)

lemma wakeup_pc_irrelevant: "wakeup_inv (m, s, pc) \<Longrightarrow> wakeup_inv (m, s', pc)"
  by (simp add: wakeup_inv_def)

lemma holder_kernel_irrelevant: "holder_inv (m, s, pc) \<Longrightarrow> holder_inv (m, s', pc)"
  by (simp add: holder_inv_def)

lemma after_lock_alt: "(case r of Acquired \<Rightarrow> Critical 0 | Blocked \<Rightarrow> Sleeping) = after_lock r"
  by (simp add: after_lock_def)

lemma mutex_inv_wake:
  assumes i: "mutex_inv (m, s, pc)" and c: "pc c = Waking" and u: "unlock_wake m s = Some (m', s')"
  shows "mutex_inv (m', s', (woken_first m pc)(c := Outside))"
proof -
  have q: "queue_inv (m, s, pc)" and h: "holder_inv (m, s, pc)" using i by (simp_all add: mutex_inv_def)
  have m': "tcb_list m' = tl (tcb_list m)" "mcount m' = mcount m" "owner m' = owner m"
      "recursive_count m' = recursive_count m" "queue_inv (m', s', (woken_first m pc)(c := Outside))"
    using unlock_wake_ok [OF q c] u by auto
  have le: "mcount m \<le> 1" using h by (simp add: holder_inv_def)
  have "holder_inv (m, s, woken_first m pc)"
  proof (cases "tcb_list m")
    case (Cons x r)
    then have "pc x = Sleeping" using q by (auto simp: queue_inv_def)
    then have "holder_inv (m, s, pc(x := Woken))" using holder_skip [OF h, of x Woken m] le by simp
    then show ?thesis using Cons by (simp add: woken_first_def)
  qed (use h in \<open>simp add: woken_first_def\<close>)
  moreover have "\<not> holds (woken_first m pc c)" using c by (simp add: woken_first_def split: list.split)
  ultimately have "holder_inv (m', s', (woken_first m pc)(c := Outside))"
    using holder_skip [of m s "woken_first m pc" c Outside m'] m' le by simp
  moreover have "wakeup_inv (m', s', (woken_first m pc)(c := Outside))"
  proof (cases "tcb_list m")
    case (Cons x r)
    then have "pc x = Sleeping" using q by (auto simp: queue_inv_def)
    then have "((woken_first m pc)(c := Outside)) x = Woken" using Cons c by (auto simp: woken_first_def)
    then show ?thesis unfolding wakeup_inv_def by (simp del: fun_upd_apply) blast
  qed (use m'(1) in \<open>simp add: wakeup_inv_def\<close>)
  ultimately show ?thesis using m'(5) by (simp add: mutex_inv_def)
qed

lemma mstep_inv: "mstep x y \<Longrightarrow> mutex_inv x \<Longrightarrow> mutex_inv y"
proof (induction rule: mstep.induct)
  case (lock s c pc m r m' s')
  then have q: "queue_inv (m, s, pc)" and h: "holder_inv (m, s, pc)" by (simp_all add: mutex_inv_def)
  have l: "lock_enter c m = (r, m')" "queue_inv (m', s', pc(c := after_lock r))"
    using mutex_lock_ok [OF q lock(1,2), of "Critical 0"] lock(3,4) by (auto simp: after_lock_alt)
  then have "holder_inv (m', s', pc(c := after_lock r))" "mcount m' \<noteq> 1"
    using holder_lock_enter [OF h _ l(1)] lock(3) by auto
  then show ?case using l(2) wakeup_locked by (simp add: mutex_inv_def)
next
  case (lock_again s c pc n m r m' s')
  then have q: "queue_inv (m, s, pc)" and h: "holder_inv (m, s, pc)" by (simp_all add: mutex_inv_def)
  note a = holder_lock_again [OF h lock_again(2,3)]
  then have e: "m' = m\<lparr>recursive_count := n + 1, owner := Some c\<rparr>" "s' = s"
    using lock_again(1,4) by (simp_all add: mutex_lock_def wait_if_blocked_def local_irq_save_def)
  have "mcount m \<noteq> 1" using holder_is_owner [OF h, of c] lock_again(2) by simp
  then have "wakeup_inv (m', s', pc(c := Critical (n + 1)))" by (intro wakeup_locked) (simp add: e)
  moreover have "queue_inv (m', s', pc(c := Critical (n + 1)))"
    using queue_pc [OF q, of c "Critical (n + 1)" m'] lock_again(2) e by simp
  ultimately show ?case using a(2) e by (simp add: mutex_inv_def)
next
  case (lock_resume s c pc m r m' s')
  then have q: "queue_inv (m, s, pc)" and h: "holder_inv (m, s, pc)" by (simp_all add: mutex_inv_def)
  have l: "lock_loop c m = (r, m')" "queue_inv (m', s', pc(c := after_lock r))"
    using mutex_lock_resume_ok [OF q lock_resume(1,2), of "Critical 0"] lock_resume(1,3,4)
    by (auto simp: after_lock_alt mutex_lock_resume_def split: if_splits)
  then have "holder_inv (m', s', pc(c := after_lock r))" "mcount m' \<noteq> 1"
    using holder_lock_loop [OF h _ l(1)] lock_resume(3) by auto
  then show ?case using l(2) wakeup_locked by (simp add: mutex_inv_def)
next
  case (unlock s c pc n m free m')
  then have q: "queue_inv (m, s, pc)" and h: "holder_inv (m, s, pc)" by (simp_all add: mutex_inv_def)
  have u: "tcb_list m' = tcb_list m" "mcount m' \<noteq> 1" "holder_inv (m', s, pc(c := if free then Releasing else Critical (n - 1)))"
    using holder_unlock [OF h unlock(2), of s] unlock(3) by auto
  then show ?case using queue_pc [OF q, of c "if free then Releasing else Critical (n - 1)" m'] unlock(2) wakeup_locked
    by (simp add: mutex_inv_def)
next
  case (release s c pc m)
  then have q: "queue_inv (m, s, pc)" and h: "holder_inv (m, s, pc)" by (simp_all add: mutex_inv_def)
  have "wakeup_inv (unlock_release m, s, pc(c := Waking))" by (auto simp: wakeup_inv_def)
  then show ?case using queue_pc [OF q, of c Waking "unlock_release m"] release(2) holder_release [OF h release(2)]
    by (simp add: mutex_inv_def unlock_release_def)
next
  case (wake s c pc m m' s')
  then show ?case using mutex_inv_wake by blast
next
  case (irq_mask s c pc m b)
  then show ?case using holder_kernel_irrelevant wakeup_pc_irrelevant by (auto simp: mutex_inv_def queue_inv_def)
next
  case (preempt s s' m pc)
  then have "sched_inv s" by (simp add: mutex_inv_def queue_inv_def)
  then show ?case using preempt schedule_sleeping [of s s'] holder_kernel_irrelevant wakeup_pc_irrelevant
    by (auto simp: mutex_inv_def queue_inv_def)
next
  case (block_elsewhere s c pc s' m)
  then have "sched_inv s" by (simp add: mutex_inv_def queue_inv_def)
  then have "sched_inv s'" "sleeping s' = insert c (sleeping s)"
    using so3_block.block_ok [of s c] block_elsewhere(1,2,4) by auto
  then show ?case using block_elsewhere holder_kernel_irrelevant wakeup_pc_irrelevant
    by (auto simp: mutex_inv_def queue_inv_def)
next
  case (wake_elsewhere t s pc s' m)
  then have "sched_inv s" by (simp add: mutex_inv_def queue_inv_def)
  then have "sched_inv s'" "sleeping s' = sleeping s - {t}"
    using so3_block.wake_ok [of s t] wake_elsewhere(1,3) by auto
  then show ?case using wake_elsewhere holder_kernel_irrelevant wakeup_pc_irrelevant
    by (auto simp: mutex_inv_def queue_inv_def)
qed

lemma mutex_inv_init: "sched_inv s \<Longrightarrow> mutex_inv (mutex_init, s, \<lambda>_. Outside)"
  by (simp add: mutex_inv_def queue_inv_def holder_inv_def wakeup_inv_def mutex_init_def)

lemma mutex_reachable:
  "mstep\<^sup>*\<^sup>* (mutex_init, s0, \<lambda>_. Outside) x \<Longrightarrow> sched_inv s0 \<Longrightarrow> mutex_inv x"
  by (induction rule: rtranclp_induct) (auto intro: mstep_inv mutex_inv_init)

text \<open>A thread that sleeps or was woken in \<open>mutex_lock\<close> has interrupts off in its context.\<close>

definition irq_inv :: "msys \<Rightarrow> bool" where
  "irq_inv = (\<lambda>(m, s, pc). \<forall>t. pc t = Sleeping \<or> pc t = Woken \<longrightarrow> \<not> irqs_on s t)"

lemma unlock_wake_irqs: "unlock_wake m s = Some (m', s') \<Longrightarrow> irqs_on s' = irqs_on s"
  by (auto simp: unlock_wake_def context_of_def split: list.splits Option.bind_splits
      dest!: ready_context schedule_context)

lemma kernel_irqs:
  "schedule s = Some s' \<Longrightarrow> irqs_on s' = irqs_on s" "waiting s = Some s' \<Longrightarrow> irqs_on s' = irqs_on s"
  "ready t s = Some s' \<Longrightarrow> irqs_on s' = irqs_on s"
  by (auto simp: context_of_def dest!: schedule_context waiting_context ready_context)

lemma mstep_irqs: "mstep x y \<Longrightarrow> mutex_inv x \<Longrightarrow> irq_inv x \<Longrightarrow> irq_inv y"
proof (induction rule: mstep.induct)
  case (lock s c pc m r m' s')
  then have q: "queue_inv (m, s, pc)" by (simp add: mutex_inv_def)
  have "irqs_on s' = (if r = Acquired then irqs_on s else (irqs_on s)(c := False))"
    using mutex_lock_ok [OF q lock(1,2), of "Critical 0"] lock(3,4) by auto
  then show ?case using lock(6) by (cases r) (auto simp: irq_inv_def after_lock_def)
next
  case (lock_again s c pc n m r m' s')
  then have h: "holder_inv (m, s, pc)" by (simp add: mutex_inv_def)
  have "s' = s" using holder_lock_again(1) [OF h lock_again(2,3)] lock_again(1,4)
    by (simp add: mutex_lock_def wait_if_blocked_def local_irq_save_def)
  then show ?case using lock_again(6) by (auto simp: irq_inv_def)
next
  case (lock_resume s c pc m r m' s')
  then have q: "queue_inv (m, s, pc)" and o: "\<not> irqs_on s c" by (auto simp: mutex_inv_def irq_inv_def)
  have "irqs_on s' = (if r = Acquired then (irqs_on s)(c := lock_flags s c) else irqs_on s)"
    using mutex_lock_resume_ok [OF q lock_resume(1,2) _ _ _ o, of "Critical 0"] lock_resume(3,4) by auto
  then show ?case using lock_resume(6) o by (cases r) (auto simp: irq_inv_def after_lock_def)
next
  case (wake s c pc m m' s')
  have "pc t = Sleeping" if "t \<in> set (tcb_list m)" for t using wake(4) that by (auto simp: mutex_inv_def queue_inv_def)
  then show ?case using wake(5) unlock_wake_irqs [OF wake(3)]
    by (cases "tcb_list m") (auto simp: irq_inv_def woken_first_def)
next
  case (irq_mask s c pc m b)
  then show ?case by (auto simp: irq_inv_def)
qed (auto simp: irq_inv_def kernel_irqs)

lemma mutex_reachable_irqs:
  "mstep\<^sup>*\<^sup>* (mutex_init, s0, \<lambda>_. Outside) x \<Longrightarrow> sched_inv s0 \<Longrightarrow> irq_inv x"
proof (induction rule: rtranclp_induct)
  case base
  then show ?case by (simp add: irq_inv_def)
next
  case (step y z)
  then show ?case using mstep_irqs [OF step.hyps(2) mutex_reachable [OF step.hyps(1)]] by blast
qed

subsection \<open>The theorems\<close>

text \<open>A run in which thread 1 takes the mutex, is preempted, and thread 2 blocks on it.\<close>

definition ex_locked :: mutex where
  "ex_locked = mutex_init\<lparr>mcount := 0, owner := Some 1\<rparr>"

definition ex_blocked :: mutex where
  "ex_blocked = ex_locked\<lparr>mcount := -1, tcb_list := [2]\<rparr>"

lemma ex_mutex_run:
  "\<exists>s. mstep\<^sup>*\<^sup>* (mutex_init, ex_kernel SCHED_POLICY_RR, \<lambda>_. Outside)
     (ex_blocked, s, (\<lambda>_. Outside)(1 := Critical 0, 2 := Sleeping))"
proof -
  let ?s = "ex_kernel SCHED_POLICY_RR"
  let ?p1 = "(\<lambda>_. Outside)(1 := Critical 0)"
  have i: "sched_inv ?s" by (rule ex_kernel_inv)
  have c: "current_thread ?s = Some 1" by (simp add: ex_kernel_def)
  have "mutex_lock mutex_init ?s = Some (Acquired, ex_locked, ?s)"
    by (simp add: mutex_lock_def c lock_enter_def mutex_is_locked_def mutex_init_def wait_if_blocked_def ex_locked_def local_irq_save_def)
  then have 1: "mstep (mutex_init, ?s, \<lambda>_. Outside) (ex_locked, ?s, ?p1)"
    using mstep.lock [OF c, of "\<lambda>_. Outside" mutex_init Acquired ex_locked ?s]
    by (simp add: not_idle_def after_lock_def ex_kernel_def)
  obtain s1 where s1: "schedule ?s = Some s1" "sched_inv s1" "current_thread s1 = Some 2" "frame_kept ?s s1"
    using rr_step [of ?s 2 "[3]"] i by (auto simp: sched_inv_def ex_kernel_def eligible_def ex_tcb_def)
  have 2: "mstep (ex_locked, ?s, ?p1) (ex_locked, s1, ?p1)" by (rule mstep.preempt) (rule s1(1))
  have n: "not_idle s1 2" using s1(4) by (simp add: not_idle_def frame_kept_def ex_kernel_def)
  let ?s1 = "s1\<lparr>irqs_on := (irqs_on s1)(2 := False), lock_flags := (lock_flags s1)(2 := irqs_on s1 2)\<rparr>"
  obtain s2 where "waiting ?s1 = Some s2" using so3_block.block_ok [of ?s1 2] s1(2,3) n by auto
  then have "mutex_lock ex_locked s1 = Some (Blocked, ex_blocked, s2)"
    by (simp add: mutex_lock_def s1(3) lock_enter_def lock_loop_def Let_def mutex_is_locked_def mutex_init_def
        wait_if_blocked_def ex_locked_def ex_blocked_def local_irq_save_def)
  then have "mstep (ex_locked, s1, ?p1) (ex_blocked, s2, ?p1(2 := after_lock Blocked))"
    by (intro mstep.lock [OF s1(3) n]) simp_all
  then have "mstep (ex_locked, s1, ?p1) (ex_blocked, s2, ?p1(2 := Sleeping))" by (simp add: after_lock_def)
  then show ?thesis using 1 2 by (intro exI [of _ s2]) (auto intro: rtranclp.rtrancl_into_rtrancl)
qed

text \<open>
  C2. Mutual exclusion: however the threads' calls are interleaved with preemption and with
  blocking elsewhere, at most one thread is between \<open>mutex_lock\<close> and the store that frees the
  mutex, it is the recorded owner, and a nested lock is given back as often as it was taken
  (the recursion counter is the nesting depth).
\<close>

theorem mutex_exclusion:
  assumes "sched_inv s0" "mstep\<^sup>*\<^sup>* (mutex_init, s0, \<lambda>_. Outside) (m, s, pc)"
  shows "(\<forall>t u. holds (pc t) \<and> holds (pc u) \<longrightarrow> t = u) \<and>
    (\<forall>t. holds (pc t) \<longrightarrow> owner m = Some t \<and> mutex_is_locked m) \<and>
    (\<forall>t n. pc t = Critical n \<longrightarrow> recursive_count m = n)"
proof -
  have h: "holder_inv (m, s, pc)" using mutex_reachable [OF assms(2,1)] by (simp add: mutex_inv_def)
  show ?thesis using holder_is_owner [OF h] h by (auto simp: mutex_is_locked_def holder_inv_def)
qed

theorem mutex_exclusion_witness:
  "owner ex_blocked = Some 1 \<and> mutex_is_locked ex_blocked"
proof -
  obtain s where "mstep\<^sup>*\<^sup>* (mutex_init, ex_kernel SCHED_POLICY_RR, \<lambda>_. Outside)
     (ex_blocked, s, (\<lambda>_. Outside)(1 := Critical 0, 2 := Sleeping))"
    using ex_mutex_run by blast
  from mutex_exclusion [OF ex_kernel_inv this]
  have "holds (((\<lambda>_. Outside)((1::nat) := Critical 0, 2 := Sleeping)) 1) \<longrightarrow>
    owner ex_blocked = Some 1 \<and> mutex_is_locked ex_blocked" by blast
  then show ?thesis by simp
qed

text \<open>
  C3. No wake-up is lost: the waiting list of the mutex holds exactly the threads blocked on
  it, and as long as it is not empty there is a thread that will move it on: the holder, a
  thread about to wake the first waiter, or a woken thread that is not asleep and will try
  again.
\<close>

theorem mutex_no_lost_wakeup:
  assumes "sched_inv s0" "mstep\<^sup>*\<^sup>* (mutex_init, s0, \<lambda>_. Outside) (m, s, pc)"
  shows "distinct (tcb_list m) \<and> set (tcb_list m) = {t. pc t = Sleeping} \<and> set (tcb_list m) \<subseteq> sleeping s \<and>
    (tcb_list m \<noteq> [] \<longrightarrow> (\<exists>t. holds (pc t) \<or> pc t = Waking \<or> pc t = Woken \<and> t \<notin> sleeping s))"
proof -
  have i: "queue_inv (m, s, pc)" "holder_inv (m, s, pc)" "wakeup_inv (m, s, pc)"
    using mutex_reachable [OF assms(2,1)] by (simp_all add: mutex_inv_def)
  have "\<exists>t. holds (pc t) \<or> pc t = Waking \<or> pc t = Woken \<and> t \<notin> sleeping s" if l: "tcb_list m \<noteq> []"
  proof (cases "mcount m = 1")
    case True
    then show ?thesis using i(1,3) l by (auto simp: wakeup_inv_def queue_inv_def)
  next
    case False
    then show ?thesis using i(2) by (auto simp: holder_inv_def)
  qed
  moreover have "distinct (tcb_list m)" "set (tcb_list m) = {t. pc t = Sleeping}" "set (tcb_list m) \<subseteq> sleeping s"
    using i(1) by (auto simp: queue_inv_def)
  ultimately show ?thesis by blast
qed

theorem mutex_no_lost_wakeup_witness:
  "\<exists>s. set (tcb_list ex_blocked) \<subseteq> sleeping s \<and> 2 \<in> sleeping s"
proof -
  obtain s where "mstep\<^sup>*\<^sup>* (mutex_init, ex_kernel SCHED_POLICY_RR, \<lambda>_. Outside)
     (ex_blocked, s, (\<lambda>_. Outside)(1 := Critical 0, 2 := Sleeping))"
    using ex_mutex_run by blast
  from mutex_no_lost_wakeup [OF ex_kernel_inv this] show ?thesis by (auto simp: ex_blocked_def)
qed

text \<open>
  C28. The operations never hit one of their \<open>BUG_ON\<close>s, on the mutex and on the interrupt mask, and
  never find the current thread asleep: whatever the current thread has to do next, locking,
  nested locking, trying again after a wake-up, unlocking or waking the next waiter, returns,
  and a free mutex is taken. A call of \<open>mutex_lock\<close> that takes the mutex at once leaves the kernel
  and its interrupt mask as they were, and one that takes it after a sleep restores the mask that
  it saved.
\<close>

theorem mutex_calls_return:
  assumes "sched_inv s0" "mstep\<^sup>*\<^sup>* (mutex_init, s0, \<lambda>_. Outside) (m, s, pc)" "current_thread s = Some c" "not_idle s c"
  shows "pc c \<noteq> Sleeping \<and>
    (\<exists>r m' s'. mutex_lock m s = Some (r, m', s') \<and> (mcount m = 1 \<longrightarrow> r = Acquired) \<and> (r = Acquired \<longrightarrow> s' = s)) \<and>
    (pc c = Woken \<longrightarrow> (\<exists>r m' s'. mutex_lock_resume m s = Some (r, m', s') \<and> (mcount m = 1 \<longrightarrow> r = Acquired) \<and>
      (r = Acquired \<longrightarrow> irqs_on s' c = lock_flags s c))) \<and>
    (\<forall>n. pc c = Critical n \<longrightarrow> (\<exists>free m'. unlock_begin m = Some (free, m') \<and> (free \<longleftrightarrow> n = 0))) \<and>
    (pc c = Waking \<longrightarrow> unlock_wake m s \<noteq> None)"
proof -
  have i: "queue_inv (m, s, pc)" "holder_inv (m, s, pc)"
    using mutex_reachable [OF assms(2,1)] by (simp_all add: mutex_inv_def)
  then have "c \<notin> sleeping s" using so3_block.cur_awake assms(3) by (auto simp: queue_inv_def)
  then have sl: "pc c \<noteq> Sleeping" using i(1) by (auto simp: queue_inv_def)
  have fr: "mcount m = 1 \<longrightarrow> fst (lock_enter c m) = Acquired \<and> fst (lock_loop c m) = Acquired"
    by (simp add: lock_enter_def lock_loop_def mutex_is_locked_def)
  obtain r m' s' where l: "mutex_lock m s = Some (r, m', s')" "lock_enter c m = (r, m')"
    using mutex_lock_ok [OF i(1) assms(3,4) sl, of Outside] by auto
  then have "r = Acquired \<longrightarrow> s' = s"
    using assms(3) by (auto simp: mutex_lock_def wait_if_blocked_def local_irq_save_def)
  then have "\<exists>r m' s'. mutex_lock m s = Some (r, m', s') \<and> (mcount m = 1 \<longrightarrow> r = Acquired) \<and> (r = Acquired \<longrightarrow> s' = s)"
    using l fr by auto
  moreover have "\<exists>r m' s'. mutex_lock_resume m s = Some (r, m', s') \<and> (mcount m = 1 \<longrightarrow> r = Acquired) \<and>
      (r = Acquired \<longrightarrow> irqs_on s' c = lock_flags s c)" if w: "pc c = Woken"
  proof -
    have "\<not> irqs_on s c" using mutex_reachable_irqs [OF assms(2,1)] w by (simp add: irq_inv_def)
    then show ?thesis using mutex_lock_resume_ok [OF i(1) assms(3,4) sl, of Outside] fr by fastforce
  qed
  moreover have "\<exists>free m'. unlock_begin m = Some (free, m') \<and> (free \<longleftrightarrow> n = 0)" if "pc c = Critical n" for n
    using holder_unlock [OF i(2) that] by blast
  moreover have "unlock_wake m s \<noteq> None" if "pc c = Waking" using unlock_wake_ok [OF i(1) that] by auto
  ultimately show ?thesis using sl by blast
qed

theorem mutex_calls_return_witness:
  "\<exists>r m' s'. mutex_lock mutex_init (ex_kernel SCHED_POLICY_RR) = Some (r, m', s') \<and> r = Acquired"
proof -
  have "current_thread (ex_kernel SCHED_POLICY_RR) = Some 1" "not_idle (ex_kernel SCHED_POLICY_RR) 1"
    by (simp_all add: ex_kernel_def not_idle_def)
  from mutex_calls_return [OF ex_kernel_inv rtranclp.rtrancl_refl this] show ?thesis
    by (auto simp: mutex_init_def)
qed

end
