(* ===== verification/So3_Ipc.thy ===== *)
theory So3_Ipc
  imports So3_Mutex
begin

section \<open>Completions and semaphores\<close>

text \<open>
  Model of \<open>so3/ipc/completion.c\<close> and \<open>so3/ipc/semaphore.c\<close> over the scheduler. As for mutexes, a
  function that sleeps is cut at its call of \<open>waiting\<close>: the \<open>_resume\<close> part is what the thread
  does when it is scheduled again. The bodies of the semaphore functions run under the
  semaphore's mutex, so each is one step; the gap between the release of this mutex and the
  call of \<open>waiting\<close> is a point where the thread can be preempted. The request for a scheduling
  softirq at the end of \<open>complete\<close> is left to the scheduling steps.
\<close>

subsection \<open>Completions\<close>

datatype wait_outcome = Passed | Suspended

definition init_completion :: completion where
  "init_completion = \<lparr>ccount = 0, cwaiters = []\<rparr>"

definition reinit_completion :: "completion \<Rightarrow> completion" where
  "reinit_completion x = x\<lparr>ccount := 0\<rparr>"

text \<open>The loop \<open>while (!completion->count) waiting();\<close> and the decrement behind it.\<close>

definition wait_loop :: "completion \<Rightarrow> kernel \<Rightarrow> (wait_outcome \<times> completion \<times> kernel) option" where
  "wait_loop x s =
     (if ccount x = 0 then do { s1 \<leftarrow> waiting s; Some (Suspended, x, s1) }
      else Some (Passed, x\<lparr>ccount := ccount x - 1\<rparr>, s))"

text \<open>The same with the restored interrupt mask at the end; \<open>flags\<close> is the mask that was saved.\<close>

definition wait_resume :: "nat \<Rightarrow> bool \<Rightarrow> completion \<Rightarrow> kernel \<Rightarrow> (wait_outcome \<times> completion \<times> kernel) option" where
  "wait_resume c flags x s =
     do {
       (r, x1, s1) \<leftarrow> wait_loop x s;
       Some (r, x1, if r = Passed then local_irq_restore c flags s1 else s1)
     }"

definition wait_for_completion :: "completion \<Rightarrow> kernel \<Rightarrow> (wait_outcome \<times> completion \<times> kernel) option" where
  "wait_for_completion x s =
     do {
       c \<leftarrow> current_thread s;
       if in_interrupt s \<or> \<not> irqs_on s c then None
       else do {
         let (flags, s1) = local_irq_save c s;
         wait_resume c flags (if ccount x = 0 then x\<lparr>cwaiters := cwaiters x @ [c]\<rparr> else x) s1
       }
     }"

definition complete :: "completion \<Rightarrow> kernel \<Rightarrow> (completion \<times> kernel) option" where
  "complete x s =
     (let x1 = x\<lparr>ccount := (ccount x + 1) mod 2 ^ 32\<rparr>
      in case cwaiters x1 of
           [] \<Rightarrow> Some (x1, s)
         | t # ts \<Rightarrow> do { s1 \<leftarrow> ready t s; Some (x1\<lparr>cwaiters := ts\<rparr>, s1) })"

definition complete_all :: "completion \<Rightarrow> kernel \<Rightarrow> (completion \<times> kernel) option" where
  "complete_all x s =
     do {
       s1 \<leftarrow> wake_all ready (cwaiters x) s;
       Some (reinit_completion (x\<lparr>cwaiters := []\<rparr>), s1)
     }"

definition waiters_ok :: "completion \<Rightarrow> kernel \<Rightarrow> bool" where
  "waiters_ok x s \<longleftrightarrow> sched_inv s \<and> distinct (cwaiters x) \<and> set (cwaiters x) \<subseteq> sleeping s \<and> ccount x < 2 ^ 32"

subsection \<open>Semaphores\<close>

record sem =
  val :: nat
  scount :: int
  stcb_list :: "nat list"

definition sem_init :: sem where
  "sem_init = \<lparr>val = 1, scount = 1, stcb_list = []\<rparr>"

datatype down_outcome = Down_ok | Down_wait | Down_locked

text \<open>
  One turn of the loop of \<open>sem_timeddown\<close>, under the mutex of the semaphore: the semaphore is
  taken, or the thread is queued and has to call \<open>waiting\<close>. \<open>Down_locked\<close> is the early exit of
  the loop that leaves the mutex of the semaphore locked.
\<close>

definition sem_down_turn :: "nat \<Rightarrow> sem \<Rightarrow> down_outcome \<times> sem" where
  "sem_down_turn c x =
     (if val x = 0
      then let x1 = (if scount x \<ge> 0 then x\<lparr>scount := -1\<rparr> else x)
           in if scount x \<ge> 0 \<and> scount x = 1 then (Down_locked, x1)
              else (Down_wait, x1\<lparr>stcb_list := stcb_list x1 @ [c]\<rparr>)
      else (Down_ok, x\<lparr>scount := 0, val := val x - 1\<rparr>))"

text \<open>What a thread does whose sleep ended with its timeout: it leaves the list, if it is still there.\<close>

definition sem_timeout :: "nat \<Rightarrow> sem \<Rightarrow> int \<times> sem" where
  "sem_timeout c x = (-1, if c \<in> set (stcb_list x) then x\<lparr>stcb_list := remove1 c (stcb_list x)\<rparr> else x)"

definition sem_up :: "sem \<Rightarrow> kernel \<Rightarrow> (sem \<times> kernel) option" where
  "sem_up x s =
     (let x1 = x\<lparr>val := (val x + 1) mod 2 ^ 32, scount := 1\<rparr>
      in case stcb_list x1 of
           [] \<Rightarrow> Some (x1, s)
         | t # ts \<Rightarrow> do { s1 \<leftarrow> wake_up t s; s2 \<leftarrow> schedule s1; Some (x1\<lparr>stcb_list := ts\<rparr>, s2) })"

definition sem_down_step :: "sem \<Rightarrow> kernel \<Rightarrow> (down_outcome \<times> sem) option" where
  "sem_down_step x s = do { c \<leftarrow> current_thread s; Some (sem_down_turn c x) }"

text \<open>
  The interleaved use of a semaphore by the threads of a set \<open>P\<close>, with the numbers of successful
  \<open>sem_down\<close> and of \<open>sem_up\<close> so far. Only the current thread moves; scheduling steps happen at any
  time, and a timer or another part of the kernel may wake threads of \<open>P\<close>.
\<close>

type_synonym semsys = "sem \<times> kernel \<times> nat \<times> nat"

inductive sem_step :: "nat set \<Rightarrow> semsys \<Rightarrow> semsys \<Rightarrow> bool" for P where
  down: "current_thread s = Some c \<Longrightarrow> c \<in> P \<Longrightarrow> sem_down_step x s = Some (r, x1) \<Longrightarrow>
    sem_step P (x, s, d, u) (x1, s, if r = Down_wait then d else d + 1, u)"
| sleep: "current_thread s = Some c \<Longrightarrow> c \<in> P \<Longrightarrow> not_idle s c \<Longrightarrow> waiting s = Some s1 \<Longrightarrow>
    sem_step P (x, s, d, u) (x, s1, d, u)"
| timed_out: "current_thread s = Some c \<Longrightarrow> c \<in> P \<Longrightarrow> sem_step P (x, s, d, u) (snd (sem_timeout c x), s, d, u)"
| up: "current_thread s = Some c \<Longrightarrow> c \<in> P \<Longrightarrow> sem_up x s = Some (x1, s1) \<Longrightarrow>
    sem_step P (x, s, d, u) (x1, s1, d, u + 1)"
| woken: "t \<in> P \<Longrightarrow> wake_up t s = Some s1 \<Longrightarrow> sem_step P (x, s, d, u) (x, s1, d, u)"
| switched: "schedule s = Some s1 \<Longrightarrow> sem_step P (x, s, d, u) (x, s1, d, u)"

subsection \<open>Completions: proofs\<close>

lemma wait_loop_suspends:
  assumes "sched_inv s" "current_thread s = Some c" "not_idle s c" "ccount x = 0"
  shows "\<exists>s'. wait_loop x s = Some (Suspended, x, s') \<and> sched_inv s' \<and> sleeping s' = insert c (sleeping s)"
  using so3_block.block_ok [OF assms(1-3)] assms(4) by (auto simp: wait_loop_def)

lemma complete_ok:
  assumes "waiters_ok x s" "ccount x + 1 < 2 ^ 32"
  shows "\<exists>x' s'. complete x s = Some (x', s') \<and> waiters_ok x' s' \<and> ccount x' = ccount x + 1 \<and>
    cwaiters x' = tl (cwaiters x) \<and> sleeping s' = sleeping s - set (take 1 (cwaiters x)) \<and>
    current_thread s' = current_thread s"
proof (cases "cwaiters x")
  case Nil
  then show ?thesis using assms by (auto simp: complete_def waiters_ok_def Let_def)
next
  case (Cons t ts)
  then have "sched_inv s" "t \<in> sleeping s" using assms(1) by (auto simp: waiters_ok_def)
  then obtain s' where s': "ready t s = Some s'" "sched_inv s'" "sleeping s' = sleeping s - {t}"
      "current_thread s' = current_thread s"
    using so3_block.wake_ok by blast
  then show ?thesis using assms Cons by (auto simp: complete_def waiters_ok_def Let_def)
qed

lemma wait_passes:
  assumes "0 < ccount x" "current_thread s = Some c" "\<not> in_interrupt s" "irqs_on s c"
  shows "wait_for_completion x s = Some (Passed, x\<lparr>ccount := ccount x - 1\<rparr>, s)"
  using assms irq_saved [of c s]
  by (simp add: wait_for_completion_def wait_resume_def wait_loop_def local_irq_save_def)

lemma wait_suspends:
  assumes "sched_inv s" "current_thread s = Some c" "not_idle s c" "\<not> in_interrupt s" "irqs_on s c" "ccount x = 0"
  shows "\<exists>s'. wait_for_completion x s = Some (Suspended, x\<lparr>cwaiters := cwaiters x @ [c]\<rparr>, s') \<and> sched_inv s' \<and>
    sleeping s' = insert c (sleeping s)"
proof -
  let ?x = "x\<lparr>cwaiters := cwaiters x @ [c]\<rparr>"
  let ?s = "s\<lparr>irqs_on := (irqs_on s)(c := False)\<rparr>"
  obtain s' where "wait_loop ?x ?s = Some (Suspended, ?x, s')" "sched_inv s'" "sleeping s' = insert c (sleeping s)"
    using wait_loop_suspends [of ?s c ?x] assms by auto
  then show ?thesis using assms by (auto simp: wait_for_completion_def wait_resume_def local_irq_save_def)
qed

lemma wait_queue_ok:
  assumes "waiters_ok x s" "current_thread s = Some c" "not_idle s c" "\<not> in_interrupt s" "irqs_on s c"
  shows "\<exists>r x' s'. wait_for_completion x s = Some (r, x', s') \<and> waiters_ok x' s' \<and>
    (r = Passed \<longleftrightarrow> ccount x > 0) \<and>
    (r = Passed \<longrightarrow> ccount x' = ccount x - 1 \<and> s' = s \<and> cwaiters x' = cwaiters x) \<and>
    (r = Suspended \<longrightarrow> ccount x' = 0 \<and> cwaiters x' = cwaiters x @ [c] \<and> sleeping s' = insert c (sleeping s))"
proof (cases "ccount x = 0")
  case True
  have "c \<notin> set (cwaiters x)" using so3_block.cur_awake assms(1,2) by (auto simp: waiters_ok_def)
  then show ?thesis using wait_suspends [of s c x] assms True by (auto simp: waiters_ok_def)
next
  case False
  then have "wait_for_completion x s = Some (Passed, x\<lparr>ccount := ccount x - 1\<rparr>, s)"
    using wait_passes [OF _ assms(2,4,5)] by simp
  then show ?thesis using assms(1) False by (auto simp: waiters_ok_def)
qed

text \<open>
  C29. Hand-over: a thread that waits on a fresh completion, outside interrupt context and with
  interrupts enabled as the function demands, goes to sleep; one \<open>complete\<close> makes it ready, and
  when it runs it passes, with interrupts enabled again, and leaves the completion as it was at
  the beginning.
\<close>

theorem completion_handover:
  assumes "sched_inv s" "current_thread s = Some c" "not_idle s c" "\<not> in_interrupt s" "irqs_on s c"
  shows "\<exists>x1 s1 x2 s2. wait_for_completion init_completion s = Some (Suspended, x1, s1) \<and> c \<in> sleeping s1 \<and>
    complete x1 s1 = Some (x2, s2) \<and> sched_inv s2 \<and> sleeping s2 = sleeping s \<and>
    (\<forall>s3. wait_loop x2 s3 = Some (Passed, init_completion, s3)) \<and>
    (\<forall>s3. wait_resume c True x2 s3 = Some (Passed, init_completion, local_irq_restore c True s3))"
proof -
  have w: "waiters_ok init_completion s" using assms(1) by (simp add: waiters_ok_def init_completion_def)
  obtain x1 s1 where 1: "wait_for_completion init_completion s = Some (Suspended, x1, s1)" "waiters_ok x1 s1"
      "ccount x1 = 0" "cwaiters x1 = [c]" "sleeping s1 = insert c (sleeping s)"
  proof -
    obtain r x1 s1 where r: "wait_for_completion init_completion s = Some (r, x1, s1)" "waiters_ok x1 s1"
        "r = Passed \<longleftrightarrow> ccount init_completion > 0"
        "r = Suspended \<longrightarrow> ccount x1 = 0 \<and> cwaiters x1 = cwaiters init_completion @ [c] \<and> sleeping s1 = insert c (sleeping s)"
      using wait_queue_ok [OF w assms(2-5)] by (elim exE conjE) (rule that)
    then have "r = Suspended" by (cases r) (auto simp: init_completion_def)
    then show thesis using that r by (auto simp: init_completion_def)
  qed
  obtain x2 s2 where 2: "complete x1 s1 = Some (x2, s2)" "waiters_ok x2 s2" "ccount x2 = 1" "cwaiters x2 = []"
      "sleeping s2 = sleeping s1 - {c}"
    using complete_ok [OF 1(2)] 1(3,4) by auto
  have "c \<notin> sleeping s" using so3_block.cur_awake [OF assms(1,2)] .
  then have "sleeping s2 = sleeping s" using 1(5) 2(5) by auto
  moreover have "wait_loop x2 s3 = Some (Passed, init_completion, s3)" for s3
    using 2(3,4) by (cases x2) (simp add: wait_loop_def init_completion_def)
  ultimately show ?thesis using 1 2 by (auto simp: waiters_ok_def wait_resume_def)
qed

theorem completion_handover_witness:
  "\<exists>x1 s1 x2 s2. wait_for_completion init_completion (ex_kernel SCHED_POLICY_RR) = Some (Suspended, x1, s1) \<and>
    complete x1 s1 = Some (x2, s2) \<and> sched_inv s2"
  using completion_handover [OF ex_kernel_inv, of SCHED_POLICY_RR 1]
  by (auto simp: ex_kernel_def not_idle_def)

text \<open>
  C30. \<open>complete_all\<close> does not release its waiters. It makes them ready and empties the list, but
  also clears the counter; a waiter that runs again therefore sleeps again, now without being
  on the list, and no later \<open>complete\<close> wakes anybody.
\<close>

theorem complete_all_strands_waiters:
  assumes "waiters_ok x s"
  shows "\<exists>x1 s1. complete_all x s = Some (x1, s1) \<and> sched_inv s1 \<and> sleeping s1 = sleeping s - set (cwaiters x) \<and>
    (\<forall>s2 t. sched_inv s2 \<and> current_thread s2 = Some t \<and> not_idle s2 t \<longrightarrow>
      (\<exists>s3. wait_loop x1 s2 = Some (Suspended, x1, s3) \<and> t \<in> sleeping s3 \<and>
        (\<exists>x2. complete x1 s3 = Some (x2, s3))))"
proof -
  obtain s1 where s1: "wake_all ready (cwaiters x) s = Some s1" "sched_inv s1" "sleeping s1 = sleeping s - set (cwaiters x)"
    using so3_block.wake_all_ok [of s "cwaiters x"] assms by (auto simp: waiters_ok_def)
  let ?x = "reinit_completion (x\<lparr>cwaiters := []\<rparr>)"
  have "\<exists>s3. wait_loop ?x s2 = Some (Suspended, ?x, s3) \<and> t \<in> sleeping s3 \<and> (\<exists>x2. complete ?x s3 = Some (x2, s3))"
    if a: "sched_inv s2" "current_thread s2 = Some t" "not_idle s2 t" for s2 t
    using wait_loop_suspends [OF a, of ?x] by (auto simp: reinit_completion_def complete_def Let_def)
  then show ?thesis using s1 by (auto simp: complete_all_def)
qed

theorem complete_all_strands_waiters_witness:
  "\<exists>x1 s1. complete_all \<lparr>ccount = 0, cwaiters = [4]\<rparr> (ex_kernel SCHED_POLICY_RR) = Some (x1, s1) \<and> 4 \<notin> sleeping s1"
proof -
  have "4 \<in> sleeping (ex_kernel SCHED_POLICY_RR)" by (simp add: sleeping_def tstate_of_def ex_kernel_def ex_tcb_def)
  then have "waiters_ok \<lparr>ccount = 0, cwaiters = [4]\<rparr> (ex_kernel SCHED_POLICY_RR)"
    using ex_kernel_inv by (simp add: waiters_ok_def)
  from complete_all_strands_waiters [OF this] show ?thesis by auto
qed

subsection \<open>Semaphores: proofs\<close>

definition sem_inv :: "semsys \<Rightarrow> bool" where
  "sem_inv = (\<lambda>(x, s, d, u). u + 1 < 2 ^ 32 \<longrightarrow> val x + d = 1 + u \<and> (val x = 0 \<longrightarrow> scount x \<noteq> 1))"

lemma sem_down_turn_inv:
  assumes "sem_inv (x, s, d, u)" "u + 1 < 2 ^ 32" "sem_down_turn c x = (r, x')"
  shows "r \<noteq> Down_locked" "sem_inv (x', s, if r = Down_wait then d else d + 1, u)"
  using assms by (auto simp: sem_inv_def sem_down_turn_def Let_def split: if_splits)

lemma sem_up_val:
  "sem_up x s = Some (x', s') \<Longrightarrow> val x' = (val x + 1) mod 2 ^ 32 \<and> scount x' = 1 \<and> stcb_list x' = tl (stcb_list x)"
  by (auto simp: sem_up_def Let_def split: list.splits Option.bind_splits)

lemma sem_step_inv: "sem_step P y z \<Longrightarrow> sem_inv y \<Longrightarrow> sem_inv z"
proof (induction rule: sem_step.induct)
  case (down s c x r x1 d u)
  then show ?case using sem_down_turn_inv(2) [of x s d u c r x1]
    by (cases "u + 1 < 2 ^ 32") (auto simp: sem_down_step_def sem_inv_def)
next
  case (up s c x x1 s1 d u)
  then show ?case using sem_up_val [OF up(3)] by (auto simp: sem_inv_def)
qed (auto simp: sem_inv_def sem_timeout_def)

lemma sem_reachable: "(sem_step P)\<^sup>*\<^sup>* (sem_init, s0, 0, 0) z \<Longrightarrow> sem_inv z"
proof (induction rule: rtranclp_induct)
  case base
  then show ?case by (simp add: sem_inv_def sem_init_def)
next
  case (step y z)
  then show ?case using sem_step_inv by blast
qed

text \<open>
  C31. A semaphore neither loses nor invents a token: however the threads' operations are
  interleaved, as long as there were less than \<open>2 ^ 32 - 1\<close> calls of \<open>sem_up\<close>, the value plus the
  number of successful \<open>sem_down\<close> equals one plus the number of \<open>sem_up\<close>; in particular at most
  one more \<open>sem_down\<close> than \<open>sem_up\<close> succeeds. The exit of the loop that would return with the
  mutex locked is never taken.
\<close>

theorem sem_token_conservation:
  assumes "(sem_step P)\<^sup>*\<^sup>* (sem_init, s0, 0, 0) (x, s, downs, ups)" "ups + 1 < 2 ^ 32"
  shows "val x + downs = 1 + ups \<and> downs \<le> 1 + ups \<and> fst (sem_down_turn c x) \<noteq> Down_locked"
proof -
  have i: "sem_inv (x, s, downs, ups)" by (rule sem_reachable [OF assms(1)])
  then have "val x + downs = 1 + ups" using assms(2) by (simp add: sem_inv_def)
  then show ?thesis using sem_down_turn_inv(1) [OF i assms(2), of c] by (cases "sem_down_turn c x") auto
qed

theorem sem_token_conservation_witness:
  "\<exists>x s. (sem_step UNIV)\<^sup>*\<^sup>* (sem_init, ex_kernel SCHED_POLICY_RR, 0, 0) (x, s, 1, 1) \<and> val x + 1 = 1 + (1::nat)"
proof -
  let ?s = "ex_kernel SCHED_POLICY_RR"
  have c: "current_thread ?s = Some 1" by (simp add: ex_kernel_def)
  have d: "sem_down_step sem_init ?s = Some (Down_ok, \<lparr>val = 0, scount = 0, stcb_list = []\<rparr>)"
    by (simp add: sem_down_step_def c sem_down_turn_def sem_init_def)
  have u: "sem_up \<lparr>val = 0, scount = 0, stcb_list = []\<rparr> ?s = Some (sem_init, ?s)" by (simp add: sem_up_def sem_init_def Let_def)
  have r: "(sem_step UNIV)\<^sup>*\<^sup>* (sem_init, ?s, 0, 0) (sem_init, ?s, 1, 1)"
    using sem_step.down [OF c UNIV_I d, of 0 0] sem_step.up [OF c UNIV_I u, of 1 0]
    by (auto intro: rtranclp.rtrancl_into_rtrancl)
  show ?thesis using sem_token_conservation [OF r, of 0] r by auto
qed

text \<open>What the other threads do neither queues nor wakes \<open>t\<close>.\<close>

definition unlisted :: "nat \<Rightarrow> semsys \<Rightarrow> bool" where
  "unlisted t = (\<lambda>(x, s, d, u). sched_inv s \<and> t \<notin> set (stcb_list x) \<and> tcb_idle s \<noteq> Some t)"

definition asleep :: "nat \<Rightarrow> semsys \<Rightarrow> bool" where
  "asleep t = (\<lambda>(x, s, d, u). t \<in> sleeping s)"

lemma wake_up_ok:
  assumes "sched_inv s" "wake_up t s = Some s'"
  shows "sched_inv s' \<and> sleeping s' = sleeping s - {t} \<and> current_thread s' = current_thread s"
proof (cases "t \<in> sleeping s")
  case True
  then have "ready t s = Some s'" using assms(2) by (auto simp: wake_up_def sleeping_def tstate_of_def split: Option.bind_splits)
  then show ?thesis using so3_block.wake_ok [OF assms(1) True] by auto
next
  case False
  then have "s' = s" using assms(2) by (auto simp: wake_up_def sleeping_def tstate_of_def split: Option.bind_splits if_splits)
  then show ?thesis using assms(1) False by simp
qed

lemma wake_up_idle: "wake_up t s = Some s' \<Longrightarrow> tcb_idle s' = tcb_idle s"
  by (auto simp: wake_up_def context_of_def split: Option.bind_splits if_splits dest!: ready_context)

lemma kernel_idle: "schedule s = Some s' \<Longrightarrow> tcb_idle s' = tcb_idle s" "waiting s = Some s' \<Longrightarrow> tcb_idle s' = tcb_idle s"
  by (auto simp: context_of_def dest!: schedule_context waiting_context)

lemma sem_up_ok:
  assumes "sched_inv s" "sem_up x s = Some (x', s')"
  shows "sched_inv s' \<and> sleeping s' = sleeping s - set (take 1 (stcb_list x)) \<and> tcb_idle s' = tcb_idle s"
proof (cases "stcb_list x")
  case Nil
  then show ?thesis using assms by (simp add: sem_up_def Let_def)
next
  case (Cons t ts)
  then obtain s1 where "wake_up t s = Some s1" "schedule s1 = Some s'"
    using assms(2) by (auto simp: sem_up_def Let_def split: Option.bind_splits)
  then show ?thesis
    using wake_up_ok [OF assms(1)] schedule_sleeping [of s1 s'] kernel_idle(1) [of s1 s'] wake_up_idle [of t s s1] Cons by auto
qed

lemma sem_step_unlisted: "sem_step P y z \<Longrightarrow> t \<notin> P \<Longrightarrow> unlisted t y \<Longrightarrow> unlisted t z \<and> (asleep t y \<longrightarrow> asleep t z)"
proof (induction rule: sem_step.induct)
  case (down s c x r x1 d u)
  then show ?case by (auto simp: unlisted_def asleep_def sem_down_step_def sem_down_turn_def Let_def split: if_splits)
next
  case (sleep s c s1 x d u)
  then have i: "sched_inv s" by (simp add: unlisted_def)
  show ?case using so3_block.block_ok [OF i sleep(1,3)] sleep kernel_idle(2) [OF sleep(4)] by (auto simp: unlisted_def asleep_def)
next
  case (timed_out s c x d u)
  then show ?case by (auto simp: unlisted_def asleep_def sem_timeout_def split: if_splits)
next
  case (up s c x x1 s1 d u)
  then have i: "sched_inv s" by (simp add: unlisted_def)
  show ?case using sem_up_ok [OF i up(3)] sem_up_val [OF up(3)] up(5)
    by (cases "stcb_list x") (auto simp: unlisted_def asleep_def)
next
  case (woken v s s1 x d u)
  then have "sched_inv s" "v \<noteq> t" by (auto simp: unlisted_def)
  then show ?case using wake_up_ok [OF _ woken(2)] wake_up_idle [OF woken(2)] woken(4) by (auto simp: unlisted_def asleep_def)
next
  case (switched s s1 x d u)
  then have "sched_inv s" by (simp add: unlisted_def)
  then show ?case using schedule_sleeping [OF _ switched(1)] kernel_idle(1) [OF switched(1)] switched(3)
    by (auto simp: unlisted_def asleep_def)
qed

lemma sem_steps_unlisted:
  assumes "(sem_step P)\<^sup>*\<^sup>* y z" "t \<notin> P" "unlisted t y"
  shows "unlisted t z" "asleep t y \<Longrightarrow> asleep t z"
proof -
  have "unlisted t z \<and> (asleep t y \<longrightarrow> asleep t z)"
    using assms by (induction rule: rtranclp_induct) (use sem_step_unlisted in blast)+
  then show "unlisted t z" "asleep t y \<Longrightarrow> asleep t z" by simp_all
qed

text \<open>
  C32. The semaphore can lose a wake-up. Suppose a thread \<open>t\<close> found the semaphore taken and queued
  itself, but was preempted before its call of \<open>waiting\<close>, so that it is still ready, and another
  thread calls \<open>sem_up\<close>. The call gives the semaphore back and takes \<open>t\<close> off the list, but does not
  affect its state. Whatever the other threads then do, when \<open>t\<close> continues with its call of
  \<open>waiting\<close> it goes to sleep, and whatever they do after that, it sleeps for ever, unless some
  other part of the kernel wakes it.
\<close>

theorem sem_wakeup_can_be_lost:
  assumes "sched_inv s" "stcb_list x = t # ts" "t \<notin> set ts" "tstate_of s t = Some THREAD_STATE_READY"
  shows "\<exists>x1 s1. sem_up x s = Some (x1, s1) \<and> val x1 = (val x + 1) mod 2 ^ 32 \<and> t \<notin> set (stcb_list x1) \<and>
    (\<forall>d u x2 s2 d2 u2 s3 x4 s4 d4 u4. (sem_step (- {t}))\<^sup>*\<^sup>* (x1, s1, d, u) (x2, s2, d2, u2) \<and>
      current_thread s2 = Some t \<and> waiting s2 = Some s3 \<and>
      (sem_step (- {t}))\<^sup>*\<^sup>* (x2, s3, d2, u2) (x4, s4, d4, u4) \<longrightarrow>
      tstate_of s4 t = Some THREAD_STATE_WAITING \<and> t \<notin> set (stcb_list x4))"
proof -
  obtain c where c: "tcbs s t = Some c" "tstate c = THREAD_STATE_READY" using assms(4) by (auto simp: tstate_of_def)
  then have w: "wake_up t s = Some s" by (simp add: wake_up_def)
  have q: "queues_ok s" using assms(1) by (simp add: sched_inv_def)
  then obtain s1 n where s1: "schedule s = Some s1" "scheduled s n s1" using schedule_spec by blast
  let ?x = "x\<lparr>val := (val x + 1) mod 2 ^ 32, scount := 1, stcb_list := ts\<rparr>"
  have up: "sem_up x s = Some (?x, s1)" using assms(2) w s1(1) by (simp add: sem_up_def Let_def)
  have "tcb_idle s \<noteq> Some t" using q assms(4) by (auto simp: queues_ok_def idle_ok_def)
  then have ul: "unlisted t (?x, s1, d, u)" for d u
    using assms(3) scheduled_inv [OF q s1(2)] kernel_idle(1) [OF s1(1)] by (simp add: unlisted_def)
  have "tstate_of s4 t = Some THREAD_STATE_WAITING \<and> t \<notin> set (stcb_list x4)"
    if r: "(sem_step (- {t}))\<^sup>*\<^sup>* (?x, s1, d, u) (x2, s2, d2, u2)" "current_thread s2 = Some t" "waiting s2 = Some s3"
      "(sem_step (- {t}))\<^sup>*\<^sup>* (x2, s3, d2, u2) (x4, s4, d4, u4)" for d u x2 s2 d2 u2 s3 x4 s4 d4 u4
  proof -
    have "unlisted t (x2, s2, d2, u2)" using sem_steps_unlisted(1) [OF r(1) _ ul] by simp
    then have u2: "sched_inv s2" "t \<notin> set (stcb_list x2)" "not_idle s2 t" by (simp_all add: unlisted_def not_idle_def)
    then have "sched_inv s3" "sleeping s3 = insert t (sleeping s2)" using so3_block.block_ok [OF u2(1) r(2) u2(3)] r(3) by auto
    then have "unlisted t (x2, s3, d2, u2)" "asleep t (x2, s3, d2, u2)"
      using u2 kernel_idle(2) [OF r(3)] by (simp_all add: unlisted_def asleep_def not_idle_def)
    then show ?thesis using sem_steps_unlisted [OF r(4), of t] by (auto simp: unlisted_def asleep_def sleeping_def)
  qed
  then show ?thesis using up assms(3) by (intro exI [of _ ?x] exI [of _ s1]) auto
qed

theorem sem_wakeup_can_be_lost_witness:
  "\<exists>x1 s1 s3. sem_up (snd (sem_down_turn 2 (snd (sem_down_turn 1 sem_init)))) (ex_kernel SCHED_POLICY_RR) = Some (x1, s1) \<and>
    val x1 = 1 \<and> current_thread s1 = Some 2 \<and> waiting s1 = Some s3 \<and>
    (\<forall>x4 s4 d4 u4. (sem_step (- {2}))\<^sup>*\<^sup>* (x1, s3, 1, 1) (x4, s4, d4, u4) \<longrightarrow> tstate_of s4 2 = Some THREAD_STATE_WAITING)"
proof -
  let ?s = "ex_kernel SCHED_POLICY_RR"
  let ?x = "snd (sem_down_turn 2 (snd (sem_down_turn 1 sem_init)))"
  have x: "stcb_list ?x = [2]" "val ?x = 0" by (simp_all add: sem_down_turn_def sem_init_def)
  have t: "tstate_of ?s 2 = Some THREAD_STATE_READY" by (simp add: ex_kernel_def ex_tcb_def tstate_of_def)
  obtain s1 where s1: "schedule ?s = Some s1" "sched_inv s1" "current_thread s1 = Some 2" "frame_kept ?s s1"
    using rr_step [of ?s 2 "[3]"] ex_kernel_inv [of SCHED_POLICY_RR]
    by (auto simp: sched_inv_def ex_kernel_def eligible_def ex_tcb_def)
  have n: "not_idle s1 2" using s1(4) by (simp add: not_idle_def frame_kept_def ex_kernel_def)
  obtain s3 where s3: "waiting s1 = Some s3" using so3_block.block_ok [OF s1(2,3) n] by blast
  obtain x1 s1' where u: "sem_up ?x ?s = Some (x1, s1')" "val x1 = (val ?x + 1) mod 2 ^ 32"
    "\<forall>d u x2 s2 d2 u2 s3 x4 s4 d4 u4. (sem_step (- {2}))\<^sup>*\<^sup>* (x1, s1', d, u) (x2, s2, d2, u2) \<and>
      current_thread s2 = Some 2 \<and> waiting s2 = Some s3 \<and>
      (sem_step (- {2}))\<^sup>*\<^sup>* (x2, s3, d2, u2) (x4, s4, d4, u4) \<longrightarrow> tstate_of s4 2 = Some THREAD_STATE_WAITING"
    using sem_wakeup_can_be_lost [OF ex_kernel_inv x(1) _ t] by auto
  have "wake_up 2 ?s = Some ?s" by (simp add: wake_up_def ex_kernel_def ex_tcb_def)
  then have "s1' = s1" using u(1) s1(1) x(1) by (simp add: sem_up_def Let_def)
  moreover have "tstate_of s4 2 = Some THREAD_STATE_WAITING"
    if "(sem_step (- {2}))\<^sup>*\<^sup>* (x1, s3, 1, 1) (x4, s4, d4, u4)" for x4 s4 d4 u4
    using u(3) [rule_format, of 1 1 x1 s1 1 1 s3 x4 s4 d4 u4] that s1(3) s3 \<open>s1' = s1\<close> by simp
  ultimately show ?thesis using u(1,2) x(2) s1(3) s3 by auto
qed

end
