(* ===== verification/So3_Bitmap.thy ===== *)
theory So3_Bitmap
  imports So3_Interfaces "HOL-Library.Word"
begin

section \<open>Bitmaps\<close>

text \<open>
  Model of \<open>so3/kernel/bitmap.c\<close> and \<open>so3/arch/arm64/lib/findbit.c\<close>. A bitmap is the list of its
  64-bit words; the C functions work on whole words with masks for the last one, and the
  theorems relate them to the single bits. A function that writes a destination bitmap
  returns it; \<open>None\<close> stands for an access outside the array or a shift by the word size or
  more, both undefined in C.
\<close>

unbundle bit_operations_syntax

type_synonym word64 = "64 word"
type_synonym bitmap = "word64 list"

subsection \<open>Words and masks\<close>

definition BITS_TO_LONGS :: "nat \<Rightarrow> nat" where
  "BITS_TO_LONGS n = (n + 63) div 64"

definition BITMAP_LAST_WORD_MASK :: "nat \<Rightarrow> word64" where
  "BITMAP_LAST_WORD_MASK nbits = drop_bit ((64 - nbits mod 64) mod 64) (- 1)"

definition low_mask :: "nat \<Rightarrow> word64" where
  "low_mask left = push_bit left 1 - 1"

subsection \<open>Tests\<close>

definition bitmap_empty :: "bitmap \<Rightarrow> nat \<Rightarrow> bool" where
  "bitmap_empty bm bits =
     (let lim = bits div 64
      in list_all (\<lambda>k. bm ! k = 0) [0..<lim] \<and>
         (bits mod 64 \<noteq> 0 \<longrightarrow> bm ! lim AND BITMAP_LAST_WORD_MASK bits = 0))"

definition bitmap_full :: "bitmap \<Rightarrow> nat \<Rightarrow> bool" where
  "bitmap_full bm bits =
     (let lim = bits div 64
      in list_all (\<lambda>k. NOT (bm ! k) = 0) [0..<lim] \<and>
         (bits mod 64 \<noteq> 0 \<longrightarrow> NOT (bm ! lim) AND BITMAP_LAST_WORD_MASK bits = 0))"

definition bitmap_equal :: "bitmap \<Rightarrow> bitmap \<Rightarrow> nat \<Rightarrow> bool" where
  "bitmap_equal b1 b2 bits =
     (let lim = bits div 64
      in list_all (\<lambda>k. b1 ! k = b2 ! k) [0..<lim] \<and>
         (bits mod 64 \<noteq> 0 \<longrightarrow> (b1 ! lim XOR b2 ! lim) AND BITMAP_LAST_WORD_MASK bits = 0))"

definition bitmap_intersects :: "bitmap \<Rightarrow> bitmap \<Rightarrow> nat \<Rightarrow> bool" where
  "bitmap_intersects b1 b2 bits =
     (let lim = bits div 64
      in list_ex (\<lambda>k. b1 ! k AND b2 ! k \<noteq> 0) [0..<lim] \<or>
         (bits mod 64 \<noteq> 0 \<and> (b1 ! lim AND b2 ! lim) AND BITMAP_LAST_WORD_MASK bits \<noteq> 0))"

definition bitmap_subset :: "bitmap \<Rightarrow> bitmap \<Rightarrow> nat \<Rightarrow> bool" where
  "bitmap_subset b1 b2 bits =
     (let lim = bits div 64
      in list_all (\<lambda>k. b1 ! k AND NOT (b2 ! k) = 0) [0..<lim] \<and>
         (bits mod 64 \<noteq> 0 \<longrightarrow> (b1 ! lim AND NOT (b2 ! lim)) AND BITMAP_LAST_WORD_MASK bits = 0))"

subsection \<open>Operations on whole bitmaps\<close>

text \<open>A loop that stores \<open>f k\<close> into the first \<open>n\<close> words.\<close>

definition store_words :: "nat \<Rightarrow> (nat \<Rightarrow> word64) \<Rightarrow> bitmap \<Rightarrow> bitmap" where
  "store_words n f dst = map f [0..<n] @ drop n dst"

definition bitmap_complement :: "bitmap \<Rightarrow> bitmap \<Rightarrow> nat \<Rightarrow> bitmap" where
  "bitmap_complement dst src bits =
     (let lim = bits div 64; d1 = store_words lim (\<lambda>k. NOT (src ! k)) dst
      in if bits mod 64 \<noteq> 0 then d1[lim := NOT (src ! lim) AND BITMAP_LAST_WORD_MASK bits] else d1)"

definition bitmap_and :: "bitmap \<Rightarrow> bitmap \<Rightarrow> bitmap \<Rightarrow> nat \<Rightarrow> bitmap" where
  "bitmap_and dst b1 b2 bits = store_words (BITS_TO_LONGS bits) (\<lambda>k. b1 ! k AND b2 ! k) dst"

definition bitmap_or :: "bitmap \<Rightarrow> bitmap \<Rightarrow> bitmap \<Rightarrow> nat \<Rightarrow> bitmap" where
  "bitmap_or dst b1 b2 bits = store_words (BITS_TO_LONGS bits) (\<lambda>k. b1 ! k OR b2 ! k) dst"

definition bitmap_xor :: "bitmap \<Rightarrow> bitmap \<Rightarrow> bitmap \<Rightarrow> nat \<Rightarrow> bitmap" where
  "bitmap_xor dst b1 b2 bits = store_words (BITS_TO_LONGS bits) (\<lambda>k. b1 ! k XOR b2 ! k) dst"

definition bitmap_andnot :: "bitmap \<Rightarrow> bitmap \<Rightarrow> bitmap \<Rightarrow> nat \<Rightarrow> bitmap" where
  "bitmap_andnot dst b1 b2 bits = store_words (BITS_TO_LONGS bits) (\<lambda>k. b1 ! k AND NOT (b2 ! k)) dst"

text \<open>
  The word \<open>k\<close> of the result of a right shift, as the loop computes it. When the shift is a multiple
  of the word size, the loop shifts \<open>upper\<close> (or, to the left, \<open>lower\<close>), which is 0 then, by the
  whole word size.
\<close>

definition right_word :: "bitmap \<Rightarrow> nat \<Rightarrow> nat \<Rightarrow> nat \<Rightarrow> word64" where
  "right_word src shift bits k =
     (let lim = BITS_TO_LONGS bits; left = bits mod 64; off = shift div 64; rem = shift mod 64;
          msk = low_mask left;
          upper = (if rem = 0 \<or> off + k + 1 \<ge> lim then 0
                   else if off + k + 1 = lim - 1 \<and> left \<noteq> 0 then src ! (off + k + 1) AND msk
                   else src ! (off + k + 1));
          lower = (if left \<noteq> 0 \<and> off + k = lim - 1 then src ! (off + k) AND msk else src ! (off + k));
          d = push_bit (64 - rem) upper OR drop_bit rem lower
      in if left \<noteq> 0 \<and> k = lim - 1 then d AND msk else d)"

definition shift_right_word :: "bitmap \<Rightarrow> nat \<Rightarrow> nat \<Rightarrow> nat \<Rightarrow> word64 option" where
  "shift_right_word src shift bits k = (if 64 - shift mod 64 \<ge> 64 then None else Some (right_word src shift bits k))"

definition bitmap_shift_right :: "bitmap \<Rightarrow> bitmap \<Rightarrow> nat \<Rightarrow> nat \<Rightarrow> bitmap option" where
  "bitmap_shift_right dst src shift bits =
     (let lim = BITS_TO_LONGS bits; off = shift div 64
      in if off > lim then None
         else do {
           ws \<leftarrow> those (map (shift_right_word src shift bits) [0..<lim - off]);
           Some (store_words lim (\<lambda>k. if off + k < lim then ws ! k else 0) dst)
         })"

definition left_word :: "bitmap \<Rightarrow> nat \<Rightarrow> nat \<Rightarrow> nat \<Rightarrow> word64" where
  "left_word src shift bits k =
     (let lim = BITS_TO_LONGS bits; left = bits mod 64; off = shift div 64; rem = shift mod 64;
          lower = (if rem \<noteq> 0 \<and> k > 0 then src ! (k - 1) else 0);
          upper = (if left \<noteq> 0 \<and> k = lim - 1 then src ! k AND low_mask left else src ! k);
          d = drop_bit (64 - rem) lower OR push_bit rem upper
      in if left \<noteq> 0 \<and> k + off = lim - 1 then d AND low_mask left else d)"

definition shift_left_word :: "bitmap \<Rightarrow> nat \<Rightarrow> nat \<Rightarrow> nat \<Rightarrow> word64 option" where
  "shift_left_word src shift bits k = (if 64 - shift mod 64 \<ge> 64 then None else Some (left_word src shift bits k))"

definition bitmap_shift_left :: "bitmap \<Rightarrow> bitmap \<Rightarrow> nat \<Rightarrow> nat \<Rightarrow> bitmap option" where
  "bitmap_shift_left dst src shift bits =
     (let lim = BITS_TO_LONGS bits; off = shift div 64
      in if off > lim then None
         else do {
           ws \<leftarrow> those (map (shift_left_word src shift bits) [0..<lim - off]);
           Some (store_words lim (\<lambda>i. if i \<ge> off then ws ! (i - off) else 0) dst)
         })"

subsection \<open>Regions\<close>

text \<open>The mask of \<open>pages\<close> ones; the shift by \<open>pages - 1\<close> must stay below the word size.\<close>

definition region_mask :: "nat \<Rightarrow> word64 option" where
  "region_mask pages = (if pages - 1 < 64 then let m = push_bit (pages - 1) 1 in Some (m + (m - 1)) else None)"

datatype region_result = Region nat | Err_EINVAL | Err_ENOMEM

function region_scan :: "bitmap \<Rightarrow> word64 \<Rightarrow> nat \<Rightarrow> nat \<Rightarrow> nat \<Rightarrow> region_result \<times> bitmap" where
  "region_scan bm msk pages bits i =
     (if i < bits \<and> 0 < pages
      then if bm ! (i div 64) AND push_bit (i mod 64) msk = 0
           then (Region i, bm[i div 64 := bm ! (i div 64) OR push_bit (i mod 64) msk])
           else region_scan bm msk pages bits (i + pages)
      else (Err_ENOMEM, bm))"
  by pat_completeness auto
termination
  by (relation "measure (\<lambda>(bm, msk, pages, bits, i). bits - i)") auto

declare region_scan.simps [simp del]

definition bitmap_find_free_region :: "bitmap \<Rightarrow> nat \<Rightarrow> nat \<Rightarrow> (region_result \<times> bitmap) option" where
  "bitmap_find_free_region bm bits order =
     (let pages = 2 ^ order
      in if order \<ge> 31 then None
         else if pages > 4 * 64 then Some (Err_EINVAL, bm)
         else do { msk \<leftarrow> region_mask pages; Some (region_scan bm msk pages bits 0) })"

definition bitmap_release_region :: "bitmap \<Rightarrow> nat \<Rightarrow> nat \<Rightarrow> bitmap option" where
  "bitmap_release_region bm pos order =
     do {
       msk \<leftarrow> region_mask (2 ^ order);
       Some (bm[pos div 64 := bm ! (pos div 64) AND NOT (push_bit (pos mod 64) msk)])
     }"

text \<open>The first component is the return value; \<open>EBUSY\<close> is 16.\<close>

definition bitmap_allocate_region :: "bitmap \<Rightarrow> nat \<Rightarrow> nat \<Rightarrow> (int \<times> bitmap) option" where
  "bitmap_allocate_region bm pos order =
     (if (2::nat) ^ order > 64 then None
      else do {
        msk \<leftarrow> region_mask (2 ^ order);
        if bm ! (pos div 64) AND push_bit (pos mod 64) msk \<noteq> 0 then Some (-16, bm)
        else Some (0, bm[pos div 64 := bm ! (pos div 64) OR push_bit (pos mod 64) msk])
      })"

subsection \<open>Searching bits\<close>

definition ffs :: "word64 \<Rightarrow> nat" where
  "ffs w = (case find (bit w) [0..<64] of Some i \<Rightarrow> i | None \<Rightarrow> 64)"

definition ffz :: "word64 \<Rightarrow> nat" where
  "ffz w = ffs (NOT w)"

definition found_first_bit :: "word64 \<Rightarrow> nat \<Rightarrow> nat \<Rightarrow> nat" where
  "found_first_bit tmp sz result =
     (let t = tmp AND drop_bit (64 - sz) (- 1) in if t = 0 then result + sz else result + ffs t)"

fun bit_loop :: "bitmap \<Rightarrow> nat \<Rightarrow> nat \<Rightarrow> nat \<Rightarrow> nat" where
  "bit_loop bm p sz result =
     (if sz \<ge> 64
      then if bm ! p \<noteq> 0 then result + ffs (bm ! p) else bit_loop bm (p + 1) (sz - 64) (result + 64)
      else if sz = 0 then result
      else found_first_bit (bm ! p) sz result)"

declare bit_loop.simps [simp del]

definition find_next_bit :: "bitmap \<Rightarrow> nat \<Rightarrow> nat \<Rightarrow> nat" where
  "find_next_bit bm sz offset =
     (let p = offset div 64; result = offset div 64 * 64
      in if offset \<ge> sz then sz
         else let sz = sz - result; offset = offset mod 64
              in if offset \<noteq> 0
                 then let tmp = bm ! p AND push_bit offset (- 1)
                      in if sz < 64 then found_first_bit tmp sz result
                         else if tmp \<noteq> 0 then result + ffs tmp
                         else bit_loop bm (p + 1) (sz - 64) (result + 64)
                 else bit_loop bm p sz result)"

definition find_first_bit :: "bitmap \<Rightarrow> nat \<Rightarrow> nat" where
  "find_first_bit bm sz = bit_loop bm 0 sz 0"

definition found_first_zero :: "word64 \<Rightarrow> nat \<Rightarrow> nat \<Rightarrow> nat" where
  "found_first_zero tmp sz result =
     (let t = tmp OR push_bit sz (- 1) in if t = - 1 then result + sz else result + ffz t)"

fun zero_loop :: "bitmap \<Rightarrow> nat \<Rightarrow> nat \<Rightarrow> nat \<Rightarrow> nat" where
  "zero_loop bm p sz result =
     (if sz \<ge> 64
      then if NOT (bm ! p) \<noteq> 0 then result + ffz (bm ! p) else zero_loop bm (p + 1) (sz - 64) (result + 64)
      else if sz = 0 then result
      else found_first_zero (bm ! p) sz result)"

declare zero_loop.simps [simp del]

definition find_next_zero_bit :: "bitmap \<Rightarrow> nat \<Rightarrow> nat \<Rightarrow> nat" where
  "find_next_zero_bit bm sz offset =
     (let p = offset div 64; result = offset div 64 * 64
      in if offset \<ge> sz then sz
         else let sz = sz - result; offset = offset mod 64
              in if offset \<noteq> 0
                 then let tmp = bm ! p OR drop_bit (64 - offset) (- 1)
                      in if sz < 64 then found_first_zero tmp sz result
                         else if NOT tmp \<noteq> 0 then result + ffz tmp
                         else zero_loop bm (p + 1) (sz - 64) (result + 64)
                 else zero_loop bm p sz result)"

definition find_first_zero_bit :: "bitmap \<Rightarrow> nat \<Rightarrow> nat" where
  "find_first_zero_bit bm sz = zero_loop bm 0 sz 0"
subsection \<open>Bits of a bitmap\<close>

definition bm_bit :: "bitmap \<Rightarrow> nat \<Rightarrow> bool" where
  "bm_bit bm i \<longleftrightarrow> bit (bm ! (i div 64)) (i mod 64)"

lemma word64_eq_iff: "(v :: word64) = w \<longleftrightarrow> (\<forall>j<64. bit v j \<longleftrightarrow> bit w j)"
  by (auto simp: bit_eq_iff dest: bit_imp_le_length)

lemma bit_last_word_mask [word_bits]:
  "j < 64 \<Longrightarrow> bit (BITMAP_LAST_WORD_MASK bits) j \<longleftrightarrow> bits mod 64 = 0 \<or> j < bits mod 64"
  by (cases "bits mod 64 = 0")
    (auto simp: BITMAP_LAST_WORD_MASK_def bit_drop_bit_eq bit_minus_1_iff bit_mask_iff)

lemma bit_low_mask [word_bits]: "j < 64 \<Longrightarrow> bit (low_mask n) j \<longleftrightarrow> j < n"
proof -
  have "low_mask n = mask n" by (simp add: low_mask_def mask_eq_exp_minus_1 push_bit_eq_mult)
  then show "j < 64 \<Longrightarrow> bit (low_mask n) j \<longleftrightarrow> j < n" by (simp add: bit_mask_iff)
qed

lemma all_bits_split:
  "(\<forall>i<bits. P (i div 64) (i mod 64)) \<longleftrightarrow>
    (\<forall>k<bits div 64. \<forall>j<64. P k j) \<and> (\<forall>j<bits mod 64. P (bits div 64) (j::nat))"
proof safe
  fix k j assume a: "\<forall>i<bits. P (i div 64) (i mod 64)" "k < bits div 64" "(j::nat) < 64"
  have "Suc k * 64 \<le> bits div 64 * 64" using a(2) by (intro mult_le_mono1) simp
  also have "\<dots> \<le> bits" by simp
  finally have "k * 64 + j < bits" using a(3) by simp
  then have "P ((k * 64 + j) div 64) ((k * 64 + j) mod 64)" using a(1) by blast
  then show "P k j" using a(3) by simp
next
  fix j assume a: "\<forall>i<bits. P (i div 64) (i mod 64)" "j < bits mod 64"
  have "bits div 64 * 64 + j < bits" using a(2) by (metis add_less_cancel_left div_mult_mod_eq)
  then have "P ((bits div 64 * 64 + j) div 64) ((bits div 64 * 64 + j) mod 64)" using a(1) by blast
  moreover have "j < 64" using a(2) by (meson less_trans mod_less_divisor zero_less_numeral)
  ultimately show "P (bits div 64) j" by simp
next
  fix i assume a: "\<forall>k<bits div 64. \<forall>j<64. P k j" "\<forall>j<bits mod 64. P (bits div 64) j" "i < bits"
  show "P (i div 64) (i mod 64)"
  proof (cases "i div 64 < bits div 64")
    case False
    then have "i div 64 = bits div 64" using a(3) by (simp add: div_le_mono less_imp_le_nat nat_less_le)
    moreover from this have "i mod 64 < bits mod 64" using a(3) by (metis add_less_cancel_left div_mult_mod_eq)
    ultimately show ?thesis using a(2) by metis
  qed (use a(1) in simp)
qed
subsection \<open>Tests and whole-bitmap operations, bit by bit\<close>

lemma masked_words_zero:
  fixes f :: "nat \<Rightarrow> word64"
  shows "list_all (\<lambda>k. f k = 0) [0..<bits div 64] \<and>
      (bits mod 64 \<noteq> 0 \<longrightarrow> f (bits div 64) AND BITMAP_LAST_WORD_MASK bits = 0) \<longleftrightarrow>
    (\<forall>i<bits. \<not> bit (f (i div 64)) (i mod 64))" (is "?l \<and> ?m \<longleftrightarrow> _")
proof -
  have "?l \<longleftrightarrow> (\<forall>k<bits div 64. \<forall>j<64. \<not> bit (f k) j)"
    by (auto simp: list_all_iff word64_eq_iff)
  moreover have "j < 64" if "j < bits mod 64" for j using that by (meson less_trans mod_less_divisor zero_less_numeral)
  then have "?m \<longleftrightarrow> (\<forall>j<bits mod 64. \<not> bit (f (bits div 64)) j)"
    by (auto simp: word64_eq_iff bit_and_iff word_bits)
  ultimately show ?thesis using all_bits_split [of bits "\<lambda>k j. \<not> bit (f k) j"] by simp
qed

lemma bit_not64: "j < 64 \<Longrightarrow> bit (NOT (w :: word64)) j \<longleftrightarrow> \<not> bit w j"
  by (simp add: bit_not_iff)

lemma tests_bitwise:
  "bitmap_empty b bits \<longleftrightarrow> (\<forall>i<bits. \<not> bm_bit b i)"
  "bitmap_full b bits \<longleftrightarrow> (\<forall>i<bits. bm_bit b i)"
  "bitmap_equal b c bits \<longleftrightarrow> (\<forall>i<bits. bm_bit b i \<longleftrightarrow> bm_bit c i)"
  "bitmap_intersects b c bits \<longleftrightarrow> (\<exists>i<bits. bm_bit b i \<and> bm_bit c i)"
  "bitmap_subset b c bits \<longleftrightarrow> (\<forall>i<bits. bm_bit b i \<longrightarrow> bm_bit c i)"
proof -
  have x: "b ! k = c ! k \<longleftrightarrow> b ! k XOR c ! k = 0" for k by (simp add: bit_eq_iff bit_xor_iff)
  have n: "bit (NOT (w :: word64)) (i mod 64) \<longleftrightarrow> \<not> bit w (i mod 64)" for w i by (simp add: bit_not64)
  show "bitmap_empty b bits \<longleftrightarrow> (\<forall>i<bits. \<not> bm_bit b i)"
    unfolding bitmap_empty_def Let_def bm_bit_def by (rule masked_words_zero)
  show "bitmap_full b bits \<longleftrightarrow> (\<forall>i<bits. bm_bit b i)"
    unfolding bitmap_full_def Let_def bm_bit_def
    using masked_words_zero [of "\<lambda>k. NOT (b ! k)" bits] by (simp add: n)
  show "bitmap_equal b c bits \<longleftrightarrow> (\<forall>i<bits. bm_bit b i \<longleftrightarrow> bm_bit c i)"
    unfolding bitmap_equal_def Let_def bm_bit_def x
    using masked_words_zero [of "\<lambda>k. b ! k XOR c ! k" bits] by (simp add: bit_xor_iff)
  have "bitmap_intersects b c bits \<longleftrightarrow> \<not> (list_all (\<lambda>k. b ! k AND c ! k = 0) [0..<bits div 64] \<and>
      (bits mod 64 \<noteq> 0 \<longrightarrow> (b ! (bits div 64) AND c ! (bits div 64)) AND BITMAP_LAST_WORD_MASK bits = 0))"
    unfolding bitmap_intersects_def Let_def by (auto simp: list_all_iff list_ex_iff)
  then show "bitmap_intersects b c bits \<longleftrightarrow> (\<exists>i<bits. bm_bit b i \<and> bm_bit c i)"
    unfolding bm_bit_def using masked_words_zero [of "\<lambda>k. b ! k AND c ! k" bits] by (auto simp: bit_and_iff)
  show "bitmap_subset b c bits \<longleftrightarrow> (\<forall>i<bits. bm_bit b i \<longrightarrow> bm_bit c i)"
    unfolding bitmap_subset_def Let_def bm_bit_def
    using masked_words_zero [of "\<lambda>k. b ! k AND NOT (c ! k)" bits] by (auto simp: bit_and_iff n)
qed

lemma word_index: "i < bits \<Longrightarrow> i div 64 < BITS_TO_LONGS bits"
proof -
  assume "i < bits"
  have "i div 64 * 64 \<le> i" "(bits + 63) div 64 * 64 + 63 \<ge> bits + 63"
    using div_mult_mod_eq [of "bits + 63" 64] mod_less_divisor [of 64 "bits + 63"] by simp_all
  with \<open>i < bits\<close> have "i div 64 * 64 < (bits + 63) div 64 * 64" by linarith
  then show ?thesis by (simp add: BITS_TO_LONGS_def)
qed

lemma store_words_bit: "i < bits \<Longrightarrow> bm_bit (store_words (BITS_TO_LONGS bits) f dst) i \<longleftrightarrow> bit (f (i div 64)) (i mod 64)"
  using word_index [of i bits] by (simp add: bm_bit_def store_words_def nth_append)

lemma store_words_nth: "k < n \<Longrightarrow> store_words n f dst ! k = f k" "length (store_words n f dst) = max n (length dst)"
  by (simp_all add: store_words_def nth_append max_def)

lemma complement_bitwise:
  assumes "i < bits" "bits \<le> 64 * length dst"
  shows "bm_bit (bitmap_complement dst src bits) i \<longleftrightarrow> \<not> bm_bit src i"
proof (cases "i div 64 < bits div 64")
  case True
  then show ?thesis
    by (simp add: bitmap_complement_def bm_bit_def Let_def store_words_nth nth_list_update bit_not64)
next
  case False
  then have e: "i div 64 = bits div 64" using assms(1) by (simp add: div_le_mono less_imp_le_nat nat_less_le)
  then have m: "i mod 64 < bits mod 64" using assms(1) by (metis add_less_cancel_left div_mult_mod_eq)
  have "bits div 64 * 64 < bits" using m by (metis add_less_cancel_left div_mult_mod_eq gr_implies_not0 add.right_neutral not_gr_zero)
  then have "bits div 64 < length dst" using assms(2) by linarith
  then show ?thesis using m e
    by (simp add: bitmap_complement_def bm_bit_def Let_def store_words_nth nth_list_update bit_and_iff bit_not64 word_bits)
qed
subsection \<open>Shifts, bit by bit\<close>

lemma BITS_TO_LONGS_eq: "BITS_TO_LONGS bits = bits div 64 + (if bits mod 64 = 0 then 0 else 1)"
proof -
  have "bits + 63 = bits div 64 * 64 + (bits mod 64 + 63)" by simp
  then have "(bits + 63) div 64 = bits div 64 + (bits mod 64 + 63) div 64" by (metis div_mult_self3 zero_neq_numeral)
  moreover have "(bits mod 64 + 63) div 64 = (if bits mod 64 = 0 then 0 else 1)"
    using mod_less_divisor [of 64 bits] by (auto simp: div_if)
  ultimately show ?thesis by (simp add: BITS_TO_LONGS_def)
qed

lemma bits_word_iff:
  assumes "p < 64"
  shows "w * 64 + p < bits \<longleftrightarrow>
    w < BITS_TO_LONGS bits \<and> (bits mod 64 = 0 \<or> w \<noteq> BITS_TO_LONGS bits - 1 \<or> p < bits mod 64)"
proof -
  have b: "bits = bits div 64 * 64 + bits mod 64" by simp
  have m: "bits mod 64 < 64" by simp
  consider "w < bits div 64" | "w = bits div 64" | "w > bits div 64" by linarith
  then show ?thesis
  proof cases
    case 1
    then have "w * 64 + 64 \<le> bits div 64 * 64" using mult_le_mono1 [of "Suc w" "bits div 64" 64] by simp
    then have "w * 64 + p < bits" using assms b by linarith
    then show ?thesis using 1 by (simp add: BITS_TO_LONGS_eq)
  next
    case 2
    then have "w * 64 + p < bits \<longleftrightarrow> p < bits mod 64" using b by linarith
    then show ?thesis using 2 by (auto simp: BITS_TO_LONGS_eq)
  next
    case 3
    then have "bits div 64 * 64 + 64 \<le> w * 64" using mult_le_mono1 [of "Suc (bits div 64)" w 64] by simp
    then have "\<not> w * 64 + p < bits" using b m by linarith
    then show ?thesis using 3 by (simp add: BITS_TO_LONGS_eq)
  qed
qed

lemma shifted_index:
  fixes i shift :: nat
  defines "q \<equiv> i mod 64 + shift mod 64"
  shows "i + shift = (shift div 64 + i div 64 + q div 64) * 64 + q mod 64" "q < 128"
    "(i + shift) div 64 = shift div 64 + i div 64 + q div 64" "(i + shift) mod 64 = q mod 64"
proof -
  have "i + shift = (shift div 64 + i div 64) * 64 + q" unfolding q_def
    using div_mult_mod_eq [of i 64] div_mult_mod_eq [of shift 64] by (simp add: algebra_simps)
  then show e: "i + shift = (shift div 64 + i div 64 + q div 64) * 64 + q mod 64" by (simp add: algebra_simps)
  show "q < 128" unfolding q_def using mod_less_divisor [of 64 i] mod_less_divisor [of 64 shift] by linarith
  have "(a * 64 + b) div 64 = a" "(a * 64 + b) mod 64 = b" if "b < 64" for a b :: nat using that by simp_all
  from this [of "q mod 64" "shift div 64 + i div 64 + q div 64"]
  show "(i + shift) div 64 = shift div 64 + i div 64 + q div 64" "(i + shift) mod 64 = q mod 64"
    unfolding e [symmetric] by simp_all
qed

lemma div_mod_below_128:
  assumes "\<not> q < 64" "q < 128"
  shows "q div 64 = 1" "q mod 64 = q - (64::nat)"
proof -
  have "(q - 64) div 64 = 0" "(q - 64) mod 64 = q - 64" using assms by simp_all
  then show "q div 64 = 1" "q mod 64 = q - 64" using assms(1) le_div_geq [of 64 q] le_mod_geq [of 64 q] by linarith+
qed

lemma bit_combine_right:
  fixes upper lower :: word64
  assumes "j < 64" "r < 64"
  shows "bit (push_bit (64 - r) upper OR drop_bit r lower) j \<longleftrightarrow>
    (if j + r < 64 then bit lower (j + r) else bit upper (j + r - 64))"
  using assms by (auto simp: bit_or_iff bit_push_bit_iff bit_drop_bit_eq add.commute dest: bit_imp_le_length)
lemma bit_if_low_mask:
  "p < 64 \<Longrightarrow> bit (if c then w AND low_mask l else w) p \<longleftrightarrow> bit w p \<and> (c \<longrightarrow> p < l)"
  by (simp add: bit_and_iff word_bits)

lemma bit_right_word:
  fixes shift k j bits :: nat
  assumes j: "j < 64" and i: "bits mod 64 = 0 \<or> k \<noteq> BITS_TO_LONGS bits - 1 \<or> j < bits mod 64"
  defines "q \<equiv> j + shift mod 64" and "w \<equiv> shift div 64 + k" and "lim \<equiv> BITS_TO_LONGS bits" and "left \<equiv> bits mod 64"
  shows "bit (right_word src shift bits k) j \<longleftrightarrow>
    (if q < 64 then bit (src ! w) q \<and> (left \<noteq> 0 \<and> w = lim - 1 \<longrightarrow> q < left)
     else w + 1 < lim \<and> bit (src ! (w + 1)) (q - 64) \<and> (w + 1 = lim - 1 \<and> left \<noteq> 0 \<longrightarrow> q - 64 < left))"
proof -
  let ?r = "shift mod 64"
  let ?up = "if ?r = 0 \<or> w + 1 \<ge> lim then 0
    else if w + 1 = lim - 1 \<and> left \<noteq> 0 then src ! (w + 1) AND low_mask left else src ! (w + 1)"
  let ?lo = "if left \<noteq> 0 \<and> w = lim - 1 then src ! w AND low_mask left else src ! w"
  have d: "right_word src shift bits k = (if left \<noteq> 0 \<and> k = lim - 1
      then (push_bit (64 - ?r) ?up OR drop_bit ?r ?lo) AND low_mask left else push_bit (64 - ?r) ?up OR drop_bit ?r ?lo)"
    unfolding right_word_def Let_def w_def lim_def left_def ..
  have r: "?r < 64" by simp
  have i': "(left \<noteq> 0 \<and> k = lim - 1 \<longrightarrow> j < left) \<longleftrightarrow> True" using i unfolding left_def lim_def by auto
  have "bit (right_word src shift bits k) j \<longleftrightarrow> bit (push_bit (64 - ?r) ?up OR drop_bit ?r ?lo) j"
    unfolding d bit_if_low_mask [OF j] i' by (simp only: simp_thms)
  also have "\<dots> \<longleftrightarrow> (if q < 64 then bit ?lo q else bit ?up (q - 64))"
    unfolding bit_combine_right [OF j r] q_def ..
  finally have e: "bit (right_word src shift bits k) j \<longleftrightarrow> (if q < 64 then bit ?lo q else bit ?up (q - 64))" .
  show ?thesis
  proof (cases "q < 64")
    case True
    then show ?thesis unfolding e using bit_if_low_mask [OF True] by (simp only: if_True)
  next
    case False
    have q: "q - 64 < 64" "?r \<noteq> 0" using False j r unfolding q_def by linarith+
    show ?thesis unfolding e
      using False q(2) bit_if_low_mask [OF q(1), of "w + 1 = lim - 1 \<and> left \<noteq> 0" "src ! (w + 1)" left] by auto
  qed
qed

lemma store_words_cong: "(\<And>k. k < n \<Longrightarrow> f k = g k) \<Longrightarrow> store_words n f dst = store_words n g dst"
  by (simp add: store_words_def)

lemma shift_right_defined:
  assumes "shift mod 64 \<noteq> 0 \<or> shift div 64 = BITS_TO_LONGS bits" "shift div 64 \<le> BITS_TO_LONGS bits"
  shows "bitmap_shift_right dst src shift bits = Some (store_words (BITS_TO_LONGS bits)
      (\<lambda>k. if shift div 64 + k < BITS_TO_LONGS bits then right_word src shift bits k else 0) dst)"
proof -
  have "those (map (shift_right_word src shift bits) [0..<BITS_TO_LONGS bits - shift div 64]) =
      Some (map (right_word src shift bits) [0..<BITS_TO_LONGS bits - shift div 64])"
  proof (cases "shift mod 64 = 0")
    case False
    then have "shift_right_word src shift bits = (\<lambda>k. Some (right_word src shift bits k))"
      by (auto simp: shift_right_word_def)
    then show ?thesis by (simp only: those_map_Some)
  qed (use assms in auto)
  then show ?thesis using assms(2) by (auto simp: bitmap_shift_right_def Let_def intro!: store_words_cong)
qed

lemma shift_left_defined:
  assumes "shift mod 64 \<noteq> 0 \<or> shift div 64 = BITS_TO_LONGS bits" "shift div 64 \<le> BITS_TO_LONGS bits"
  shows "bitmap_shift_left dst src shift bits = Some (store_words (BITS_TO_LONGS bits)
      (\<lambda>k. if k \<ge> shift div 64 then left_word src shift bits (k - shift div 64) else 0) dst)"
proof -
  have "those (map (shift_left_word src shift bits) [0..<BITS_TO_LONGS bits - shift div 64]) =
      Some (map (left_word src shift bits) [0..<BITS_TO_LONGS bits - shift div 64])"
  proof (cases "shift mod 64 = 0")
    case False
    then have "shift_left_word src shift bits = (\<lambda>k. Some (left_word src shift bits k))"
      by (auto simp: shift_left_word_def)
    then show ?thesis by (simp only: those_map_Some)
  qed (use assms in auto)
  then show ?thesis using assms(2) by (auto simp: bitmap_shift_left_def Let_def intro!: store_words_cong)
qed

lemma shift_undefined:
  assumes "shift mod 64 = 0" "shift div 64 < BITS_TO_LONGS bits"
  shows "bitmap_shift_right dst src shift bits = None \<and> bitmap_shift_left dst src shift bits = None"
proof -
  obtain n where "BITS_TO_LONGS bits - shift div 64 = Suc n" using assms(2) by (metis Suc_diff_Suc)
  then show ?thesis using assms
    by (simp add: bitmap_shift_right_def bitmap_shift_left_def shift_right_word_def shift_left_word_def upt_conv_Cons Let_def del: upt_Suc)
qed

lemma shift_right_bitwise:
  assumes "shift mod 64 \<noteq> 0 \<or> shift div 64 = BITS_TO_LONGS bits" "shift div 64 \<le> BITS_TO_LONGS bits" "i < bits"
    and d0: "bitmap_shift_right dst src shift bits = Some d"
  shows "bm_bit d i \<longleftrightarrow> i + shift < bits \<and> bm_bit src (i + shift)"
proof -
  let ?w = "shift div 64 + i div 64" and ?lim = "BITS_TO_LONGS bits" and ?left = "bits mod 64"
    and ?q = "i mod 64 + shift mod 64"
  note s = shifted_index [of i shift]
  have d: "bm_bit d i \<longleftrightarrow> ?w < ?lim \<and> bit (right_word src shift bits (i div 64)) (i mod 64)"
    using d0 store_words_bit [OF assms(3)] by (auto simp: shift_right_defined [OF assms(1,2)] split: if_splits)
  have i: "?left = 0 \<or> i div 64 \<noteq> ?lim - 1 \<or> i mod 64 < ?left"
    using bits_word_iff [of "i mod 64" "i div 64" bits] assms(3) by simp
  have t: "i + shift < bits \<longleftrightarrow> ?w + ?q div 64 < ?lim \<and> (?left = 0 \<or> ?w + ?q div 64 \<noteq> ?lim - 1 \<or> ?q mod 64 < ?left)"
    by (subst s(1), rule bits_word_iff) simp
  have b: "bm_bit src (i + shift) \<longleftrightarrow> bit (src ! (?w + ?q div 64)) (?q mod 64)" unfolding bm_bit_def s(3,4) ..
  have c: "bit (right_word src shift bits (i div 64)) (i mod 64) \<longleftrightarrow>
    (if ?q < 64 then bit (src ! ?w) ?q \<and> (?left \<noteq> 0 \<and> ?w = ?lim - 1 \<longrightarrow> ?q < ?left)
     else ?w + 1 < ?lim \<and> bit (src ! (?w + 1)) (?q - 64) \<and> (?w + 1 = ?lim - 1 \<and> ?left \<noteq> 0 \<longrightarrow> ?q - 64 < ?left))"
    by (rule bit_right_word [OF _ i]) simp
  show ?thesis
  proof (cases "?q < 64")
    case True
    then have "?q div 64 = 0" "?q mod 64 = ?q" by simp_all
    then show ?thesis unfolding d c b t using True by (simp only: if_True add_0_right) argo
  next
    case False
    then have "?q div 64 = 1" "?q mod 64 = ?q - 64" using div_mod_below_128 [OF _ s(2)] by simp_all
    then show ?thesis unfolding d c b t using False add_lessD1 [of ?w 1 ?lim] by (simp only: if_False) argo
  qed
qed
lemma bit_combine_left:
  fixes upper lower :: word64
  assumes "j < 64" "r < 64"
  shows "bit (drop_bit (64 - r) lower OR push_bit r upper) j \<longleftrightarrow>
    (if r \<le> j then bit upper (j - r) else bit lower (64 - r + j))"
  using assms by (auto simp: bit_or_iff bit_push_bit_iff bit_drop_bit_eq add.commute dest: bit_imp_le_length)

lemma bit_left_word:
  fixes shift k j bits :: nat
  assumes j: "j < 64" and i: "(k + shift div 64) * 64 + j < bits"
  defines "r \<equiv> shift mod 64"
  shows "bit (left_word src shift bits k) j \<longleftrightarrow>
    (if r \<le> j then bit (src ! k) (j - r) else k > 0 \<and> bit (src ! (k - 1)) (64 - r + j))"
proof -
  let ?lim = "BITS_TO_LONGS bits" and ?left = "bits mod 64"
  let ?lo = "if r \<noteq> 0 \<and> k > 0 then src ! (k - 1) else 0"
  let ?up = "if ?left \<noteq> 0 \<and> k = ?lim - 1 then src ! k AND low_mask ?left else src ! k"
  have d: "left_word src shift bits k = (if ?left \<noteq> 0 \<and> k + shift div 64 = ?lim - 1
      then (drop_bit (64 - r) ?lo OR push_bit r ?up) AND low_mask ?left else drop_bit (64 - r) ?lo OR push_bit r ?up)"
    unfolding left_word_def Let_def r_def ..
  have r: "r < 64" by (simp add: r_def)
  have w: "k + shift div 64 < ?lim" and m: "?left \<noteq> 0 \<and> k + shift div 64 = ?lim - 1 \<longrightarrow> j < ?left"
    using bits_word_iff [OF j, of "k + shift div 64" bits] i by auto
  have "k * 64 + j \<le> (k + shift div 64) * 64 + j" by (simp add: algebra_simps)
  with i have "k * 64 + j < bits" by linarith
  then have m2: "?left \<noteq> 0 \<and> k = ?lim - 1 \<longrightarrow> j - r < ?left" if "r \<le> j"
    using bits_word_iff [OF j, of k bits] by auto
  have e: "bit (left_word src shift bits k) j \<longleftrightarrow> (if r \<le> j then bit ?up (j - r) else bit ?lo (64 - r + j))"
    unfolding d bit_if_low_mask [OF j] bit_combine_left [OF j r] using m by argo
  show ?thesis
  proof (cases "r \<le> j")
    case True
    have "j - r < 64" using j by simp
    then show ?thesis unfolding e bit_if_low_mask [OF \<open>j - r < 64\<close>] using True m2 by argo
  next
    case False
    then show ?thesis unfolding e by auto
  qed
qed
lemma sub_parts:
  fixes a b c d :: nat
  assumes "b < 64" "d < 64"
  defines "i \<equiv> a * 64 + b" and "s \<equiv> c * 64 + d"
  shows "c \<le> a \<Longrightarrow> d \<le> b \<Longrightarrow> s \<le> i \<and> (i - s) div 64 = a - c \<and> (i - s) mod 64 = b - d"
    "c < a \<Longrightarrow> b < d \<Longrightarrow> s \<le> i \<and> (i - s) div 64 = a - c - 1 \<and> (i - s) mod 64 = 64 - d + b"
    "c = a \<Longrightarrow> b < d \<Longrightarrow> i < s"
    "a < c \<Longrightarrow> i < s"
proof -
  have md: "(x * 64 + y) div 64 = x" "(x * 64 + y) mod 64 = y" if "y < 64" for x y :: nat using that by simp_all
  show "s \<le> i \<and> (i - s) div 64 = a - c \<and> (i - s) mod 64 = b - d" if le: "c \<le> a" "d \<le> b"
  proof -
    obtain x where x: "a = c + x" using le(1) le_Suc_ex by blast
    have "i - s = x * 64 + (b - d)" "s \<le> i" using le(2) by (simp_all add: i_def s_def x algebra_simps)
    then show ?thesis using md [of "b - d" x] assms(1) x by simp
  qed
  show "s \<le> i \<and> (i - s) div 64 = a - c - 1 \<and> (i - s) mod 64 = 64 - d + b" if lt: "c < a" "b < d"
  proof -
    obtain x where x: "a = c + x + 1" using less_iff_Suc_add [THEN iffD1, OF lt(1)] by auto
    have "i - s = x * 64 + (64 - d + b)" "s \<le> i" using assms(2) by (simp_all add: i_def s_def x algebra_simps)
    then show ?thesis using md [of "64 - d + b" x] lt(2) assms(2) x by simp
  qed
  show "i < s" if "c = a" "b < d" using that by (simp add: i_def s_def)
  show "i < s" if ac: "a < c"
  proof -
    obtain x where x: "c = a + x + 1" using less_iff_Suc_add [THEN iffD1, OF ac] by auto
    then show ?thesis using assms(1) by (simp add: i_def s_def algebra_simps)
  qed
qed

lemma shift_left_bitwise:
  assumes "shift mod 64 \<noteq> 0 \<or> shift div 64 = BITS_TO_LONGS bits" "shift div 64 \<le> BITS_TO_LONGS bits" "i < bits"
    and d0: "bitmap_shift_left dst src shift bits = Some d"
  shows "bm_bit d i \<longleftrightarrow> shift \<le> i \<and> bm_bit src (i - shift)"
proof -
  let ?k = "i div 64 - shift div 64" and ?j = "i mod 64" and ?r = "shift mod 64"
  have lt: "?j < 64" "?r < 64" by simp_all
  note sub = sub_parts [OF lt, where a = "i div 64" and c = "shift div 64", unfolded div_mult_mod_eq]
  have d: "bm_bit d i \<longleftrightarrow> shift div 64 \<le> i div 64 \<and> bit (left_word src shift bits ?k) ?j"
    using d0 store_words_bit [OF assms(3)] by (auto simp: shift_left_defined [OF assms(1,2)] split: if_splits)
  have b: "bit (left_word src shift bits ?k) ?j \<longleftrightarrow>
      (if ?r \<le> ?j then bit (src ! ?k) (?j - ?r) else ?k > 0 \<and> bit (src ! (?k - 1)) (64 - ?r + ?j))"
    if le: "shift div 64 \<le> i div 64"
  proof -
    have "?k + shift div 64 = i div 64" using le by simp
    then have "(?k + shift div 64) * 64 + ?j < bits" using assms(3) by (simp only: div_mult_mod_eq)
    from bit_left_word [OF lt(1) this] show ?thesis .
  qed
  consider "shift div 64 \<le> i div 64" "?r \<le> ?j" | "shift div 64 < i div 64" "?j < ?r"
    | "shift div 64 = i div 64" "?j < ?r" | "i div 64 < shift div 64" by linarith
  then show ?thesis
  proof cases
    case 1
    then show ?thesis using sub(1) [OF 1] b [OF 1(1)] unfolding d unfolding bm_bit_def by simp
  next
    case 2
    then show ?thesis using sub(2) [OF 2] b unfolding d unfolding bm_bit_def by simp
  next
    case 3
    then show ?thesis using sub(3) [OF 3] b unfolding d by simp
  next
    case 4
    then show ?thesis using sub(4) [OF 4] unfolding d by simp
  qed
qed
subsection \<open>Searching, against a search bit by bit\<close>

text \<open>The reference: the first index from \<open>m\<close> on that satisfies \<open>P\<close>, or \<open>n\<close>.\<close>

definition first_index :: "(nat \<Rightarrow> bool) \<Rightarrow> nat \<Rightarrow> nat \<Rightarrow> nat" where
  "first_index P n m = (case find P [m..<n] of Some i \<Rightarrow> i | None \<Rightarrow> n)"

definition is_first :: "(nat \<Rightarrow> bool) \<Rightarrow> nat \<Rightarrow> nat \<Rightarrow> nat \<Rightarrow> bool" where
  "is_first P m n r \<longleftrightarrow> m \<le> r \<and> r \<le> n \<and> (\<forall>i. m \<le> i \<and> i < r \<longrightarrow> \<not> P i) \<and> (r < n \<longrightarrow> P r)"

lemma first_index_is_first: "m \<le> n \<Longrightarrow> is_first P m n (first_index P n m)"
proof (cases "find P [m..<n]")
  case None
  then have "\<not> P x" if "m \<le> x" "x < n" for x using that by (auto simp: find_None_iff)
  then show "m \<le> n \<Longrightarrow> ?thesis" using None by (auto simp: is_first_def first_index_def)
next
  case (Some i)
  then obtain k where k: "k < n - m" "P (m + k)" "i = m + k" "\<forall>j<k. \<not> P (m + j)"
    by (auto simp: find_Some_iff)
  have "\<not> P l" if "m \<le> l" "l < i" for l
    using k(3,4) that le_Suc_ex [OF that(1)] by auto
  then show ?thesis using Some k by (auto simp: is_first_def first_index_def)
qed

lemma is_first_unique: "is_first P m n r \<Longrightarrow> is_first P m n r' \<Longrightarrow> r = r'"
  unfolding is_first_def by (metis linorder_neqE_nat order_less_le_trans)

lemma is_first_eq: "m \<le> n \<Longrightarrow> is_first P m n r \<Longrightarrow> r = first_index P n m"
  using is_first_unique first_index_is_first by blast

lemma is_first_extend:
  "is_first P m n r \<Longrightarrow> l \<le> m \<Longrightarrow> (\<And>i. l \<le> i \<Longrightarrow> i < m \<Longrightarrow> \<not> P i) \<Longrightarrow> is_first P l n r"
  unfolding is_first_def by (meson le_trans not_le)

lemma ffs_first:
  assumes "w \<noteq> 0"
  shows "ffs w < 64" "bit w (ffs w)" "j < ffs w \<Longrightarrow> \<not> bit w j"
proof -
  obtain j where j: "j < 64" "bit w j" using assms by (auto simp: word64_eq_iff)
  have e: "ffs w = first_index (bit w) 64 0" by (simp add: ffs_def first_index_def)
  have f: "is_first (bit w) 0 64 (ffs w)" unfolding e by (rule first_index_is_first) simp
  have "ffs w \<le> j" using f j by (auto simp: is_first_def not_less)
  then show "ffs w < 64" using j(1) by simp
  then show "bit w (ffs w)" "j < ffs w \<Longrightarrow> \<not> bit w j" for j using f by (simp_all add: is_first_def)
qed

lemma bm_bit_word: "j < 64 \<Longrightarrow> bm_bit bm (64 * p + j) \<longleftrightarrow> bit (bm ! p) j"
  by (simp add: bm_bit_def)

text \<open>A masked word \<open>t\<close> of which the first set bit is searched.\<close>

lemma word_first:
  assumes "t \<noteq> 0" "\<And>j. j < 64 \<Longrightarrow> bit t j \<longleftrightarrow> l \<le> j \<and> j < m \<and> bit (bm ! p) j" "m \<le> 64" "64 * p + m \<le> n"
  shows "is_first (bm_bit bm) (64 * p + l) n (64 * p + ffs t)"
proof -
  note f = ffs_first [OF assms(1)]
  have "l \<le> ffs t" "ffs t < m" "bit (bm ! p) (ffs t)" using f(1,2) assms(2) by auto
  moreover have "\<not> bm_bit bm i" if il: "64 * p + l \<le> i" "i < 64 * p + ffs t" for i
  proof -
    obtain e where "i = 64 * p + l + e" using le_Suc_ex [OF il(1)] by blast
    then have j: "i = 64 * p + (l + e)" "l \<le> l + e" "l + e < ffs t" using il(2) by simp_all
    show ?thesis using j f(1) f(3) [OF j(3)] assms(2) [of "l + e"] bm_bit_word [of "l + e" bm p] \<open>ffs t < m\<close> by auto
  qed
  ultimately show ?thesis using f(1) assms(4) bm_bit_word [of "ffs t" bm p] by (simp add: is_first_def)
qed

lemma word_none:
  assumes "t = 0" "\<And>j. j < 64 \<Longrightarrow> bit t j \<longleftrightarrow> l \<le> j \<and> j < m \<and> bit (bm ! p) j" "m \<le> 64" "64 * p + l \<le> i" "i < 64 * p + m"
  shows "\<not> bm_bit bm i"
proof -
  obtain e where "i = 64 * p + l + e" using le_Suc_ex [OF assms(4)] by blast
  then have "i = 64 * p + (l + e)" "l + e < m" using assms(5) by simp_all
  then show ?thesis using assms(1-3) bm_bit_word [of "l + e" bm p] by auto
qed

lemma found_first_bit_first:
  assumes "\<And>j. j < 64 \<Longrightarrow> bit t j \<longleftrightarrow> l \<le> j \<and> bit (bm ! p) j" "sz < 64" "0 < sz" "l \<le> sz"
  shows "is_first (bm_bit bm) (64 * p + l) (64 * p + sz) (found_first_bit t sz (64 * p))"
proof -
  let ?t = "t AND drop_bit (64 - sz) (- 1)"
  have b: "bit ?t j \<longleftrightarrow> l \<le> j \<and> j < sz \<and> bit (bm ! p) j" if "j < 64" for j
    using that assms(1) [OF that] assms(2) by (auto simp: bit_and_iff bit_drop_bit_eq bit_minus_1_iff bit_mask_iff)
  show ?thesis
  proof (cases "?t = 0")
    case True
    then show ?thesis using word_none [OF True b] assms(2,4)
      by (auto simp: found_first_bit_def is_first_def)
  next
    case False
    then show ?thesis using word_first [OF False b] assms(2)
      by (simp add: found_first_bit_def)
  qed
qed

lemma bit_loop_first: "is_first (bm_bit bm) (64 * p) (64 * p + sz) (bit_loop bm p sz (64 * p))"
proof (induction bm p sz "64 * p" rule: bit_loop.induct)
  case (1 bm p sz)
  have b: "bit (bm ! p) j \<longleftrightarrow> 0 \<le> j \<and> j < 64 \<and> bit (bm ! p) j" if "j < 64" for j using that by simp
  consider "64 \<le> sz" "bm ! p \<noteq> 0" | "64 \<le> sz" "bm ! p = 0" | "sz = 0" | "sz < 64" "0 < sz" by linarith
  then show ?case
  proof cases
    case a: 1
    then show ?thesis using word_first [OF a(2) b] by (simp add: bit_loop.simps [of _ _ sz])
  next
    case a: 2
    have "is_first (bm_bit bm) (64 * (p + 1)) (64 * (p + 1) + (sz - 64)) (bit_loop bm (p + 1) (sz - 64) (64 * (p + 1)))"
      using 1 a by simp
    then have "is_first (bm_bit bm) (64 * p) (64 * (p + 1) + (sz - 64)) (bit_loop bm (p + 1) (sz - 64) (64 * (p + 1)))"
      by (rule is_first_extend) (use word_none [OF a(2) b] in auto)
    then show ?thesis using a by (simp add: bit_loop.simps [of _ _ sz] add.commute)
  next
    case 3
    then show ?thesis by (auto simp: bit_loop.simps is_first_def)
  next
    case 4
    then show ?thesis using found_first_bit_first [of "bm ! p" 0 bm p sz] by (simp add: bit_loop.simps [of _ _ sz])
  qed
qed
lemma next_word_index: "64 * p + s = n \<Longrightarrow> \<not> s < 64 \<Longrightarrow> 64 * (p + 1) + (s - 64) = (n::nat)"
  by simp

lemma find_next_bit_first:
  assumes "off < n"
  shows "is_first (bm_bit bm) off n (find_next_bit bm n off)"
proof -
  let ?p = "off div 64" and ?o = "off mod 64" and ?s = "n - off div 64 * 64"
  have o: "off = 64 * ?p + ?o" "?o < 64" by simp_all
  have s: "?o < ?s" "64 * ?p + ?s = n" using assms by (simp_all add: less_diff_conv mult.commute)
  have p64: "off div 64 * 64 = 64 * ?p" by (rule mult.commute)
  show ?thesis
  proof (cases "?o = 0")
    case True
    then have "find_next_bit bm n off = bit_loop bm ?p ?s (64 * ?p)"
      using assms unfolding find_next_bit_def Let_def p64 by simp
    then show ?thesis using bit_loop_first [of bm ?p ?s] s(2) o(1) True by simp
  next
    case False
    let ?t = "bm ! ?p AND push_bit ?o (- 1)"
    have b: "bit ?t j \<longleftrightarrow> ?o \<le> j \<and> bit (bm ! ?p) j" if "j < 64" for j
      using that by (auto simp: bit_and_iff bit_push_bit_iff bit_minus_1_iff bit_not_iff bit_mask_iff)
    then have b64: "bit ?t j \<longleftrightarrow> ?o \<le> j \<and> j < 64 \<and> bit (bm ! ?p) j" if "j < 64" for j using that by blast
    have e: "find_next_bit bm n off = (if ?s < 64 then found_first_bit ?t ?s (64 * ?p)
        else if ?t \<noteq> 0 then 64 * ?p + ffs ?t else bit_loop bm (?p + 1) (?s - 64) (64 * ?p + 64))"
      using assms False unfolding find_next_bit_def Let_def p64 by (simp only: if_False not_le [symmetric] if_True) simp
    consider "?s < 64" | "\<not> ?s < 64" "?t \<noteq> 0" | "\<not> ?s < 64" "?t = 0" by blast
    then show ?thesis
    proof cases
      case 1
      have "0 < ?s" "?o \<le> ?s" using s(1) by linarith+
      from found_first_bit_first [OF b 1 this] show ?thesis using 1 e s(2) o(1) by simp
    next
      case 2
      have "64 * ?p + 64 \<le> n" using 2(1) s(2) by linarith
      from word_first [OF 2(2) b64 order.refl this] show ?thesis using 2 e o(1) by simp
    next
      case 3
      have n: "64 * (?p + 1) + (?s - 64) = n" by (rule next_word_index [OF s(2) 3(1)])
      have "is_first (bm_bit bm) (64 * (?p + 1)) n (bit_loop bm (?p + 1) (?s - 64) (64 * (?p + 1)))"
        using bit_loop_first [of bm "?p + 1" "?s - 64"] unfolding n .
      then have "is_first (bm_bit bm) (64 * ?p + ?o) n (bit_loop bm (?p + 1) (?s - 64) (64 * (?p + 1)))"
      proof (rule is_first_extend)
        show "64 * ?p + ?o \<le> 64 * (?p + 1)" using o(2) by simp
        fix i assume i: "64 * ?p + ?o \<le> i" "i < 64 * (?p + 1)"
        have "i < 64 * ?p + 64" using i(2) by (metis distrib_left mult.right_neutral)
        from word_none [OF 3(2) b64 order.refl i(1) this] show "\<not> bm_bit bm i" .
      qed
      then show ?thesis using 3 e o(1) by (simp add: add.commute [of "64 * (off div 64)"])
    qed
  qed
qed

lemma find_next_bit_eq: "off \<le> n \<Longrightarrow> find_next_bit bm n off = first_index (bm_bit bm) n off"
  using find_next_bit_first [of off n bm] is_first_eq [of off n]
  by (cases "off = n") (auto simp: find_next_bit_def first_index_def)

lemma find_first_bit_eq: "find_first_bit bm n = first_index (bm_bit bm) n 0"
  using bit_loop_first [of bm 0 n] is_first_eq [of 0 n "bm_bit bm"] by (simp add: find_first_bit_def)

text \<open>The search for a zero is the search for a one in the complemented words.\<close>

lemma found_zero_complement:
  assumes "sz < 64" "0 < sz"
  shows "found_first_zero t sz r = found_first_bit (NOT t) sz r"
proof -
  have e: "NOT t AND drop_bit (64 - sz) (- 1) = NOT (t OR push_bit sz (- 1))"
    using assms by (auto simp: word64_eq_iff bit_and_iff bit_or_iff bit_not_iff bit_drop_bit_eq bit_push_bit_iff
        bit_minus_1_iff bit_mask_iff)
  have "t OR push_bit sz (- 1) = - 1 \<longleftrightarrow> NOT (t OR push_bit sz (- 1)) = 0"
    by (metis bit.compl_one bit.double_compl)
  then show ?thesis unfolding found_first_zero_def found_first_bit_def Let_def e ffz_def by argo
qed

lemma zero_loop_complement:
  "64 * p + sz \<le> 64 * length bm \<Longrightarrow> zero_loop bm p sz r = bit_loop (map (\<lambda>w. NOT w) bm) p sz r"
proof (induction bm p sz r rule: zero_loop.induct)
  case (1 bm p sz r)
  have "p < length bm" if "0 < sz" using 1(2) that by linarith
  then show ?case using 1 found_zero_complement [of sz "bm ! p" r]
    by (auto simp: zero_loop.simps [of _ _ sz] bit_loop.simps [of _ _ sz] ffz_def)
qed

lemma find_next_zero_complement:
  assumes "off < n" "n \<le> 64 * length bm"
  shows "find_next_zero_bit bm n off = find_next_bit (map (\<lambda>w. NOT w) bm) n off"
proof -
  let ?p = "off div 64" and ?o = "off mod 64" and ?s = "n - off div 64 * 64" and ?b = "map (\<lambda>w. NOT w) bm"
  have o: "off = ?p * 64 + ?o" "?o < 64" by simp_all
  have s: "?p * 64 + ?s = n" "0 < ?s" using assms(1) by (simp_all add: less_le_trans [of _ off])
  have "?p < length bm" using assms o(1) by linarith
  then have p: "?b ! ?p = NOT (bm ! ?p)" by simp
  have e: "NOT (bm ! ?p) AND push_bit ?o (- 1) = NOT (bm ! ?p OR drop_bit (64 - ?o) (- 1))" if "?o \<noteq> 0"
    using that o(2) by (auto simp: word64_eq_iff bit_and_iff bit_or_iff bit_not_iff bit_drop_bit_eq bit_push_bit_iff
        bit_minus_1_iff bit_mask_iff)
  have l1: "zero_loop bm ?p ?s r = bit_loop ?b ?p ?s r" for r
    by (rule zero_loop_complement) (use assms(2) s in simp)
  have l2: "zero_loop bm (?p + 1) (?s - 64) r = bit_loop ?b (?p + 1) (?s - 64) r" if "\<not> ?s < 64" for r
    by (rule zero_loop_complement) (use assms(2) s that in simp)
  have z: "found_first_zero t ?s r = found_first_bit (NOT t) ?s r" if "?s < 64" for t r
    by (rule found_zero_complement [OF that s(2)])
  show ?thesis
  proof (cases "?o = 0")
    case True
    then show ?thesis using assms(1) l1 unfolding find_next_zero_bit_def find_next_bit_def Let_def by simp
  next
    case False
    then show ?thesis using assms(1) l2 z
      unfolding find_next_zero_bit_def find_next_bit_def Let_def p e [OF False] ffz_def by simp
  qed
qed

lemma complement_bit: "i < 64 * length bm \<Longrightarrow> bm_bit (map (\<lambda>w. NOT w) bm) i \<longleftrightarrow> \<not> bm_bit bm i"
  by (simp add: bm_bit_def less_mult_imp_div_less mult.commute bit_not64)

lemma first_index_cong:
  "(\<And>i. m \<le> i \<Longrightarrow> i < n \<Longrightarrow> P i \<longleftrightarrow> Q i) \<Longrightarrow> first_index P n m = first_index Q n m"
  unfolding first_index_def by (subst find_cong [of "[m..<n]" "[m..<n]" P Q]) auto
subsection \<open>Regions: proofs\<close>

definition region_free :: "bitmap \<Rightarrow> nat \<Rightarrow> nat \<Rightarrow> bool" where
  "region_free bm i n \<longleftrightarrow> (\<forall>j. i \<le> j \<and> j < i + n \<longrightarrow> \<not> bm_bit bm j)"

lemma region_mask_eq: "0 < n \<Longrightarrow> n \<le> 64 \<Longrightarrow> region_mask n = Some (mask n)"
proof -
  assume n: "0 < n" "n \<le> 64"
  then have "(2::word64) ^ n = 2 ^ (n - 1) + 2 ^ (n - 1)" by (cases n) simp_all
  then show "region_mask n = Some (mask n)"
    using n by (simp add: region_mask_def Let_def push_bit_eq_mult mask_eq_exp_minus_1)
qed

lemma pow2_region: "2 ^ order \<le> (64::nat) \<Longrightarrow> 2 ^ order dvd (64::nat)"
proof -
  assume "2 ^ order \<le> (64::nat)"
  then have "(2::nat) ^ order \<le> 2 ^ 6" by simp
  then have "order \<le> 6" by (simp only: power_le_imp_le_exp [of 2] one_less_numeral_iff semiring_norm)
  then have "(2::nat) ^ order dvd 2 ^ 6" by (rule le_imp_power_dvd)
  then show ?thesis by simp
qed

lemma aligned_region:
  assumes "n dvd (64::nat)" "n dvd i" "0 < n"
  shows "i mod 64 + n \<le> 64"
proof -
  have d: "n dvd i mod 64" using assms(1,2) by (simp add: dvd_mod)
  then obtain a b where "i mod 64 = n * a" "64 = n * b" using assms(1) by (auto simp: dvd_def)
  moreover from this have "a < b" using assms(3) mod_less_divisor [of 64 i] by (metis nat_mult_less_cancel1 zero_less_numeral)
  ultimately show ?thesis using mult_le_mono2 [of "Suc a" b n] by simp
qed

lemma bit_region: "j < 64 \<Longrightarrow> bit (push_bit l (mask n) :: word64) j \<longleftrightarrow> l \<le> j \<and> j < l + n"
  by (auto simp: bit_push_bit_iff bit_mask_iff)

lemma same_word:
  assumes "i mod 64 + n \<le> (64::nat)" "i \<le> j" "j < i + n"
  shows "j div 64 = i div 64" "j mod 64 = i mod 64 + (j - i)"
proof -
  have "j = i div 64 * 64 + (i mod 64 + (j - i))" "i mod 64 + (j - i) < 64" using assms by simp_all
  then show "j div 64 = i div 64" "j mod 64 = i mod 64 + (j - i)" by (metis div_mult_self3 div_less add_0_right
      zero_neq_numeral, metis mod_mult_self3 mod_less)
qed

lemma region_test:
  assumes "i mod 64 + n \<le> 64"
  shows "bm ! (i div 64) AND push_bit (i mod 64) (mask n) = 0 \<longleftrightarrow> region_free bm i n" (is "?l = 0 \<longleftrightarrow> _")
proof -
  have "?l = 0 \<longleftrightarrow> (\<forall>j<64. i mod 64 \<le> j \<and> j < i mod 64 + n \<longrightarrow> \<not> bit (bm ! (i div 64)) j)"
    by (auto simp: word64_eq_iff bit_and_iff bit_region)
  also have "\<dots> \<longleftrightarrow> region_free bm i n"
  proof safe
    assume a: "\<forall>j<64. i mod 64 \<le> j \<and> j < i mod 64 + n \<longrightarrow> \<not> bit (bm ! (i div 64)) j"
    show "region_free bm i n"
      unfolding region_free_def bm_bit_def
    proof (intro allI impI, elim conjE)
      fix j assume j: "i \<le> j" "j < i + n"
      have "i mod 64 + (j - i) < 64" "i mod 64 \<le> i mod 64 + (j - i)" "i mod 64 + (j - i) < i mod 64 + n"
        using j assms by simp_all
      then show "\<not> bit (bm ! (j div 64)) (j mod 64)" unfolding same_word [OF assms j] using a by blast
    qed
  next
    fix j assume a: "region_free bm i n" "i mod 64 \<le> j" "j < i mod 64 + n" "bit (bm ! (i div 64)) j"
    let ?k = "i + (j - i mod 64)"
    have k: "i \<le> ?k" "?k < i + n" using a(2,3) by simp_all
    have "bm_bit bm ?k \<longleftrightarrow> bit (bm ! (i div 64)) j" using same_word [OF assms k] a(2) by (simp add: bm_bit_def)
    then show False using a(1,4) k unfolding region_free_def by blast
  qed
  finally show ?thesis .
qed

lemma same_word_order:
  assumes "j div 64 = i div (64::nat)"
  shows "i \<le> j \<and> j < i + n \<longleftrightarrow> i mod 64 \<le> j mod 64 \<and> j mod 64 < i mod 64 + n"
proof -
  have g: "a + b \<le> a + c \<and> a + c < a + b + n \<longleftrightarrow> b \<le> c \<and> c < b + n" for a b c :: nat by auto
  have "i div 64 * 64 + i mod 64 = i" "i div 64 * 64 + j mod 64 = j" using div_mult_mod_eq [of j 64] assms by simp_all
  from g [of "i div 64 * 64" "i mod 64" "j mod 64", unfolded this] show ?thesis .
qed

lemma word_update_bits:
  assumes r: "i mod 64 + n \<le> 64" and l: "i div 64 < length bm" and j: "j < 64 * length bm"
    and w: "\<And>b. b < 64 \<Longrightarrow> bit w b \<longleftrightarrow> (if i mod 64 \<le> b \<and> b < i mod 64 + n then v else bit (bm ! (i div 64)) b)"
  shows "bm_bit (bm[i div 64 := w]) j \<longleftrightarrow> (if i \<le> j \<and> j < i + n then v else bm_bit bm j)"
proof (cases "j div 64 = i div 64")
  case True
  have "i \<le> j \<and> j < i + n \<longleftrightarrow> i mod 64 \<le> j mod 64 \<and> j mod 64 < i mod 64 + n"
    using same_word_order [OF True] .
  then show ?thesis using True w [of "j mod 64"] l by (simp add: bm_bit_def)
next
  case False
  then have "\<not> (i \<le> j \<and> j < i + n)" using same_word [OF r] by blast
  then show ?thesis using False by (auto simp: bm_bit_def)
qed
definition region_scanned :: "bitmap \<Rightarrow> nat \<Rightarrow> nat \<Rightarrow> nat \<Rightarrow> region_result \<times> bitmap \<Rightarrow> bool" where
  "region_scanned bm n bits i z \<longleftrightarrow>
     (\<exists>r. z = (Region r, bm[r div 64 := bm ! (r div 64) OR push_bit (r mod 64) (mask n)]) \<and>
        i \<le> r \<and> r < bits \<and> n dvd r \<and> region_free bm r n \<and>
        (\<forall>k. i \<le> k \<and> k < r \<and> n dvd k \<longrightarrow> \<not> region_free bm k n)) \<or>
     z = (Err_ENOMEM, bm) \<and> (\<forall>k. i \<le> k \<and> k < bits \<and> n dvd k \<longrightarrow> \<not> region_free bm k n)"

lemma next_aligned: "n dvd i \<Longrightarrow> n dvd k \<Longrightarrow> i \<le> k \<Longrightarrow> k \<noteq> i \<Longrightarrow> i + n \<le> (k::nat)"
proof -
  assume a: "n dvd i" "n dvd k" "i \<le> k" "k \<noteq> i"
  then have "n dvd k - i" "0 < k - i" by simp_all
  then have "n \<le> k - i" by (rule dvd_imp_le)
  then show ?thesis using a(3) by simp
qed

lemma region_scanned_step:
  assumes s: "region_scanned bm n bits (i + n) z" and f: "\<And>k. i \<le> k \<Longrightarrow> n dvd k \<Longrightarrow> \<not> i + n \<le> k \<Longrightarrow> \<not> region_free bm k n"
  shows "region_scanned bm n bits i z"
proof -
  have e: "\<forall>k. i \<le> k \<and> k < m \<and> n dvd k \<longrightarrow> \<not> region_free bm k n"
    if "\<forall>k. i + n \<le> k \<and> k < m \<and> n dvd k \<longrightarrow> \<not> region_free bm k n" for m
    using that f by blast
  from s show ?thesis unfolding region_scanned_def
  proof (elim disjE exE conjE)
    fix r assume r: "z = (Region r, bm[r div 64 := bm ! (r div 64) OR push_bit (r mod 64) (mask n)])"
      "i + n \<le> r" "r < bits" "n dvd r" "region_free bm r n" "\<forall>k. i + n \<le> k \<and> k < r \<and> n dvd k \<longrightarrow> \<not> region_free bm k n"
    show "(\<exists>r. z = (Region r, bm[r div 64 := bm ! (r div 64) OR push_bit (r mod 64) (mask n)]) \<and>
        i \<le> r \<and> r < bits \<and> n dvd r \<and> region_free bm r n \<and>
        (\<forall>k. i \<le> k \<and> k < r \<and> n dvd k \<longrightarrow> \<not> region_free bm k n)) \<or>
      z = (Err_ENOMEM, bm) \<and> (\<forall>k. i \<le> k \<and> k < bits \<and> n dvd k \<longrightarrow> \<not> region_free bm k n)"
      by (intro disjI1 exI [of _ r] conjI) (use r e in simp_all)
  qed (use e in blast)
qed

lemma region_scan_ok:
  "n dvd 64 \<Longrightarrow> 0 < n \<Longrightarrow> n dvd i \<Longrightarrow> msk = mask n \<Longrightarrow> region_scanned bm n bits i (region_scan bm msk n bits i)"
proof (induction bm msk n bits i rule: region_scan.induct)
  case (1 bm msk n bits i)
  note t = region_test [OF aligned_region [OF 1(2,4,3)], of bm]
  consider "i < bits" "region_free bm i n" | "i < bits" "\<not> region_free bm i n" | "\<not> i < bits" by blast
  then show ?case
  proof cases
    case a: 1
    then show ?thesis using 1(3-5) t by (auto simp: region_scan.simps [of _ _ n] region_scanned_def)
  next
    case a: 2
    have "region_scanned bm n bits (i + n) (region_scan bm msk n bits (i + n))"
      using 1 a t by simp
    moreover have "region_scan bm msk n bits i = region_scan bm msk n bits (i + n)"
      using a 1(3,5) t by (simp add: region_scan.simps [of _ _ n bits i])
    moreover have "\<not> region_free bm k n" if "i \<le> k" "n dvd k" "\<not> i + n \<le> k" for k
      using a(2) next_aligned [OF 1(4) that(2,1)] that(3) by blast
    ultimately show ?thesis using region_scanned_step by metis
  next
    case 3
    then show ?thesis by (auto simp: region_scan.simps [of _ _ n] region_scanned_def)
  qed
qed

lemma region_set_bits:
  assumes "n dvd 64" "0 < n" "n dvd r" "r < 64 * length bm" "j < 64 * length bm"
  shows "bm_bit (bm[r div 64 := bm ! (r div 64) OR push_bit (r mod 64) (mask n)]) j \<longleftrightarrow> r \<le> j \<and> j < r + n \<or> bm_bit bm j"
proof -
  have l: "r div 64 < length bm" using assms(4) by (simp add: less_mult_imp_div_less mult.commute)
  have w: "bit (bm ! (r div 64) OR push_bit (r mod 64) (mask n)) b \<longleftrightarrow>
      (if r mod 64 \<le> b \<and> b < r mod 64 + n then True else bit (bm ! (r div 64)) b)" if "b < 64" for b
    using that by (auto simp: bit_or_iff bit_region)
  show ?thesis using word_update_bits [OF aligned_region [OF assms(1,3,2)] l assms(5) w] by auto
qed

lemma region_clear_bits:
  assumes "n dvd 64" "0 < n" "n dvd r" "r < 64 * length bm" "j < 64 * length bm"
  shows "bm_bit (bm[r div 64 := bm ! (r div 64) AND NOT (push_bit (r mod 64) (mask n))]) j \<longleftrightarrow>
    bm_bit bm j \<and> \<not> (r \<le> j \<and> j < r + n)"
proof -
  have l: "r div 64 < length bm" using assms(4) by (simp add: less_mult_imp_div_less mult.commute)
  have w: "bit (bm ! (r div 64) AND NOT (push_bit (r mod 64) (mask n))) b \<longleftrightarrow>
      (if r mod 64 \<le> b \<and> b < r mod 64 + n then False else bit (bm ! (r div 64)) b)" if "b < 64" for b
    using that by (auto simp: bit_and_iff bit_not64 bit_region)
  show ?thesis using word_update_bits [OF aligned_region [OF assms(1,3,2)] l assms(5) w] by auto
qed

lemma bitmap_eqI:
  assumes "length a = length b" "\<And>j. j < 64 * length a \<Longrightarrow> bm_bit a j \<longleftrightarrow> bm_bit b j"
  shows "a = b"
proof (rule nth_equalityI [OF assms(1)])
  fix k assume k: "k < length a"
  have "bit (a ! k) j \<longleftrightarrow> bit (b ! k) j" if "j < 64" for j
    using assms(2) [of "64 * k + j"] that k by (simp add: bm_bit_word)
  then show "a ! k = b ! k" by (simp add: word64_eq_iff)
qed
subsection \<open>The theorems\<close>

text \<open>
  C14. The word-wise tests on bitmaps decide what their names say about the single bits, also
  when the last word is only partly used: whatever the unused bits hold does not matter.
\<close>

theorem bitmap_tests_bitwise:
  "(bitmap_empty b bits \<longleftrightarrow> (\<forall>i<bits. \<not> bm_bit b i)) \<and>
   (bitmap_full b bits \<longleftrightarrow> (\<forall>i<bits. bm_bit b i)) \<and>
   (bitmap_equal b c bits \<longleftrightarrow> (\<forall>i<bits. bm_bit b i \<longleftrightarrow> bm_bit c i)) \<and>
   (bitmap_intersects b c bits \<longleftrightarrow> (\<exists>i<bits. bm_bit b i \<and> bm_bit c i)) \<and>
   (bitmap_subset b c bits \<longleftrightarrow> (\<forall>i<bits. \<not> bm_bit b i \<or> bm_bit c i))"
  using tests_bitwise(1,2) [of b bits] tests_bitwise(3-5) [of b c bits] by auto

theorem bitmap_tests_bitwise_witness:
  "bitmap_empty [4] 2 \<and> bitmap_full [7] 2 \<and> bitmap_equal [5] [1] 2 \<and> \<not> bitmap_intersects [5] [6] 2 \<and> bitmap_subset [5] [3] 2"
proof -
  have two: "(\<forall>i<2. P i) \<longleftrightarrow> P 0 \<and> P 1" "(\<exists>i<2. P i) \<longleftrightarrow> P 0 \<or> P 1" for P :: "nat \<Rightarrow> bool"
    by (auto simp: less_2_cases_iff)
  have b: "bm_bit [n] i \<longleftrightarrow> bit n i" if "i < 2" for n i using that by (simp add: bm_bit_def)
  show ?thesis
    using bitmap_tests_bitwise [of "[4]" 2 "[1]"] bitmap_tests_bitwise [of "[7]" 2 "[1]"]
      bitmap_tests_bitwise [of "[5]" 2 "[1]"] bitmap_tests_bitwise [of "[5]" 2 "[6]"] bitmap_tests_bitwise [of "[5]" 2 "[3]"]
    unfolding two by (simp add: b)
qed

text \<open>
  C13. The combination and shift operations act on every bit of the bitmap as on the
  corresponding bits of the arguments; a shift feeds zeros, and bits beyond the end of the
  source never enter the result. A shift by a multiple of the word size that leaves a word to
  compute is undefined: the loop shifts by the whole word size.
\<close>

theorem bitmap_ops_bitwise:
  assumes "i < bits" "bits \<le> 64 * length dst" "shift div 64 \<le> BITS_TO_LONGS bits"
  shows "(bm_bit (bitmap_and dst b c bits) i \<longleftrightarrow> bm_bit b i \<and> bm_bit c i) \<and>
    (bm_bit (bitmap_or dst b c bits) i \<longleftrightarrow> bm_bit b i \<or> bm_bit c i) \<and>
    (bm_bit (bitmap_xor dst b c bits) i \<longleftrightarrow> bm_bit b i \<noteq> bm_bit c i) \<and>
    (bm_bit (bitmap_andnot dst b c bits) i \<longleftrightarrow> bm_bit b i \<and> \<not> bm_bit c i) \<and>
    (bm_bit (bitmap_complement dst b bits) i \<longleftrightarrow> \<not> bm_bit b i) \<and>
    (if shift mod 64 = 0 \<and> shift div 64 < BITS_TO_LONGS bits
     then bitmap_shift_right dst b shift bits = None \<and> bitmap_shift_left dst b shift bits = None
     else (\<exists>d. bitmap_shift_right dst b shift bits = Some d \<and> (bm_bit d i \<longleftrightarrow> i + shift < bits \<and> bm_bit b (i + shift))) \<and>
       (\<exists>d. bitmap_shift_left dst b shift bits = Some d \<and> (bm_bit d i \<longleftrightarrow> shift \<le> i \<and> bm_bit b (i - shift))))"
proof (intro conjI)
  show "if shift mod 64 = 0 \<and> shift div 64 < BITS_TO_LONGS bits
     then bitmap_shift_right dst b shift bits = None \<and> bitmap_shift_left dst b shift bits = None
     else (\<exists>d. bitmap_shift_right dst b shift bits = Some d \<and> (bm_bit d i \<longleftrightarrow> i + shift < bits \<and> bm_bit b (i + shift))) \<and>
       (\<exists>d. bitmap_shift_left dst b shift bits = Some d \<and> (bm_bit d i \<longleftrightarrow> shift \<le> i \<and> bm_bit b (i - shift)))"
  proof (cases "shift mod 64 = 0 \<and> shift div 64 < BITS_TO_LONGS bits")
    case False
    then have ok: "shift mod 64 \<noteq> 0 \<or> shift div 64 = BITS_TO_LONGS bits" using assms(3) by linarith
    show ?thesis
      using False shift_right_bitwise [OF ok assms(3,1)] shift_left_bitwise [OF ok assms(3,1)]
        shift_right_defined [OF ok assms(3)] shift_left_defined [OF ok assms(3)] by simp
  qed (simp add: shift_undefined)
  show "bm_bit (bitmap_complement dst b bits) i \<longleftrightarrow> \<not> bm_bit b i" by (rule complement_bitwise [OF assms(1,2)])
qed (simp_all only: bitmap_and_def bitmap_or_def bitmap_xor_def bitmap_andnot_def store_words_bit [OF assms(1)],
    simp_all add: bm_bit_def bit_and_iff bit_or_iff bit_xor_iff bit_not64)

theorem bitmap_ops_bitwise_witness:
  "(\<exists>d. bitmap_shift_right [0, 0] [0, 2] 65 70 = Some d \<and> bm_bit d 0) \<and> bitmap_shift_right [0, 0] [0, 2] 64 70 = None"
proof -
  have a: "(0::nat) < 70" "70 \<le> 64 * length [0, 0 :: word64]" "65 div 64 \<le> BITS_TO_LONGS 70" "64 div 64 \<le> BITS_TO_LONGS 70"
    and b: "bm_bit [0, 2] 65" by (simp_all add: BITS_TO_LONGS_def bm_bit_def)
  show ?thesis
    using bitmap_ops_bitwise [OF a(1-3), of "[0, 2]" "[]"] bitmap_ops_bitwise [OF a(1,2,4), of "[0, 2]" "[]"] b
    by (auto simp: BITS_TO_LONGS_def)
qed

text \<open>
  C6. The word-wise searches return what a search bit by bit from the offset returns: the
  first set (cleared) bit, or the size when there is none.
\<close>

theorem find_bit_equiv:
  assumes "off \<le> n" "n \<le> 64 * length bm"
  shows "find_next_bit bm n off = first_index (bm_bit bm) n off \<and>
    find_first_bit bm n = first_index (bm_bit bm) n 0 \<and>
    find_next_zero_bit bm n off = first_index (\<lambda>i. \<not> bm_bit bm i) n off \<and>
    find_first_zero_bit bm n = first_index (\<lambda>i. \<not> bm_bit bm i) n 0"
proof -
  let ?b = "map (\<lambda>w. NOT w) bm"
  have c: "first_index (bm_bit ?b) n m = first_index (\<lambda>i. \<not> bm_bit bm i) n m" for m
    by (rule first_index_cong) (use assms(2) complement_bit in simp)
  have "find_next_zero_bit bm n off = first_index (\<lambda>i. \<not> bm_bit bm i) n off"
  proof (cases "off = n")
    case False
    then show ?thesis
      using assms find_next_zero_complement [of off n bm] find_next_bit_eq [of off n ?b] c [of off] by simp
  qed (simp add: find_next_zero_bit_def first_index_def)
  moreover have "find_first_zero_bit bm n = first_index (\<lambda>i. \<not> bm_bit bm i) n 0"
    using zero_loop_complement [of 0 n bm 0] assms(2) find_first_bit_eq [of ?b n] c [of 0]
    by (simp add: find_first_zero_bit_def find_first_bit_def)
  ultimately show ?thesis using find_next_bit_eq [OF assms(1)] find_first_bit_eq by blast
qed

theorem find_bit_equiv_witness:
  "find_next_zero_bit [0x2F] 6 1 = 4 \<and> find_next_bit [0x28] 6 1 = 3"
proof -
  have "1 \<le> (6::nat)" "(6::nat) \<le> 64 * length [0x2F :: word64]" "(6::nat) \<le> 64 * length [0x28 :: word64]" by simp_all
  moreover have "first_index (\<lambda>i. \<not> bm_bit [0x2F] i) 6 1 = 4" "first_index (bm_bit [0x28]) 6 1 = 3"
    by (simp_all add: first_index_def bm_bit_def upt_rec)
  ultimately show ?thesis using find_bit_equiv [of 1 6 "[0x2F]"] find_bit_equiv [of 1 6 "[0x28]"] by simp
qed

lemma small_order: "2 ^ order \<le> (64 :: nat) \<Longrightarrow> order \<le> 6"
  using power_increasing [of 7 order "2 :: nat"] by (cases "order \<le> 6") auto

lemma region_word_roundtrip:
  assumes "2 ^ order \<le> (64::nat)" "bits \<le> 64 * length bm"
  shows "(\<exists>r bm'. bitmap_find_free_region bm bits order = Some (Region r, bm') \<and> r < bits \<and> 2 ^ order dvd r \<and>
      region_free bm r (2 ^ order) \<and> (\<forall>k<r. \<not> (2 ^ order dvd k \<and> region_free bm k (2 ^ order))) \<and>
      (\<forall>j<64 * length bm. bm_bit bm' j \<longleftrightarrow> r \<le> j \<and> j < r + 2 ^ order \<or> bm_bit bm j) \<and>
      bitmap_release_region bm' r order = Some bm) \<or>
    bitmap_find_free_region bm bits order = Some (Err_ENOMEM, bm) \<and>
      (\<forall>k<bits. \<not> (2 ^ order dvd k \<and> region_free bm k (2 ^ order)))"
proof -
  let ?n = "2 ^ order :: nat"
  have n: "?n dvd 64" "0 < ?n" using pow2_region [OF assms(1)] by simp_all
  have m: "region_mask ?n = Some (mask ?n)" by (rule region_mask_eq [OF n(2) assms(1)])
  have f: "bitmap_find_free_region bm bits order = Some (region_scan bm (mask ?n) ?n bits 0)"
    using assms(1) m small_order [OF assms(1)] by (simp add: bitmap_find_free_region_def Let_def)
  have s: "region_scanned bm ?n bits 0 (region_scan bm (mask ?n) ?n bits 0)"
    by (rule region_scan_ok [OF n _ refl]) simp
  then show ?thesis
    unfolding region_scanned_def
  proof (elim disjE exE conjE)
    fix r assume r: "region_scan bm (mask ?n) ?n bits 0 = (Region r, bm[r div 64 := bm ! (r div 64) OR push_bit (r mod 64) (mask ?n)])"
      (is "_ = (_, ?bm)") "r < bits" "?n dvd r" "region_free bm r ?n"
      "\<forall>k. 0 \<le> k \<and> k < r \<and> ?n dvd k \<longrightarrow> \<not> region_free bm k ?n"
    have l: "r < 64 * length bm" using r(2) assms(2) by simp
    have set: "bm_bit ?bm j \<longleftrightarrow> r \<le> j \<and> j < r + ?n \<or> bm_bit bm j" if "j < 64 * length bm" for j
      by (rule region_set_bits [OF n r(3) l that])
    have "?bm[r div 64 := ?bm ! (r div 64) AND NOT (push_bit (r mod 64) (mask ?n))] = bm"
    proof (rule bitmap_eqI)
      fix j assume "j < 64 * length (?bm[r div 64 := ?bm ! (r div 64) AND NOT (push_bit (r mod 64) (mask ?n))])"
      then have j: "j < 64 * length bm" by simp
      have "bm_bit (?bm[r div 64 := ?bm ! (r div 64) AND NOT (push_bit (r mod 64) (mask ?n))]) j \<longleftrightarrow>
          bm_bit ?bm j \<and> \<not> (r \<le> j \<and> j < r + ?n)"
        by (rule region_clear_bits [OF n r(3)]) (use l j in simp_all)
      then show "bm_bit (?bm[r div 64 := ?bm ! (r div 64) AND NOT (push_bit (r mod 64) (mask ?n))]) j \<longleftrightarrow> bm_bit bm j"
        using set [OF j] r(4) unfolding region_free_def by blast
    qed simp
    then have "bitmap_release_region ?bm r order = Some bm" by (simp add: bitmap_release_region_def m)
    then show ?thesis using f r set by (intro disjI1 exI [of _ r] exI [of _ ?bm]) auto
  qed (use f in auto)
qed

text \<open>
  C15. Allocation of regions. For a size of up to one word, a region is found exactly when some
  aligned one is free, it is the first, exactly its bits are set, and releasing it restores the
  bitmap. The sizes of two and four words, which the code accepts, are undefined, because the
  mask is shifted by more than the word size; larger ones are refused.
\<close>

theorem bitmap_region_roundtrip:
  assumes "bits \<le> 64 * length bm" "order < 31"
  shows "if order \<le> 6 then
      (\<exists>r bm'. bitmap_find_free_region bm bits order = Some (Region r, bm') \<and> r < bits \<and> 2 ^ order dvd r \<and>
        region_free bm r (2 ^ order) \<and> (\<forall>k<r. \<not> (2 ^ order dvd k \<and> region_free bm k (2 ^ order))) \<and>
        (\<forall>j<64 * length bm. bm_bit bm' j \<longleftrightarrow> r \<le> j \<and> j < r + 2 ^ order \<or> bm_bit bm j) \<and>
        bitmap_release_region bm' r order = Some bm) \<or>
      bitmap_find_free_region bm bits order = Some (Err_ENOMEM, bm) \<and>
        (\<forall>k<bits. \<not> (2 ^ order dvd k \<and> region_free bm k (2 ^ order)))
    else if order \<le> 8 then bitmap_find_free_region bm bits order = None
    else bitmap_find_free_region bm bits order = Some (Err_EINVAL, bm)"
proof -
  have "2 ^ order \<le> (64 :: nat)" if "order \<le> 6" using power_increasing [OF that, of "2 :: nat"] by simp
  moreover have "bitmap_find_free_region bm bits order = None" if "6 < order" "order \<le> 8"
  proof -
    have "order = 7 \<or> order = 8" using that by linarith
    then show ?thesis by (auto simp: bitmap_find_free_region_def region_mask_def)
  qed
  moreover have "4 * 64 < (2 :: nat) ^ order" if "8 < order"
    using power_strict_increasing [OF that, of "2 :: nat"] by simp
  then have "bitmap_find_free_region bm bits order = Some (Err_EINVAL, bm)" if "8 < order"
    using that assms(2) by (simp add: bitmap_find_free_region_def)
  ultimately show ?thesis using region_word_roundtrip [OF _ assms(1), of order] by auto
qed

theorem bitmap_region_roundtrip_witness:
  "\<exists>r bm'. bitmap_find_free_region [3] 4 1 = Some (Region r, bm') \<and> bitmap_release_region bm' r 1 = Some [3]"
proof -
  have "(4::nat) \<le> 64 * length [3 :: word64]" "1 < (31::nat)" by simp_all
  moreover have "fst (the (bitmap_find_free_region [3] 4 1)) = Region 2" by code_simp
  ultimately show ?thesis using bitmap_region_roundtrip [of 4 "[3]" 1] by auto
qed

end
