(* ===== verification/So3_Timer.thy ===== *)
theory So3_Timer
  imports So3_Interfaces "HOL-Library.Multiset"
begin

section \<open>Timers and time\<close>

text \<open>
  Model of \<open>so3/kernel/timer.c\<close>, \<open>so3/kernel/softirq.c\<close> and \<open>so3/devices/timer.c\<close> for one processor. The
  pending timers form a singly linked list in memory, as in the code: a timer is named by its
  address, and the list operations follow and change the \<open>list_next\<close> pointers. \<open>None\<close> stands
  for a failed \<open>BUG_ON\<close> or \<open>ASSERT\<close>, the access through a null pointer or an endless walk.

  The callbacks and the clock are arguments: \<open>cb\<close> is what a timer's callback does to the timer
  system, \<open>now\<close> the value that \<open>NOW()\<close> returned. \<open>tlog\<close> records the callbacks that were called
  and \<open>oneshot\<close> the last delay the oneshot device was programmed with. The spin locks and the
  preemption counter are not part of the state: with one processor and one flow of control they
  have no effect on it.
\<close>

subsection \<open>The timer list\<close>

datatype timer_status = TIMER_STATUS_inactive | TIMER_STATUS_killed | TIMER_STATUS_in_list

record timer =
  expires :: nat
  list_next :: addr
  has_function :: bool
  status :: timer_status

record timers =
  tmem :: "addr \<Rightarrow> timer option"
  tlist :: addr
  trunning :: addr
  tlog :: "addr list"
  softirq_stat :: "nat \<Rightarrow> bool"
  in_interrupt :: bool
  has_set_delay :: bool
  oneshot :: "nat option"

definition STIME_MAX :: nat where
  "STIME_MAX = 2 ^ 64 - 1"

definition upd_timer :: "addr \<Rightarrow> (timer \<Rightarrow> timer) \<Rightarrow> timers \<Rightarrow> timers option" where
  "upd_timer t f s = do { c \<leftarrow> tmem s t; Some (s\<lparr>tmem := (tmem s)(t \<mapsto> f c)\<rparr>) }"

text \<open>The loop of \<open>remove_from_list\<close> that looks for the element before \<open>t\<close>.\<close>

partial_function (option) find_prev :: "(addr \<Rightarrow> timer option) \<Rightarrow> addr \<Rightarrow> addr \<Rightarrow> addr \<Rightarrow> addr option" where
  "find_prev m t prev cur =
     (if cur = t then Some prev
      else do { c \<leftarrow> m cur; find_prev m t cur (list_next c) })"

definition remove_from_list :: "addr \<Rightarrow> timers \<Rightarrow> timers option" where
  "remove_from_list t s =
     (if tlist s = t
      then do {
        c \<leftarrow> tmem s t;
        upd_timer t (\<lambda>c. c\<lparr>list_next := NULL\<rparr>) (s\<lparr>tlist := list_next c\<rparr>)
      }
      else do {
        prev \<leftarrow> find_prev (tmem s) t NULL (tlist s);
        c \<leftarrow> tmem s t;
        s1 \<leftarrow> upd_timer prev (\<lambda>p. p\<lparr>list_next := list_next c\<rparr>) s;
        upd_timer t (\<lambda>c. c\<lparr>list_next := NULL\<rparr>) s1
      })"

text \<open>The loop of \<open>add_to_list\<close> that looks whether the timer is already there.\<close>

partial_function (option) on_list :: "(addr \<Rightarrow> timer option) \<Rightarrow> addr \<Rightarrow> addr \<Rightarrow> bool option" where
  "on_list m t cur =
     (if cur = NULL then Some False
      else if cur = t then Some True
      else do { c \<leftarrow> m cur; on_list m t (list_next c) })"

definition add_to_list :: "addr \<Rightarrow> timers \<Rightarrow> timers option" where
  "add_to_list t s =
     (if tlist s = NULL
      then upd_timer t (\<lambda>c. c\<lparr>list_next := NULL\<rparr>) (s\<lparr>tlist := t\<rparr>)
      else do {
        found \<leftarrow> on_list (tmem s) t (tlist s);
        if found then Some s
        else upd_timer t (\<lambda>c. c\<lparr>list_next := tlist s\<rparr>) (s\<lparr>tlist := t\<rparr>)
      })"

definition remove_entry :: "addr \<Rightarrow> timers \<Rightarrow> timers option" where
  "remove_entry t s =
     do {
       c \<leftarrow> tmem s t;
       s1 \<leftarrow> (if status c = TIMER_STATUS_in_list then remove_from_list t s else None);
       upd_timer t (\<lambda>c. c\<lparr>status := TIMER_STATUS_inactive\<rparr>) s1
     }"

definition add_entry :: "addr \<Rightarrow> timers \<Rightarrow> timers option" where
  "add_entry t s =
     do {
       c \<leftarrow> tmem s t;
       if status c \<noteq> TIMER_STATUS_inactive then None
       else do {
         s1 \<leftarrow> upd_timer t (\<lambda>c. c\<lparr>status := TIMER_STATUS_in_list\<rparr>) s;
         add_to_list t s1
       }
     }"

definition active_timer :: "timer \<Rightarrow> bool" where
  "active_timer c \<longleftrightarrow> status c = TIMER_STATUS_in_list"

definition init_timer :: "addr \<Rightarrow> timers \<Rightarrow> timers" where
  "init_timer t s = s\<lparr>tmem := (tmem s)(t \<mapsto>
     \<lparr>expires = 0, list_next = NULL, has_function = True, status = TIMER_STATUS_inactive\<rparr>)\<rparr>"

text \<open>\<open>__stop_timer\<close> and \<open>stop_timer\<close>, which adds only the lock, are one function here.\<close>

definition stop_timer :: "addr \<Rightarrow> timers \<Rightarrow> timers option" where
  "stop_timer t s = do { c \<leftarrow> tmem s t; if active_timer c then remove_entry t s else Some s }"

text \<open>\<open>set_timer\<close> up to the request for the timer softirq: the part under the lock.\<close>

definition set_timer_entry :: "addr \<Rightarrow> nat \<Rightarrow> timers \<Rightarrow> timers option" where
  "set_timer_entry t e s =
     do {
       c \<leftarrow> tmem s t;
       if \<not> has_function c then None
       else do {
         s1 \<leftarrow> (if active_timer c then stop_timer t s else Some s);
         s2 \<leftarrow> upd_timer t (\<lambda>c. c\<lparr>expires := e\<rparr>) s1;
         c2 \<leftarrow> tmem s2 t;
         if status c2 \<noteq> TIMER_STATUS_killed then add_entry t s2 else Some s2
       }
     }"

definition kill_timer :: "addr \<Rightarrow> timers \<Rightarrow> timers option" where
  "kill_timer t s =
     (if trunning s = t then None
      else do {
        s1 \<leftarrow> stop_timer t s;
        upd_timer t (\<lambda>c. c\<lparr>status := TIMER_STATUS_killed\<rparr>) s1
      })"

partial_function (option) offset_loop :: "nat \<Rightarrow> addr \<Rightarrow> timers \<Rightarrow> timers option" where
  "offset_loop off cur s =
     (if cur = NULL then Some s
      else do {
        s1 \<leftarrow> upd_timer cur (\<lambda>c. c\<lparr>expires := (expires c + off) mod 2 ^ 64\<rparr>) s;
        c \<leftarrow> tmem s1 cur;
        offset_loop off (list_next c) s1
      })"

definition apply_timer_offset :: "nat \<Rightarrow> timers \<Rightarrow> timers option" where
  "apply_timer_offset off s = offset_loop off (tlist s) s"

subsection \<open>The timer softirq\<close>

definition execute_timer :: "(addr \<Rightarrow> timers \<Rightarrow> timers option) \<Rightarrow> addr \<Rightarrow> timers \<Rightarrow> timers option" where
  "execute_timer cb t s =
     do {
       s1 \<leftarrow> cb t (s\<lparr>trunning := t, tlog := tlog s @ [t]\<rparr>);
       Some (s1\<lparr>trunning := NULL\<rparr>)
     }"

partial_function (option) run_expired ::
  "(addr \<Rightarrow> timers \<Rightarrow> timers option) \<Rightarrow> nat \<Rightarrow> addr \<Rightarrow> timers \<Rightarrow> timers option" where
  "run_expired cb now cur s =
     (if cur = NULL then Some s
      else do {
        c \<leftarrow> tmem s cur;
        s1 \<leftarrow> (if expires c \<le> now
               then do { s1 \<leftarrow> remove_entry cur s; execute_timer cb cur s1 }
               else Some s);
        run_expired cb now (list_next c) s1
      })"

text \<open>The loop for the earliest deadline; \<open>start\<close> is read when it is still null.\<close>

partial_function (option) earliest :: "(addr \<Rightarrow> timer option) \<Rightarrow> addr \<Rightarrow> addr \<Rightarrow> addr option" where
  "earliest m t start =
     (if t = NULL then Some start
      else do {
        c \<leftarrow> m t;
        better \<leftarrow> (if start = NULL \<and> expires c < STIME_MAX then Some True
                   else do { d \<leftarrow> m start; Some (expires c < expires d) });
        earliest m (list_next c) (if better then t else start)
      })"

declare find_prev.simps [code] on_list.simps [code] offset_loop.simps [code] run_expired.simps [code] earliest.simps [code]

definition TIMER_SOFTIRQ :: nat where
  "TIMER_SOFTIRQ = 0"

definition SCHEDULE_SOFTIRQ :: nat where
  "SCHEDULE_SOFTIRQ = 1"

definition NR_SOFTIRQS :: nat where
  "NR_SOFTIRQS = 2"

definition raise_softirq :: "nat \<Rightarrow> timers \<Rightarrow> timers" where
  "raise_softirq nr s = s\<lparr>softirq_stat := (softirq_stat s)(nr := True)\<rparr>"

text \<open>
  The difference of two unsigned 64-bit times is read as a signed number, as in the code: it is
  not positive when it is zero or its highest bit is set.
\<close>

definition timer_dev_set_deadline :: "nat \<Rightarrow> nat \<Rightarrow> timers \<Rightarrow> bool \<times> timers" where
  "timer_dev_set_deadline now deadline s =
     (let delta = (2 ^ 64 + deadline - now) mod 2 ^ 64
      in if delta = 0 \<or> 2 ^ 63 \<le> delta then (\<not> in_interrupt s, raise_softirq TIMER_SOFTIRQ s)
         else if has_set_delay s then (False, s\<lparr>oneshot := Some delta\<rparr>)
         else (False, s))"

text \<open>
  One turn of the action from \<open>again\<close> on: the expired timers are run, the earliest of the others
  is programmed. \<open>now\<close> is the time read at the beginning, \<open>now'\<close> the time the device function
  reads. The result tells whether the code jumps back.
\<close>

definition timer_softirq_turn ::
  "(addr \<Rightarrow> timers \<Rightarrow> timers option) \<Rightarrow> nat \<Rightarrow> nat \<Rightarrow> timers \<Rightarrow> (bool \<times> timers) option" where
  "timer_softirq_turn cb now now' s =
     do {
       s1 \<leftarrow> run_expired cb now (tlist s) s;
       start \<leftarrow> earliest (tmem s1) (tlist s1) NULL;
       if start = NULL then Some (False, s1)
       else do {
         c \<leftarrow> tmem s1 start;
         Some (timer_dev_set_deadline now' (expires c) s1)
       }
     }"

text \<open>The whole action for the sequence of times that \<open>NOW()\<close> returns.\<close>

partial_function (option) timer_softirq_action ::
  "(addr \<Rightarrow> timers \<Rightarrow> timers option) \<Rightarrow> (nat \<Rightarrow> nat) \<Rightarrow> nat \<Rightarrow> timers \<Rightarrow> timers option" where
  "timer_softirq_action cb now k s =
     do {
       (again, s1) \<leftarrow> timer_softirq_turn cb (now (2 * k)) (now (2 * k + 1)) s;
       if again then timer_softirq_action cb now (k + 1) s1 else Some s1
     }"

declare timer_softirq_action.simps [code]

subsection \<open>Softirqs\<close>

text \<open>
  \<open>h\<close> is the table of handlers. The warning after more than a hundred rounds has no effect on
  the state.
\<close>

fun first_pending :: "nat list \<Rightarrow> timers \<Rightarrow> nat" where
  "first_pending [] s = NR_SOFTIRQS"
| "first_pending (i # is) s = (if softirq_stat s i then i else first_pending is s)"

partial_function (option) do_softirq :: "(nat \<Rightarrow> timers \<Rightarrow> timers option) \<Rightarrow> timers \<Rightarrow> timers option" where
  "do_softirq h s =
     (let i = first_pending [0..<NR_SOFTIRQS] s
      in if i = NR_SOFTIRQS then Some (s\<lparr>in_interrupt := False\<rparr>)
         else do {
           s1 \<leftarrow> h i (s\<lparr>softirq_stat := (softirq_stat s)(i := False)\<rparr>);
           do_softirq h (s1\<lparr>in_interrupt := True\<rparr>)
         })"

declare do_softirq.simps [code]

definition register_softirq ::
  "nat \<Rightarrow> (timers \<Rightarrow> timers option) \<Rightarrow> (nat \<Rightarrow> timers \<Rightarrow> timers option) \<Rightarrow> (nat \<Rightarrow> timers \<Rightarrow> timers option) option" where
  "register_softirq nr handler h = (if nr < NR_SOFTIRQS then Some (h(nr := handler)) else None)"

definition softirq_init :: "timers \<Rightarrow> timers" where
  "softirq_init s = s\<lparr>softirq_stat := (\<lambda>_. False)\<rparr>"

text \<open>
  The list, the running timer and the handler of the timer softirq at start-up; starting the
  periodic or oneshot device is left to the hardware.
\<close>

definition timer_init ::
  "(addr \<Rightarrow> timers \<Rightarrow> timers option) \<Rightarrow> (nat \<Rightarrow> nat) \<Rightarrow> (nat \<Rightarrow> timers \<Rightarrow> timers option) \<Rightarrow> timers \<Rightarrow>
   ((nat \<Rightarrow> timers \<Rightarrow> timers option) \<times> timers) option" where
  "timer_init cb now h s =
     do {
       h1 \<leftarrow> register_softirq TIMER_SOFTIRQ (timer_softirq_action cb now 0) h;
       Some (h1, s\<lparr>tlist := NULL, trunning := NULL\<rparr>)
     }"

definition set_timer :: "(nat \<Rightarrow> timers \<Rightarrow> timers option) \<Rightarrow> addr \<Rightarrow> nat \<Rightarrow> timers \<Rightarrow> timers option" where
  "set_timer h t e s =
     do {
       s1 \<leftarrow> set_timer_entry t e s;
       let s2 = raise_softirq TIMER_SOFTIRQ s1;
       if \<not> in_interrupt s2 then do_softirq h s2 else Some s2
     }"

subsection \<open>Clock\<close>

record clocksource =
  cycle_last :: nat
  csbits :: nat
  csmult :: nat
  csshift :: nat
  sys_time :: nat

definition CYCLE_DELTA_MIN :: nat where
  "CYCLE_DELTA_MIN = 0x100000000"

definition cyc2ns :: "clocksource \<Rightarrow> nat \<Rightarrow> nat" where
  "cyc2ns cs cycles = (cycles * csmult cs) mod 2 ^ 64 div 2 ^ csshift cs"

text \<open>
  The mask is \<open>2 ^ csbits - 1\<close>, so that the conjunction with it is a remainder. \<open>reading\<close> is what the
  counter returns, \<open>None\<close> when no clocksource is registered; \<open>irq_on\<close> tells whether interrupts are
  enabled at the call, and the second component of the result whether they are afterwards.
\<close>

definition get_s_time :: "clocksource \<Rightarrow> bool \<Rightarrow> nat option \<Rightarrow> nat \<times> bool \<times> clocksource" where
  "get_s_time cs irq_on reading =
     (case reading of
        None \<Rightarrow> (0, False, cs)
      | Some cycle_now \<Rightarrow>
          (let (lst, delta) =
             (if cycle_now < cycle_last cs \<and> cycle_last cs - cycle_now < CYCLE_DELTA_MIN then (cycle_last cs, 0)
              else (cycle_now, (2 ^ 64 + cycle_now - cycle_last cs) mod 2 ^ 64 mod 2 ^ csbits cs));
             t = (sys_time cs + cyc2ns cs delta) mod 2 ^ 64
           in (t, irq_on, cs\<lparr>cycle_last := lst, sys_time := t\<rparr>)))"

text \<open>\<open>clocks_calc_mult_shift\<close>: the accuracy shift, and the loop for the pair.\<close>

fun sft_loop :: "nat \<Rightarrow> nat \<Rightarrow> nat" where
  "sft_loop tmp sftacc = (if tmp = 0 then sftacc else sft_loop (tmp div 2) (sftacc - 1))"

declare sft_loop.simps [simp del]

fun mult_loop :: "nat \<Rightarrow> nat \<Rightarrow> nat \<Rightarrow> nat \<Rightarrow> nat \<Rightarrow> nat \<times> nat" where
  "mult_loop from to sftacc tmp 0 = (tmp, 0)"
| "mult_loop from to sftacc tmp (Suc s) =
     (let tmp = (to * 2 ^ Suc s + from div 2) mod 2 ^ 64 div from
      in if tmp div 2 ^ sftacc = 0 then (tmp, Suc s) else mult_loop from to sftacc tmp s)"

definition clocks_calc_mult_shift :: "nat \<Rightarrow> nat \<Rightarrow> nat \<Rightarrow> nat \<times> nat" where
  "clocks_calc_mult_shift from to maxsec =
     (let tmp = (maxsec * from) mod 2 ^ 64 div 2 ^ 32; sftacc = sft_loop tmp 32
      in case mult_loop from to sftacc 0 32 of (mlt, sft) \<Rightarrow> (mlt mod 2 ^ 32, sft))"

subsection \<open>Linked lists of timers\<close>

fun tpath :: "(addr \<Rightarrow> timer option) \<Rightarrow> addr \<Rightarrow> addr list \<Rightarrow> addr \<Rightarrow> bool" where
  "tpath m a [] b \<longleftrightarrow> a = b"
| "tpath m a (x # xs) b \<longleftrightarrow> a = x \<and> (\<exists>c. m x = Some c \<and> tpath m (list_next c) xs b)"

definition texp :: "timers \<Rightarrow> addr \<Rightarrow> nat option" where
  "texp s t = map_option expires (tmem s t)"

definition tstat :: "timers \<Rightarrow> addr \<Rightarrow> timer_status option" where
  "tstat s t = map_option status (tmem s t)"

definition tfun :: "timers \<Rightarrow> addr \<Rightarrow> bool option" where
  "tfun s t = map_option has_function (tmem s t)"

lemmas tviews = texp_def tstat_def tfun_def

definition timers_ok :: "timers \<Rightarrow> addr list \<Rightarrow> bool" where
  "timers_ok s xs \<longleftrightarrow> tmem s NULL = None \<and> tpath (tmem s) (tlist s) xs NULL \<and> distinct xs \<and>
     (\<forall>t. t \<in> set xs \<longleftrightarrow> tstat s t = Some TIMER_STATUS_in_list)"

lemma tpath_append: "tpath m a (xs @ ys) b \<longleftrightarrow> (\<exists>c. tpath m a xs c \<and> tpath m c ys b)"
  by (induction xs arbitrary: a) auto

lemma tpath_cong:
  "tpath m a xs b \<Longrightarrow> (\<And>x. x \<in> set xs \<Longrightarrow> map_option list_next (m' x) = map_option list_next (m x)) \<Longrightarrow> tpath m' a xs b"
proof (induction xs arbitrary: a)
  case (Cons x xs)
  obtain c where c: "a = x" "m x = Some c" "tpath m (list_next c) xs b" using Cons.prems(1) by auto
  obtain c' where "m' x = Some c'" "list_next c' = list_next c" using Cons.prems(2) [of x] c(2) by auto
  then show ?case using c Cons.IH [OF c(3)] Cons.prems(2) by auto
qed simp

lemma tpath_mem: "tpath m a xs b \<Longrightarrow> x \<in> set xs \<Longrightarrow> m x \<noteq> None"
  by (induction xs arbitrary: a) auto

lemma find_prev_path:
  "tpath m cur (as @ [t]) b \<Longrightarrow> t \<notin> set as \<Longrightarrow> find_prev m t prev cur = Some (last (prev # as))"
proof (induction as arbitrary: cur prev)
  case Nil
  then show ?case by (simp add: find_prev.simps)
next
  case (Cons a as)
  then obtain c where "cur = a" "m a = Some c" "tpath m (list_next c) (as @ [t]) b" by auto
  then show ?case using Cons.IH [of "list_next c" a] Cons.prems(2) by (simp add: find_prev.simps [of m t prev])
qed

lemma on_list_path: "tpath m cur xs NULL \<Longrightarrow> m NULL = None \<Longrightarrow> on_list m t cur = Some (t \<in> set xs)"
proof (induction xs arbitrary: cur)
  case Nil
  then show ?case by (simp add: on_list.simps)
next
  case (Cons a xs)
  then obtain c where c: "cur = a" "m a = Some c" "tpath m (list_next c) xs NULL" by auto
  moreover have "a \<noteq> NULL" using c(2) Cons.prems(2) by (metis option.distinct(1))
  ultimately show ?case using Cons.IH [of "list_next c"] Cons.prems(2) by (auto simp: on_list.simps [of m t a])
qed

text \<open>Taking an element out of the middle of a path.\<close>

lemma tpath_unlink:
  assumes p: "tpath m h (as @ q # t # bs) b" and d: "distinct (as @ q # t # bs)" and c: "m t = Some c" "m q = Some cq"
  shows "tpath (m(q \<mapsto> cq\<lparr>list_next := list_next c\<rparr>, t \<mapsto> c\<lparr>list_next := NULL\<rparr>)) h (as @ q # bs) b"
proof -
  let ?m = "m(q \<mapsto> cq\<lparr>list_next := list_next c\<rparr>, t \<mapsto> c\<lparr>list_next := NULL\<rparr>)"
  have 1: "tpath m h as q" "tpath m (list_next c) bs b" using p c by (auto simp: tpath_append)
  have "tpath ?m h as q" by (rule tpath_cong [OF 1(1)]) (use d in auto)
  moreover have "tpath ?m (list_next c) bs b" by (rule tpath_cong [OF 1(2)]) (use d in auto)
  ultimately show ?thesis using d by (auto simp: tpath_append)
qed

lemma remove_from_list_ok:
  assumes p: "tpath (tmem s) (tlist s) (as @ t # bs) NULL" and d: "distinct (as @ t # bs)"
  shows "\<exists>s'. remove_from_list t s = Some s' \<and> tpath (tmem s') (tlist s') (as @ bs) NULL \<and>
    texp s' = texp s \<and> tstat s' = tstat s \<and> tfun s' = tfun s \<and> tlog s' = tlog s \<and> trunning s' = trunning s"
proof -
  obtain c where c: "tmem s t = Some c" using tpath_mem [OF p] by fastforce
  show ?thesis
  proof (cases as rule: rev_cases)
    case Nil
    then have "tlist s = t" "tpath (tmem s) (list_next c) bs NULL" using p c by auto
    moreover from this have "tpath ((tmem s)(t \<mapsto> c\<lparr>list_next := NULL\<rparr>)) (list_next c) bs NULL"
      using d Nil by (intro tpath_cong [OF \<open>tpath (tmem s) (list_next c) bs NULL\<close>]) auto
    ultimately show ?thesis using c Nil by (auto simp: remove_from_list_def upd_timer_def tviews fun_eq_iff)
  next
    case (snoc as' q)
    obtain cq where cq: "tmem s q = Some cq" using tpath_mem [OF p, of q] snoc by auto
    have ne: "tlist s \<noteq> t" using p d snoc by (cases as') auto
    have "tpath (tmem s) (tlist s) (as @ [t]) (list_next c)" using p c by (auto simp: tpath_append)
    from find_prev_path [OF this, of NULL] have f: "find_prev (tmem s) t NULL (tlist s) = Some q"
      using d snoc by simp
    let ?m = "(tmem s)(q \<mapsto> cq\<lparr>list_next := list_next c\<rparr>, t \<mapsto> c\<lparr>list_next := NULL\<rparr>)"
    have "tpath ?m (tlist s) (as' @ q # bs) NULL"
      by (rule tpath_unlink [OF _ _ c cq]) (use p d snoc in simp_all)
    moreover have "q \<noteq> t" using d snoc by auto
    then have "remove_from_list t s = Some (s\<lparr>tmem := ?m\<rparr>)"
      using ne f c cq by (simp add: remove_from_list_def upd_timer_def)
    ultimately show ?thesis using snoc c cq \<open>q \<noteq> t\<close> by (auto simp: tviews fun_eq_iff)
  qed
qed

lemma remove_entry_ok:
  assumes ok: "timers_ok s (as @ t # bs)"
  shows "\<exists>s'. remove_entry t s = Some s' \<and> timers_ok s' (as @ bs) \<and> texp s' = texp s \<and> tfun s' = tfun s \<and>
    tstat s' = (tstat s)(t \<mapsto> TIMER_STATUS_inactive) \<and> tlog s' = tlog s \<and> trunning s' = trunning s"
proof -
  have p: "tpath (tmem s) (tlist s) (as @ t # bs) NULL" and d: "distinct (as @ t # bs)"
    and n: "tmem s NULL = None" and st: "\<And>u. u \<in> set (as @ t # bs) \<longleftrightarrow> tstat s u = Some TIMER_STATUS_in_list"
    using ok by (simp_all add: timers_ok_def)
  obtain s1 where s1: "remove_from_list t s = Some s1" "tpath (tmem s1) (tlist s1) (as @ bs) NULL"
      "texp s1 = texp s" "tstat s1 = tstat s" "tfun s1 = tfun s" "tlog s1 = tlog s" "trunning s1 = trunning s"
    using remove_from_list_ok [OF p d] by blast
  have "tstat s t = Some TIMER_STATUS_in_list" using st [of t] by simp
  then obtain c where c: "tmem s t = Some c" "status c = TIMER_STATUS_in_list" by (auto simp: tstat_def)
  have "tstat s1 t \<noteq> None" using s1(4) c by (simp add: tstat_def)
  then obtain c1 where c1: "tmem s1 t = Some c1" by (auto simp: tstat_def)
  let ?s = "s1\<lparr>tmem := (tmem s1)(t \<mapsto> c1\<lparr>status := TIMER_STATUS_inactive\<rparr>)\<rparr>"
  have "tmem s1 NULL = None" using n s1(3) by (metis texp_def option.map_disc_iff)
  moreover have "t \<noteq> NULL" using c(1) n by (metis option.distinct(1))
  moreover have "tpath (tmem ?s) (tlist ?s) (as @ bs) NULL"
    by (simp del: fun_upd_apply, rule tpath_cong [OF s1(2)]) (use c1 in simp)
  moreover have v: "texp ?s = texp s1" "tfun ?s = tfun s1" "tstat ?s = (tstat s1)(t \<mapsto> TIMER_STATUS_inactive)"
    using c1 by (auto simp: tviews fun_eq_iff)
  moreover have "u \<in> set (as @ bs) \<longleftrightarrow> tstat ?s u = Some TIMER_STATUS_in_list" for u
    unfolding v using st [of u] d s1(4) by auto
  ultimately have "timers_ok ?s (as @ bs)" using d by (simp add: timers_ok_def)
  moreover have "remove_entry t s = Some ?s" using c s1(1) c1 by (simp add: remove_entry_def upd_timer_def)
  ultimately show ?thesis using v s1 by simp
qed
lemma add_entry_ok:
  assumes ok: "timers_ok s xs" and t: "tstat s t = Some TIMER_STATUS_inactive"
  shows "\<exists>s'. add_entry t s = Some s' \<and> timers_ok s' (t # xs) \<and> texp s' = texp s \<and> tfun s' = tfun s \<and>
    tstat s' = (tstat s)(t \<mapsto> TIMER_STATUS_in_list) \<and> tlog s' = tlog s \<and> trunning s' = trunning s"
proof -
  have p: "tpath (tmem s) (tlist s) xs NULL" and d: "distinct xs" and n: "tmem s NULL = None"
    and st: "\<And>u. u \<in> set xs \<longleftrightarrow> tstat s u = Some TIMER_STATUS_in_list"
    using ok by (simp_all add: timers_ok_def)
  obtain c where c: "tmem s t = Some c" "status c = TIMER_STATUS_inactive" using t by (auto simp: tstat_def)
  have tn: "t \<noteq> NULL" using c(1) n by (metis option.distinct(1))
  have tx: "t \<notin> set xs" using st [of t] t by simp
  let ?s = "s\<lparr>tlist := t, tmem := (tmem s)(t \<mapsto> c\<lparr>status := TIMER_STATUS_in_list, list_next := tlist s\<rparr>)\<rparr>"
  have p1: "tpath ((tmem s)(t \<mapsto> c\<lparr>status := TIMER_STATUS_in_list\<rparr>)) (tlist s) xs NULL"
    by (rule tpath_cong [OF p]) (use tx in auto)
  have "on_list ((tmem s)(t \<mapsto> c\<lparr>status := TIMER_STATUS_in_list\<rparr>)) t (tlist s) = Some False"
    using on_list_path [OF p1, of t] n tn tx by simp
  then have e: "add_entry t s = Some ?s"
    using c by (cases "tlist s = NULL") (simp_all add: add_entry_def upd_timer_def add_to_list_def)
  have v: "texp ?s = texp s" "tfun ?s = tfun s" "tstat ?s = (tstat s)(t \<mapsto> TIMER_STATUS_in_list)"
    using c by (auto simp: tviews fun_eq_iff)
  have "tpath (tmem ?s) (tlist s) xs NULL" by (rule tpath_cong [OF p]) (use tx in auto)
  then have "tpath (tmem ?s) (tlist ?s) (t # xs) NULL" by simp
  moreover have "u \<in> set (t # xs) \<longleftrightarrow> tstat ?s u = Some TIMER_STATUS_in_list" for u
    unfolding v using st [of u] by simp
  ultimately have "timers_ok ?s (t # xs)" using d tx n tn by (simp add: timers_ok_def)
  then show ?thesis using e v by (intro exI [of _ ?s]) simp
qed

lemma remove_member:
  assumes "timers_ok s xs" "tstat s t = Some TIMER_STATUS_in_list"
  shows "\<exists>s'. remove_entry t s = Some s' \<and> timers_ok s' (remove1 t xs) \<and> texp s' = texp s \<and> tfun s' = tfun s \<and>
    tstat s' = (tstat s)(t \<mapsto> TIMER_STATUS_inactive) \<and> tlog s' = tlog s \<and> trunning s' = trunning s"
proof -
  have "t \<in> set xs" "distinct xs" using assms by (simp_all add: timers_ok_def)
  then obtain as bs where x: "xs = as @ t # bs" "t \<notin> set as" by (meson split_list_first)
  then have "remove1 t xs = as @ bs" by (simp add: remove1_append)
  then show ?thesis using remove_entry_ok [of s as t bs] assms(1) x(1) by simp
qed

lemma stop_timer_ok:
  assumes "timers_ok s xs" "tmem s t = Some c"
  shows "\<exists>s'. stop_timer t s = Some s' \<and> timers_ok s' (remove1 t xs) \<and> texp s' = texp s \<and> tfun s' = tfun s \<and>
    tstat s' = (if status c = TIMER_STATUS_in_list then (tstat s)(t \<mapsto> TIMER_STATUS_inactive) else tstat s) \<and>
    tlog s' = tlog s \<and> trunning s' = trunning s"
proof (cases "status c = TIMER_STATUS_in_list")
  case True
  then have "tstat s t = Some TIMER_STATUS_in_list" using assms(2) by (simp add: tstat_def)
  then show ?thesis using remove_member [OF assms(1)] True assms(2) by (simp add: stop_timer_def active_timer_def)
next
  case False
  then have "t \<notin> set xs" using assms by (simp add: timers_ok_def tstat_def)
  then show ?thesis using assms False by (simp add: stop_timer_def active_timer_def remove1_idem)
qed

lemma upd_expires_ok:
  assumes "timers_ok s xs" "tmem s t = Some c"
  shows "timers_ok (s\<lparr>tmem := (tmem s)(t \<mapsto> c\<lparr>expires := e\<rparr>)\<rparr>) xs"
proof -
  let ?s = "s\<lparr>tmem := (tmem s)(t \<mapsto> c\<lparr>expires := e\<rparr>)\<rparr>"
  have p: "tpath (tmem s) (tlist s) xs NULL" using assms(1) by (simp add: timers_ok_def)
  have "tpath (tmem ?s) (tlist ?s) xs NULL"
    by (simp del: fun_upd_apply, rule tpath_cong [OF p]) (use assms(2) in simp)
  moreover have "tstat ?s = tstat s" using assms(2) by (auto simp: tstat_def fun_eq_iff)
  moreover have "t \<noteq> NULL" using assms unfolding timers_ok_def by (metis option.distinct(1))
  ultimately show ?thesis using assms(1) by (simp add: timers_ok_def)
qed

text \<open>What the rest of the kernel sees: which timers are pending, and for when.\<close>

definition pending :: "timers \<Rightarrow> addr \<Rightarrow> nat option" where
  "pending s t = (if tstat s t = Some TIMER_STATUS_in_list then texp s t else None)"

lemma set_timer_entry_ok:
  assumes ok: "timers_ok s xs" and t: "tmem s t = Some c" "has_function c"
  shows "\<exists>s'. set_timer_entry t e s = Some s' \<and>
    timers_ok s' (if status c = TIMER_STATUS_killed then xs else t # remove1 t xs) \<and>
    pending s' = (if status c = TIMER_STATUS_killed then pending s else (pending s)(t \<mapsto> e)) \<and>
    texp s' = (texp s)(t \<mapsto> e)"
proof -
  obtain s1 where s1: "stop_timer t s = Some s1" "timers_ok s1 (remove1 t xs)" "texp s1 = texp s" "tfun s1 = tfun s"
      "tstat s1 = (if status c = TIMER_STATUS_in_list then (tstat s)(t \<mapsto> TIMER_STATUS_inactive) else tstat s)"
    using stop_timer_ok [OF ok t(1)] by blast
  have ac: "(if active_timer c then stop_timer t s else Some s) = Some s1"
    using s1(1) t(1) by (auto simp: stop_timer_def)
  have "tstat s1 t \<noteq> None" using s1(5) t(1) by (simp add: tstat_def)
  then obtain c1 where c1: "tmem s1 t = Some c1" by (auto simp: tstat_def)
  have c1s: "status c1 = (if status c = TIMER_STATUS_in_list then TIMER_STATUS_inactive else status c)"
    using s1(5) c1 t(1) by (metis (no_types, lifting) fun_upd_same option.inject option.simps(9) tstat_def)
  let ?s = "s1\<lparr>tmem := (tmem s1)(t \<mapsto> c1\<lparr>expires := e\<rparr>)\<rparr>"
  have s2: "timers_ok ?s (remove1 t xs)" by (rule upd_expires_ok [OF s1(2) c1])
  have v: "texp ?s = (texp s)(t \<mapsto> e)" "tstat ?s = tstat s1" using c1 s1(3) by (auto simp: tviews fun_eq_iff)
  show ?thesis
  proof (cases "status c = TIMER_STATUS_killed")
    case True
    then have "set_timer_entry t e s = Some ?s" using t ac c1 c1s by (simp add: set_timer_entry_def upd_timer_def)
    moreover have "t \<notin> set xs" using ok t(1) True by (simp add: timers_ok_def tstat_def)
    moreover have "pending ?s = pending s"
      using v s1(5) True t(1) by (auto simp: pending_def fun_eq_iff tstat_def)
    ultimately show ?thesis using True s2 v(1) by (simp add: remove1_idem)
  next
    case False
    then have "status c1 = TIMER_STATUS_inactive" using c1s by (cases "status c") simp_all
    then have i: "tstat ?s t = Some TIMER_STATUS_inactive" using c1 by (simp add: tstat_def)
    obtain s3 where s3: "add_entry t ?s = Some s3" "timers_ok s3 (t # remove1 t xs)" "texp s3 = texp ?s"
        "tstat s3 = (tstat ?s)(t \<mapsto> TIMER_STATUS_in_list)"
      using add_entry_ok [OF s2 i] by blast
    have "set_timer_entry t e s = Some s3"
      using t ac c1 s3(1) \<open>status c1 = TIMER_STATUS_inactive\<close> by (simp add: set_timer_entry_def upd_timer_def)
    moreover have "pending s3 = (pending s)(t \<mapsto> e)"
      using s3(3,4) v s1(5) by (auto simp: pending_def fun_eq_iff)
    ultimately show ?thesis using False s3(2,3) v(1) by auto
  qed
qed

lemma kill_timer_ok:
  assumes ok: "timers_ok s xs" and t: "tmem s t = Some c" "trunning s \<noteq> t"
  shows "\<exists>s'. kill_timer t s = Some s' \<and> timers_ok s' (remove1 t xs) \<and> tstat s' t = Some TIMER_STATUS_killed \<and>
    pending s' = (pending s)(t := None)"
proof -
  obtain s1 where s1: "stop_timer t s = Some s1" "timers_ok s1 (remove1 t xs)" "texp s1 = texp s"
      "tstat s1 = (if status c = TIMER_STATUS_in_list then (tstat s)(t \<mapsto> TIMER_STATUS_inactive) else tstat s)"
    using stop_timer_ok [OF ok t(1)] by blast
  have "tstat s1 t \<noteq> None" using s1(4) t(1) by (simp add: tstat_def)
  then obtain c1 where c1: "tmem s1 t = Some c1" by (auto simp: tstat_def)
  let ?s = "s1\<lparr>tmem := (tmem s1)(t \<mapsto> c1\<lparr>status := TIMER_STATUS_killed\<rparr>)\<rparr>"
  have x: "distinct xs" "t \<notin> set (remove1 t xs)" using ok by (auto simp: timers_ok_def)
  have p: "tpath (tmem s1) (tlist s1) (remove1 t xs) NULL" and n: "tmem s1 NULL = None"
    using s1(2) by (simp_all add: timers_ok_def)
  have "tpath (tmem ?s) (tlist ?s) (remove1 t xs) NULL"
    by (simp del: fun_upd_apply, rule tpath_cong [OF p]) (use c1 in simp)
  moreover have v: "tstat ?s = (tstat s1)(t \<mapsto> TIMER_STATUS_killed)" "texp ?s = texp s1"
    using c1 by (auto simp: tviews fun_eq_iff)
  moreover have "t \<noteq> NULL" using c1 n by (metis option.distinct(1))
  moreover have "u \<in> set (remove1 t xs) \<longleftrightarrow> tstat ?s u = Some TIMER_STATUS_in_list" for u
    unfolding v using s1(2) x(2) by (auto simp: timers_ok_def)
  ultimately have "timers_ok ?s (remove1 t xs)" using x(1) n by (simp add: timers_ok_def)
  moreover have "pending ?s = (pending s)(t := None)"
    unfolding pending_def v using s1(3,4) by (auto simp: fun_eq_iff)
  moreover have "kill_timer t s = Some ?s" using t(2) s1(1) c1 by (simp add: kill_timer_def upd_timer_def)
  ultimately show ?thesis using v(1) by auto
qed
subsection \<open>The softirq: proofs\<close>


definition expired :: "timers \<Rightarrow> nat \<Rightarrow> addr \<Rightarrow> bool" where
  "expired s now t \<longleftrightarrow> (\<exists>e. texp s t = Some e \<and> e \<le> now)"



lemma earliest_ok:
  assumes "tpath m t xs NULL" "m NULL = None" "\<forall>u c. m u = Some c \<longrightarrow> expires c < STIME_MAX"
    "start \<noteq> NULL \<Longrightarrow> m start \<noteq> None"
  shows "\<exists>r. earliest m t start = Some r \<and> (r = NULL \<longleftrightarrow> start = NULL \<and> xs = []) \<and>
    (r \<noteq> NULL \<longrightarrow> (r \<in> set xs \<or> r = start) \<and> m r \<noteq> None \<and>
      (\<forall>u. u \<in> set xs \<or> u = start \<and> u \<noteq> NULL \<longrightarrow> expires (the (m r)) \<le> expires (the (m u))))"
  using assms(1,4)
proof (induction xs arbitrary: t start)
  case Nil
  then show ?case by (simp add: earliest.simps)
next
  case (Cons x xs)
  obtain c where c: "t = x" "m x = Some c" "tpath m (list_next c) xs NULL" using Cons.prems(1) by auto
  have xn: "x \<noteq> NULL" using c(2) assms(2) by (metis option.distinct(1))
  have lt: "expires c < STIME_MAX" using assms(3) c(2) by blast
  show ?case
  proof (cases "start = NULL")
    case True
    have "m x \<noteq> None" using c(2) by simp
    from Cons.IH [OF c(3), of x] obtain r where r: "earliest m (list_next c) x = Some r" "r \<noteq> NULL"
        "r \<in> set xs \<or> r = x" "m r \<noteq> None" "\<forall>u. u \<in> set xs \<or> u = x \<and> u \<noteq> NULL \<longrightarrow> expires (the (m r)) \<le> expires (the (m u))"
      using \<open>m x \<noteq> None\<close> xn by auto
    have "earliest m t start = Some r" using c xn True lt r(1) by (simp add: earliest.simps [of m x])
    then show ?thesis using r True xn by (intro exI [of _ r]) auto
  next
    case False
    obtain d where d: "m start = Some d" using Cons.prems(2) [OF False] by blast
    let ?b = "if expires c < expires d then x else start"
    have b: "?b \<noteq> NULL" "m ?b \<noteq> None" using False xn c(2) d by simp_all
    from Cons.IH [OF c(3), of ?b] obtain r where r: "earliest m (list_next c) ?b = Some r" "r \<noteq> NULL"
        "r \<in> set xs \<or> r = ?b" "m r \<noteq> None" "\<forall>u. u \<in> set xs \<or> u = ?b \<and> u \<noteq> NULL \<longrightarrow> expires (the (m r)) \<le> expires (the (m u))"
      using b by auto
    have "earliest m t start = Some r" using c xn False d r(1) by (simp add: earliest.simps [of m x])
    moreover have "expires (the (m ?b)) \<le> expires (the (m x))" "expires (the (m ?b)) \<le> expires (the (m start))"
      using c(2) d by auto
    moreover have "expires (the (m r)) \<le> expires (the (m ?b))" using r(5) b(1) by blast
    ultimately show ?thesis using r(2-5) False by (intro exI [of _ r]) (auto split: if_splits intro: order_trans)
  qed
qed


lemma set_deadline_ok:
  assumes "n < 2 ^ 63" "e < 2 ^ 63"
  shows "timer_dev_set_deadline n e s =
    (if e \<le> n then (\<not> in_interrupt s, raise_softirq TIMER_SOFTIRQ s)
     else (False, if has_set_delay s then s\<lparr>oneshot := Some (e - n)\<rparr> else s))"
  using assms unfolding timer_dev_set_deadline_def Let_def delta_signed [OF assms] by auto

lemma texp_upd [simp]:
  "texp (raise_softirq i s) = texp s" "texp (s\<lparr>oneshot := d\<rparr>) = texp s"
  "timers_ok (raise_softirq i s) xs = timers_ok s xs" "timers_ok (s\<lparr>oneshot := d\<rparr>) xs = timers_ok s xs"
  "tlog (raise_softirq i s) = tlog s"
  by (simp_all add: texp_def fun_eq_iff raise_softirq_def timers_ok_def tstat_def)

lemma STIME_MAX_gt: "e < 2 ^ 63 \<Longrightarrow> e < STIME_MAX"
  by (simp add: STIME_MAX_def)







subsection \<open>Clock: proofs\<close>

lemma sft_loop_bound: "tmp < 2 ^ k \<Longrightarrow> k \<le> s \<Longrightarrow> \<exists>j \<le> k. sft_loop tmp s = s - j \<and> tmp < 2 ^ j"
proof (induction k arbitrary: tmp s)
  case 0
  then show ?case by (simp add: sft_loop.simps)
next
  case (Suc k)
  show ?case
  proof (cases "tmp = 0")
    case True
    then show ?thesis by (intro exI [of _ 0]) (simp add: sft_loop.simps)
  next
    case False
    have "tmp div 2 < 2 ^ k" using Suc.prems(1) by auto
    then obtain j where j: "j \<le> k" "sft_loop (tmp div 2) (s - 1) = s - 1 - j" "tmp div 2 < 2 ^ j"
      using Suc.IH [of "tmp div 2" "s - 1"] Suc.prems(2) by (metis One_nat_def Suc_le_mono Suc_pred less_le_trans zero_less_Suc)
    then show ?thesis using False by (intro exI [of _ "Suc j"]) (auto simp: sft_loop.simps [of tmp])
  qed
qed

lemma mult_loop_found:
  assumes "mult_loop from to acc tmp k = (mlt, sft)" "0 < sft" "0 < from" "from < 2 ^ 32" "to < 2 ^ 32" "k \<le> 32"
  shows "mlt < 2 ^ acc \<and> sft \<le> k \<and> mlt = (to * 2 ^ sft + from div 2) div from"
  using assms(1,6)
proof (induction k arbitrary: tmp)
  case 0
  then show ?case using assms(2) by simp
next
  case (Suc k)
  have "to * 2 ^ Suc k \<le> (2 ^ 32 - 1) * 2 ^ 32"
    using assms(5) Suc.prems(2) by (intro mult_le_mono power_increasing) auto
  moreover have "y \<le> (2 ^ 32 - 1) * 2 ^ 32 \<Longrightarrow> y + from div 2 < 2 ^ 64" for y :: nat using assms(4) by simp
  ultimately have "(to * 2 ^ Suc k + from div 2) mod 2 ^ 64 = to * 2 ^ Suc k + from div 2" by (intro mod_less)
  then show ?case using Suc.prems Suc.IH [of "(to * 2 ^ Suc k + from div 2) div from"]
    by (auto simp: Let_def div_eq_0_iff simp del: power_Suc split: if_splits intro: le_SucI)
qed

text \<open>
  C35. The factors that \<open>clocks_calc_mult_shift\<close> computes, whenever it finds a pair with a positive
  shift, are as its comment promises: the factor is the quotient of the two frequencies, scaled
  by the shift and rounded to the nearest number, and no conversion of a cycle count within
  \<open>maxsec\<close> seconds overflows 64 bits.
\<close>

theorem mult_shift_no_overflow:
  assumes "0 < from" "from < 2 ^ 32" "to < 2 ^ 32" "maxsec < 2 ^ 32"
    "clocks_calc_mult_shift from to maxsec = (mlt, sft)" "0 < sft"
  shows "2 * (mlt * from) \<le> 2 * (to * 2 ^ sft) + from \<and> 2 * (to * 2 ^ sft) \<le> 2 * (mlt * from) + from \<and>
    (\<forall>c. c \<le> maxsec * from \<longrightarrow> c * mlt < 2 ^ 64)"
proof -
  have p: "maxsec * from < 2 ^ 32 * 2 ^ 32" using assms(2,4) by (intro mult_strict_mono) auto
  then have pm: "(maxsec * from) mod 2 ^ 64 = maxsec * from" by (intro mod_less) simp
  have "maxsec * from div 2 ^ 32 < 2 ^ 32" using p by (intro less_mult_imp_div_less) simp
  then obtain j where j: "j \<le> 32" "sft_loop (maxsec * from div 2 ^ 32) 32 = 32 - j" "maxsec * from div 2 ^ 32 < 2 ^ j"
    using sft_loop_bound [of _ 32 32] by blast
  obtain mlt' where l: "mult_loop from to (32 - j) 0 32 = (mlt', sft)" "mlt = mlt' mod 2 ^ 32"
    using assms(5) j(2) pm by (auto simp: clocks_calc_mult_shift_def Let_def split: prod.splits)
  note f = mult_loop_found [OF l(1) assms(6,1,2,3) order_refl]
  have "(2::nat) ^ (32 - j) \<le> 2 ^ 32" by (intro power_increasing) auto
  then have m: "mlt = mlt'" "mlt < 2 ^ (32 - j)" using l(2) f by auto
  have "maxsec * from < 2 ^ j * 2 ^ 32" using j(3) by (simp add: div_less_iff_less_mult)
  then have "c * mlt < 2 ^ 64" if "c \<le> maxsec * from" for c
  proof -
    have "c * mlt \<le> (2 ^ j * 2 ^ 32) * mlt" using that \<open>maxsec * from < 2 ^ j * 2 ^ 32\<close> by (intro mult_le_mono1) simp
    also have "\<dots> < (2 ^ j * 2 ^ 32) * 2 ^ (32 - j)" using m(2) by (intro mult_strict_left_mono) auto
    also have "\<dots> = 2 ^ (j + 32 + (32 - j))" by (simp only: power_add)
    also have "\<dots> = 2 ^ 64" using j(1) by simp
    finally show ?thesis .
  qed
  moreover have "2 * (mlt * from) \<le> 2 * (to * 2 ^ sft) + from" "2 * (to * 2 ^ sft) \<le> 2 * (mlt * from) + from"
    using rounded_quotient [OF assms(1)] f m(1) by blast+
  ultimately show ?thesis by blast
qed

theorem mult_shift_no_overflow_witness:
  "clocks_calc_mult_shift 8 3 1 = (1610612736, 32) \<and> 2 * (1610612736 * 8) \<le> 2 * (3 * 2 ^ 32) + (8::nat)"
proof -
  have "mult_loop 8 3 32 0 (Suc 31) = (1610612736, 32)" unfolding mult_loop.simps Let_def by simp
  then have e: "clocks_calc_mult_shift 8 3 1 = (1610612736, 32)"
    by (simp add: clocks_calc_mult_shift_def sft_loop.simps)
  show ?thesis using e mult_shift_no_overflow [OF _ _ _ _ e] by simp
qed

text \<open>
  C34. The system time never goes back, whatever the counter returns: a reading a little behind
  the last one counts as no progress and leaves the reference in place, any other reading adds the
  masked difference, so that a counter that wrapped around is followed across the wrap. Since
  "a little" means less than \<open>2 ^ 32\<close>, every wrap of a counter of at most 32 bits counts as no
  progress. Interrupts are enabled afterwards if they were before. Without a registered clocksource
  the result is 0 and interrupts stay disabled. The last hypothesis says that the 64-bit sum does
  not overflow.
\<close>

theorem clock_monotone:
  assumes "cycle_last cs < 2 ^ 64" "csbits cs \<le> 64" "sys_time cs + 2 ^ 64 div 2 ^ csshift cs < 2 ^ 64"
  shows "sys_time cs \<le> fst (get_s_time cs irq (Some cyc)) \<and> fst (get_s_time cs irq (Some cyc)) = sys_time (snd (snd (get_s_time cs irq (Some cyc)))) \<and>
    (cyc < cycle_last cs \<and> cycle_last cs - cyc < CYCLE_DELTA_MIN \<longrightarrow> get_s_time cs irq (Some cyc) = (sys_time cs, irq, cs)) \<and>
    (csbits cs \<le> 32 \<and> cycle_last cs < 2 ^ csbits cs \<and> cyc < cycle_last cs \<longrightarrow> get_s_time cs irq (Some cyc) = (sys_time cs, irq, cs)) \<and>
    (\<forall>d. d < 2 ^ csbits cs \<and> cyc = (cycle_last cs + d) mod 2 ^ csbits cs \<and> cycle_last cs < 2 ^ csbits cs \<and>
       \<not> (cyc < cycle_last cs \<and> cycle_last cs - cyc < CYCLE_DELTA_MIN) \<longrightarrow>
       get_s_time cs irq (Some cyc) = (sys_time cs + cyc2ns cs d, irq, cs\<lparr>cycle_last := cyc, sys_time := sys_time cs + cyc2ns cs d\<rparr>)) \<and>
    get_s_time cs irq None = (0, False, cs)"
proof -
  let ?J = "cyc < cycle_last cs \<and> cycle_last cs - cyc < CYCLE_DELTA_MIN"
  let ?D = "(2 ^ 64 + cyc - cycle_last cs) mod 2 ^ 64 mod 2 ^ csbits cs"
  have c: "cyc2ns cs d \<le> 2 ^ 64 div 2 ^ csshift cs" for d unfolding cyc2ns_def by (intro div_le_mono) simp
  have s: "(sys_time cs + cyc2ns cs d) mod 2 ^ 64 = sys_time cs + cyc2ns cs d" for d
    using c [of d] assms(3) by (intro mod_less) (rule le_less_trans [OF add_le_mono [OF order_refl]])
  have z: "(sys_time cs + cyc2ns cs 0) mod 2 ^ 64 = sys_time cs" unfolding s by (simp add: cyc2ns_def)
  have jit: "get_s_time cs irq (Some cyc) = (sys_time cs, irq, cs)" if "?J"
    unfolding get_s_time_def option.case if_P [OF that] prod.case Let_def z by simp
  have run: "get_s_time cs irq (Some cyc) = (sys_time cs + cyc2ns cs ?D, irq, cs\<lparr>cycle_last := cyc, sys_time := sys_time cs + cyc2ns cs ?D\<rparr>)"
    if "\<not> ?J"
    unfolding get_s_time_def option.case if_not_P [OF that] prod.case Let_def s by simp
  have mono: "sys_time cs \<le> fst (get_s_time cs irq (Some cyc))" "fst (get_s_time cs irq (Some cyc)) = sys_time (snd (snd (get_s_time cs irq (Some cyc))))"
    using jit run by (cases "?J"; simp)+
  have narrow: "get_s_time cs irq (Some cyc) = (sys_time cs, irq, cs)"
    if "csbits cs \<le> 32" "cycle_last cs < 2 ^ csbits cs" "cyc < cycle_last cs"
  proof (rule jit)
    have "(2::nat) ^ csbits cs \<le> 2 ^ 32" using that(1) by (intro power_increasing) auto
    then show ?J using that(2,3) by (simp add: CYCLE_DELTA_MIN_def)
  qed
  have wrap: "get_s_time cs irq (Some cyc) = (sys_time cs + cyc2ns cs d, irq, cs\<lparr>cycle_last := cyc, sys_time := sys_time cs + cyc2ns cs d\<rparr>)"
    if "d < 2 ^ csbits cs" "cyc = (cycle_last cs + d) mod 2 ^ csbits cs" "cycle_last cs < 2 ^ csbits cs" "\<not> ?J" for d
    using run [OF that(4)] unfolding masked_difference [OF that(1-3) assms(2,1)] .
  have none: "get_s_time cs irq None = (0, False, cs)" by (simp add: get_s_time_def)
  show ?thesis using mono jit narrow wrap none by blast
qed

theorem clock_monotone_witness:
  "get_s_time \<lparr>cycle_last = 2 ^ 33 - 2, csbits = 33, csmult = 512, csshift = 8, sys_time = 1000\<rparr> True (Some 3) =
    (1010, True, \<lparr>cycle_last = 3, csbits = 33, csmult = 512, csshift = 8, sys_time = 1010\<rparr>)"
proof -
  let ?cs = "\<lparr>cycle_last = 2 ^ 33 - 2, csbits = 33, csmult = 512, csshift = 8, sys_time = 1000\<rparr>"
  have "cycle_last ?cs < 2 ^ 64" "csbits ?cs \<le> 64" "sys_time ?cs + 2 ^ 64 div 2 ^ csshift ?cs < 2 ^ 64" by simp_all
  from clock_monotone [OF this, of True 3, THEN conjunct2, THEN conjunct2, THEN conjunct2, THEN conjunct2, THEN conjunct1, THEN spec [of _ 5]]
  show ?thesis by (simp add: CYCLE_DELTA_MIN_def cyc2ns_def)
qed

subsection \<open>Properties of the timers\<close>

lemma stop_timer_pending:
  assumes "timers_ok s xs" "tmem s t = Some c"
  shows "\<exists>s'. stop_timer t s = Some s' \<and> timers_ok s' (remove1 t xs) \<and> pending s' = (pending s)(t := None)"
proof -
  obtain s' where s': "stop_timer t s = Some s'" "timers_ok s' (remove1 t xs)" "texp s' = texp s"
      "tstat s' = (if status c = TIMER_STATUS_in_list then (tstat s)(t \<mapsto> TIMER_STATUS_inactive) else tstat s)"
    using stop_timer_ok [OF assms] by blast
  have "tstat s t = Some (status c)" using assms(2) by (simp add: tstat_def)
  then have "pending s' = (pending s)(t := None)" using s'(3,4) by (auto simp: pending_def fun_eq_iff)
  then show ?thesis using s' by blast
qed

text \<open>
  C8. The linked list of timers implements a finite map from timers to deadlines. On a well-formed
  list every operation returns, leaves the list well formed and changes the map as its
  description says: \<open>set_timer\<close> enters the timer with the new deadline, whatever deadline it had
  before, unless it was killed; \<open>stop_timer\<close> removes it and does nothing to a timer that is not
  there; \<open>kill_timer\<close> removes it for good, so that a later \<open>set_timer\<close> has no effect.
\<close>

theorem timer_ops_refine:
  assumes "timers_ok s xs" "tmem s t = Some c"
  shows "(has_function c \<longrightarrow> (\<exists>s' ys. set_timer_entry t e s = Some s' \<and> timers_ok s' ys \<and>
      pending s' = (if status c = TIMER_STATUS_killed then pending s else (pending s)(t \<mapsto> e)))) \<and>
    (\<exists>s' ys. stop_timer t s = Some s' \<and> timers_ok s' ys \<and> pending s' = (pending s)(t := None)) \<and>
    (trunning s \<noteq> t \<longrightarrow> (\<exists>s' ys. kill_timer t s = Some s' \<and> timers_ok s' ys \<and>
      tstat s' t = Some TIMER_STATUS_killed \<and> pending s' = (pending s)(t := None)))"
  using set_timer_entry_ok [OF assms] stop_timer_pending [OF assms] kill_timer_ok [OF assms] by blast

definition ex_timers :: timers where
  "ex_timers = \<lparr>tmem = [8 \<mapsto> \<lparr>expires = 50, list_next = 16, has_function = True, status = TIMER_STATUS_in_list\<rparr>,
     16 \<mapsto> \<lparr>expires = 20, list_next = NULL, has_function = True, status = TIMER_STATUS_in_list\<rparr>,
     24 \<mapsto> \<lparr>expires = 0, list_next = NULL, has_function = True, status = TIMER_STATUS_inactive\<rparr>],
     tlist = 8, trunning = NULL, tlog = [], softirq_stat = (\<lambda>_. False), in_interrupt = False, has_set_delay = True,
     oneshot = None\<rparr>"

lemma ex_timers_ok: "timers_ok ex_timers [8, 16]"
  by (auto simp: timers_ok_def ex_timers_def tstat_def)

lemma ex_timers_bound: "\<forall>u e. texp ex_timers u = Some e \<longrightarrow> e < 2 ^ 63"
  by (auto simp: ex_timers_def texp_def)

theorem timer_ops_refine_witness:
  "\<exists>s' ys. set_timer_entry 24 30 ex_timers = Some s' \<and> timers_ok s' ys \<and> pending s' = (pending ex_timers)(24 \<mapsto> 30)"
  using timer_ops_refine [OF ex_timers_ok, of 24
      "\<lparr>expires = 0, list_next = NULL, has_function = True, status = TIMER_STATUS_inactive\<rparr>" 30]
  by (simp add: ex_timers_def)



lemma first_pending_timer:
  assumes "softirq_stat s TIMER_SOFTIRQ"
  shows "first_pending [0..<NR_SOFTIRQS] s = TIMER_SOFTIRQ"
  using assms by (simp add: NR_SOFTIRQS_def TIMER_SOFTIRQ_def upt_rec)

lemma first_pending_none:
  assumes "\<And>i. \<not> softirq_stat s i"
  shows "first_pending is s = NR_SOFTIRQS"
  using assms by (induction "is") simp_all

lemma run_expired_none:
  assumes "tpath (tmem s) cur xs NULL" "tmem s NULL = None" "\<forall>t. t \<in> set xs \<longrightarrow> \<not> expired s now t"
  shows "run_expired cb now cur s = Some s"
  using assms(1,3)
proof (induction xs arbitrary: cur)
  case Nil
  then show ?case by (simp add: run_expired.simps)
next
  case (Cons x xs)
  obtain c where c: "cur = x" "tmem s x = Some c" "tpath (tmem s) (list_next c) xs NULL" using Cons.prems(1) by auto
  have "x \<noteq> NULL" using c(2) assms(2) by (metis option.distinct(1))
  moreover have "\<not> expires c \<le> now" using Cons.prems(2) c(2) by (auto simp: expired_def texp_def)
  moreover have "run_expired cb now (list_next c) s = Some s" using Cons.IH [OF c(3)] Cons.prems(2) by simp
  ultimately show ?case using c by (simp add: run_expired.simps [of cb now x])
qed

lemma upd_timer_frame:
  "upd_timer t f s = Some s' \<Longrightarrow> (softirq_stat s', in_interrupt s', has_set_delay s', tlog s') = (softirq_stat s, in_interrupt s, has_set_delay s, tlog s)"
  by (auto simp: upd_timer_def split: Option.bind_splits)

lemma remove_from_list_frame:
  "remove_from_list t s = Some s' \<Longrightarrow> (softirq_stat s', in_interrupt s', has_set_delay s', tlog s') = (softirq_stat s, in_interrupt s, has_set_delay s, tlog s)"
  by (auto simp: remove_from_list_def split: Option.bind_splits if_splits dest!: upd_timer_frame)

lemma add_to_list_frame:
  "add_to_list t s = Some s' \<Longrightarrow> (softirq_stat s', in_interrupt s', has_set_delay s', tlog s') = (softirq_stat s, in_interrupt s, has_set_delay s, tlog s)"
  by (auto simp: add_to_list_def split: Option.bind_splits if_splits dest!: upd_timer_frame)

lemma stop_timer_frame:
  "stop_timer t s = Some s' \<Longrightarrow> (softirq_stat s', in_interrupt s', has_set_delay s', tlog s') = (softirq_stat s, in_interrupt s, has_set_delay s, tlog s)"
  by (auto simp: stop_timer_def remove_entry_def split: Option.bind_splits if_splits
      dest!: upd_timer_frame remove_from_list_frame)

lemma set_timer_entry_frame:
  "set_timer_entry t e s = Some s' \<Longrightarrow> (softirq_stat s', in_interrupt s', has_set_delay s', tlog s') = (softirq_stat s, in_interrupt s, has_set_delay s, tlog s)"
  by (auto simp: set_timer_entry_def add_entry_def split: Option.bind_splits if_splits
      dest!: upd_timer_frame add_to_list_frame stop_timer_frame)

lemma pending_iff:
  assumes "timers_ok s xs"
  shows "pending s u = Some d \<longleftrightarrow> u \<in> set xs \<and> texp s u = Some d"
  using assms by (simp add: pending_def timers_ok_def)

text \<open>A turn of the action when no deadline has been reached: only the device is programmed.\<close>

lemma idle_turn:
  assumes ok: "timers_ok s xs" and ne: "xs \<noteq> []" and b: "\<forall>u e. texp s u = Some e \<longrightarrow> e < 2 ^ 63" and n: "n' < 2 ^ 63" "n \<le> n'"
    and f: "\<forall>u d. pending s u = Some d \<longrightarrow> n' < d" and hs: "has_set_delay s"
  shows "\<exists>d. timer_softirq_turn cb n n' s = Some (False, s\<lparr>oneshot := Some d\<rparr>) \<and> (\<exists>u. pending s u = Some (n' + d)) \<and>
    (\<forall>u x. pending s u = Some x \<longrightarrow> n' + d \<le> x)"
proof -
  have p: "tpath (tmem s) (tlist s) xs NULL" "tmem s NULL = None" using ok by (simp_all add: timers_ok_def)
  have "\<not> expired s n t" if "t \<in> set xs" for t
  proof
    assume "expired s n t"
    then obtain x where x: "texp s t = Some x" "x \<le> n" by (auto simp: expired_def)
    then have "n' < x" using f that pending_iff [OF ok] by blast
    then show False using x(2) n(2) by simp
  qed
  then have r: "run_expired cb n (tlist s) s = Some s" by (intro run_expired_none [OF p]) blast
  have b1: "\<forall>u c. tmem s u = Some c \<longrightarrow> expires c < 2 ^ 63" using b by (auto simp: texp_def)
  then have b2: "\<forall>u c. tmem s u = Some c \<longrightarrow> expires c < STIME_MAX" using STIME_MAX_gt by blast
  obtain r where e: "earliest (tmem s) (tlist s) NULL = Some r" "r \<noteq> NULL" "r \<in> set xs" "tmem s r \<noteq> None"
      "\<forall>u. u \<in> set xs \<longrightarrow> expires (the (tmem s r)) \<le> expires (the (tmem s u))"
    using earliest_ok [OF p b2, where start = NULL] ne by auto
  then obtain c where c: "tmem s r = Some c" by blast
  then have pr: "pending s r = Some (expires c)" using pending_iff [OF ok] e(3) by (simp add: texp_def)
  then have gt: "n' < expires c" using f by blast
  have ec: "expires c < 2 ^ 63" using b1 c by blast
  have "timer_softirq_turn cb n n' s = Some (False, s\<lparr>oneshot := Some (expires c - n')\<rparr>)"
    using r e(1,2) c gt hs set_deadline_ok [OF n(1) ec] by (simp add: timer_softirq_turn_def)
  moreover have "n' + (expires c - n') = expires c" using gt by simp
  moreover have "expires c \<le> x" if "pending s u = Some x" for u x
  proof -
    have "u \<in> set xs" "texp s u = Some x" using that pending_iff [OF ok] by simp_all
    then show ?thesis using e(5) c by (auto simp: texp_def)
  qed
  ultimately show ?thesis using pr by (intro exI [of _ "expires c - n'"]) auto
qed

text \<open>
  C33. Setting a timer takes effect at once in the following situation: the call is made outside
  interrupt context, the timer has a callback and was not killed, there is a oneshot device, no
  softirq is pending, and at the time the device function reads neither the new nor any pending
  deadline has been reached. Then the new deadline is entered, the timer softirq is raised and run
  before \<open>set_timer\<close> returns, no callback is called, and the oneshot device is programmed with the
  delay to the earliest of all pending deadlines, the new one included.
\<close>

theorem set_timer_programs_earliest:
  assumes "timers_ok s xs" "tmem s t = Some c" "has_function c" "status c \<noteq> TIMER_STATUS_killed"
    "\<not> in_interrupt s" "has_set_delay s" "\<forall>i. \<not> softirq_stat s i"
    "h TIMER_SOFTIRQ = timer_softirq_action cb now 0" "now 0 \<le> now 1" "now 1 < e" "e < 2 ^ 63"
    "\<forall>u d. texp s u = Some d \<longrightarrow> d < 2 ^ 63" "\<forall>u d. pending s u = Some d \<longrightarrow> now 1 < d"
  shows "\<exists>s' d. set_timer h t e s = Some s' \<and> pending s' = (pending s)(t \<mapsto> e) \<and> tlog s' = tlog s \<and>
    \<not> in_interrupt s' \<and> oneshot s' = Some d \<and> (\<exists>u. pending s' u = Some (now 1 + d)) \<and>
    (\<forall>u x. pending s' u = Some x \<longrightarrow> now 1 + d \<le> x)"
proof -
  obtain s1 where s1: "set_timer_entry t e s = Some s1" "timers_ok s1 (t # remove1 t xs)"
      "pending s1 = (pending s)(t \<mapsto> e)" "texp s1 = (texp s)(t \<mapsto> e)"
    using set_timer_entry_ok [OF assms(1-3), of e] assms(4) by auto
  have fr: "softirq_stat s1 = softirq_stat s" "in_interrupt s1 = in_interrupt s" "has_set_delay s1 = has_set_delay s" "tlog s1 = tlog s"
    using set_timer_entry_frame [OF s1(1)] by simp_all
  let ?s = "s1\<lparr>softirq_stat := (\<lambda>_. False)\<rparr>"
  have st: "(softirq_stat s1)(TIMER_SOFTIRQ := False) = (\<lambda>_. False)" using fr(1) assms(7) by (simp add: fun_eq_iff)
  have v: "pending ?s = pending s1" "texp ?s = texp s1" "timers_ok ?s ys = timers_ok s1 ys" for ys
    by (simp_all add: pending_def [abs_def] tviews [abs_def] timers_ok_def cong: if_cong)
  have n: "now 1 < 2 ^ 63" using assms(10,11) by simp
  have "\<exists>d. timer_softirq_turn cb (now 0) (now 1) ?s = Some (False, ?s\<lparr>oneshot := Some d\<rparr>) \<and> (\<exists>u. pending ?s u = Some (now 1 + d)) \<and>
    (\<forall>u x. pending ?s u = Some x \<longrightarrow> now 1 + d \<le> x)"
    by (rule idle_turn [of _ "t # remove1 t xs"]) (use s1 v n assms fr in \<open>auto split: if_splits\<close>)
  then obtain d where d: "timer_softirq_turn cb (now 0) (now 1) ?s = Some (False, ?s\<lparr>oneshot := Some d\<rparr>)"
      "\<exists>u. pending s1 u = Some (now 1 + d)" "\<forall>u x. pending s1 u = Some x \<longrightarrow> now 1 + d \<le> x" unfolding v by blast
  let ?r = "?s\<lparr>oneshot := Some d, in_interrupt := False\<rparr>"
  have act: "timer_softirq_action cb now 0 ?s = Some (?s\<lparr>oneshot := Some d\<rparr>)"
    using d(1) by (simp add: timer_softirq_action.simps)
  have fin: "do_softirq h (?s\<lparr>oneshot := Some d, in_interrupt := True\<rparr>) = Some ?r"
    by (subst do_softirq.simps) (simp add: first_pending_none Let_def)
  have fp: "first_pending [0..<NR_SOFTIRQS] (raise_softirq TIMER_SOFTIRQ s1) = TIMER_SOFTIRQ"
    by (intro first_pending_timer) (simp add: raise_softirq_def)
  have ne: "TIMER_SOFTIRQ \<noteq> NR_SOFTIRQS" by (simp add: TIMER_SOFTIRQ_def NR_SOFTIRQS_def)
  have "do_softirq h (raise_softirq TIMER_SOFTIRQ s1) = Some ?r"
    by (subst do_softirq.simps) (simp add: fp [unfolded raise_softirq_def] ne Let_def raise_softirq_def st assms(8) act fin)
  then have "set_timer h t e s = Some ?r" using s1(1) fr(2) assms(5) by (simp add: set_timer_def raise_softirq_def)
  moreover have "pending ?r = pending s1" by (simp add: pending_def [abs_def] tviews [abs_def] cong: if_cong)
  ultimately show ?thesis using d(2,3) s1(3) fr(4) by (intro exI [of _ ?r] exI [of _ d]) simp
qed

theorem set_timer_programs_earliest_witness:
  "\<exists>s' d. set_timer (\<lambda>_. timer_softirq_action (\<lambda>t s. Some s) (\<lambda>i. 10) 0) 24 15 ex_timers = Some s' \<and>
    pending s' = (pending ex_timers)(24 \<mapsto> 15) \<and> oneshot s' = Some d \<and> (\<exists>u. pending s' u = Some (10 + d))"
proof -
  let ?h = "\<lambda>_. timer_softirq_action (\<lambda>t s. Some s) (\<lambda>i. 10) 0"
  have "tmem ex_timers 24 = Some \<lparr>expires = 0, list_next = NULL, has_function = True, status = TIMER_STATUS_inactive\<rparr>"
    "\<not> in_interrupt ex_timers" "has_set_delay ex_timers" "\<forall>i. \<not> softirq_stat ex_timers i"
    "\<forall>u d. pending ex_timers u = Some d \<longrightarrow> 10 < d"
    by (auto simp: ex_timers_def pending_def tviews split: if_splits)
  then have "\<exists>s' d. set_timer ?h 24 15 ex_timers = Some s' \<and> pending s' = (pending ex_timers)(24 \<mapsto> 15) \<and>
    tlog s' = tlog ex_timers \<and> \<not> in_interrupt s' \<and> oneshot s' = Some d \<and> (\<exists>u. pending s' u = Some (10 + d)) \<and>
    (\<forall>u x. pending s' u = Some x \<longrightarrow> 10 + d \<le> x)"
    using ex_timers_bound by (intro set_timer_programs_earliest [OF ex_timers_ok, where now = "\<lambda>i. 10" and cb = "\<lambda>t s. Some s"]) auto
  then show ?thesis by blast
qed

end
