(* ===== verification/So3_Tables.thy ===== *)
theory So3_Tables
  imports So3_Prelude
begin

section \<open>Tables with free entries\<close>

text \<open>
  Many parts of the system keep fixed arrays of entries and look for the first one with a
  property: free event channels, free grant frames, free file descriptors, free stack slots. The
  loop with its early return is one function here, and its properties are proved once.
\<close>

fun first_index :: "('a \<Rightarrow> bool) \<Rightarrow> 'a list \<Rightarrow> nat option" where
  "first_index P [] = None"
| "first_index P (x # xs) = (if P x then Some 0 else map_option Suc (first_index P xs))"

lemma first_index_SomeD:
  "first_index P xs = Some i \<Longrightarrow> i < length xs \<and> P (xs ! i) \<and> (\<forall>j. j < i \<longrightarrow> \<not> P (xs ! j))"
proof (induction xs arbitrary: i)
  case (Cons x xs)
  show ?case
  proof (cases "P x")
    case False
    then obtain k where k: "i = Suc k" "first_index P xs = Some k" using Cons.prems by auto
    from Cons.IH [OF this(2)] False k(1) show ?thesis by (auto simp: nth_Cons split: nat.splits)
  qed (use Cons.prems in auto)
qed simp

lemma first_index_None: "first_index P xs = None \<longleftrightarrow> (\<forall>x \<in> set xs. \<not> P x)"
  by (induction xs) auto

lemma first_index_exists: "i < length xs \<Longrightarrow> P (xs ! i) \<Longrightarrow> \<exists>j \<le> i. first_index P xs = Some j"
proof (induction xs arbitrary: i)
  case (Cons x xs)
  show ?case
  proof (cases i)
    case (Suc k)
    then obtain j where "j \<le> k" "first_index P xs = Some j" using Cons.IH [of k] Cons.prems by auto
    then show ?thesis using Suc by auto
  qed (use Cons.prems in simp)
qed simp

text \<open>An access to an array is undefined outside its bounds.\<close>

definition at_index :: "'a list \<Rightarrow> nat \<Rightarrow> 'a option" where
  "at_index xs i = (if i < length xs then Some (xs ! i) else None)"

lemma at_index_Some [simp]: "at_index xs i = Some x \<longleftrightarrow> i < length xs \<and> xs ! i = x"
  by (auto simp: at_index_def)

lemma at_index_None [simp]: "at_index xs i = None \<longleftrightarrow> length xs \<le> i"
  by (auto simp: at_index_def)

lemma at_index_in [simp]: "i < length xs \<Longrightarrow> at_index xs i = Some (xs ! i)"
  by simp

lemma at_index_update: "at_index (xs[i := x]) j = (if j = i \<and> i < length xs then Some x else at_index xs j)"
  by (auto simp: at_index_def)

definition upd_index :: "'a list \<Rightarrow> nat \<Rightarrow> 'a \<Rightarrow> 'a list option" where
  "upd_index xs i x = (if i < length xs then Some (xs[i := x]) else None)"

lemma upd_index_Some [simp]: "upd_index xs i x = Some ys \<longleftrightarrow> i < length xs \<and> ys = xs[i := x]"
  by (auto simp: upd_index_def)

lemma upd_index_in [simp]: "i < length xs \<Longrightarrow> upd_index xs i x = Some (xs[i := x])"
  by simp

end
