(* ===== verification/So3_Evtchn.thy ===== *)
theory So3_Evtchn
  imports So3_Tables
begin

section \<open>Event channels of the hypervisor\<close>

text \<open>
  Model of \<open>so3/avz/kernel/event_channel.c\<close>: the channels of the domains, the hypercalls that
  allocate, bind, close and signal them, and their destruction with a domain. A domain is named
  by its number, which \<open>domain_create\<close> also stores as its \<open>domID\<close>; a pointer to a domain is such
  a number. \<open>None\<close> stands for a \<open>BUG\<close>, for an access through a null pointer or outside an array,
  and for waiting for a lock that is never released.

  The operations hold the \<open>event_lock\<close> of the domains they touch, so that each is one step and
  these locks do not appear, with two exceptions. \<open>__evtchn_close\<close> releases the lock of its domain
  when it has to take the other domain's lock first, and starts over; it is cut there. \<open>evtchn_send\<close>
  looks at the channel before it takes a lock; it is cut behind that. Other processors can run
  operations in these windows. The arrays of a domain have \<open>NR_EVTCHN\<close> and \<open>NR_VIRQS\<close> entries in the
  code and any length here. The \<open>virq_lock\<close> is part of the state, because one path takes it without
  releasing it. Interrupts are off in hypercalls.
\<close>

subsection \<open>Channels and domains\<close>

datatype chn_state = ECS_FREE | ECS_RESERVED | ECS_UNBOUND | ECS_INTERDOMAIN | ECS_VIRQ

record evtchn =
  cstate :: chn_state
  can_notify :: bool
  remote_domid :: nat
  remote_evtchn :: nat
  remote_dom :: "nat option"
  virq :: nat

record domain =
  evtchns :: "evtchn list"
  virq_to_evtchn :: "nat list"
  is_dying :: bool
  virq_lock :: bool
  evtchn_pending :: "bool list"
  upcall_pending :: bool
  processor :: nat

text \<open>The domains, and the processors to which an event was triggered.\<close>

record hyp =
  domains :: "nat \<Rightarrow> domain option"
  triggered :: "nat list"

definition DOMID_SELF :: nat where
  "DOMID_SELF = 0x7FF0"

definition upd_domain :: "nat \<Rightarrow> (domain \<Rightarrow> domain) \<Rightarrow> hyp \<Rightarrow> hyp option" where
  "upd_domain d f s = do { D \<leftarrow> domains s d; Some (s\<lparr>domains := (domains s)(d \<mapsto> f D)\<rparr>) }"

definition chan :: "hyp \<Rightarrow> nat \<Rightarrow> nat \<Rightarrow> evtchn option" where
  "chan s d e = do { D \<leftarrow> domains s d; at_index (evtchns D) e }"

definition upd_chan :: "nat \<Rightarrow> nat \<Rightarrow> (evtchn \<Rightarrow> evtchn) \<Rightarrow> hyp \<Rightarrow> hyp option" where
  "upd_chan d e f s =
     do {
       c \<leftarrow> chan s d e;
       upd_domain d (\<lambda>D. D\<lparr>evtchns := (evtchns D)[e := f c]\<rparr>) s
     }"

subsection \<open>Operations\<close>

datatype evtchn_error = EINVAL | ENOSPC

definition get_free_evtchn :: "domain \<Rightarrow> evtchn_error + nat" where
  "get_free_evtchn D =
     (if is_dying D then Inl EINVAL
      else case first_index (\<lambda>c. cstate c = ECS_FREE) (evtchns D) of Some i \<Rightarrow> Inr i | None \<Rightarrow> Inl ENOSPC)"

text \<open>The callers treat an error of \<open>get_free_evtchn\<close> as a bug.\<close>

definition need_free_evtchn :: "nat \<Rightarrow> hyp \<Rightarrow> nat option" where
  "need_free_evtchn d s =
     do { D \<leftarrow> domains s d; case get_free_evtchn D of Inl _ \<Rightarrow> None | Inr i \<Rightarrow> Some i }"

definition evtchn_alloc_unbound :: "nat \<Rightarrow> nat \<Rightarrow> nat \<Rightarrow> hyp \<Rightarrow> (nat \<times> hyp) option" where
  "evtchn_alloc_unbound cur dm rdom s =
     (let d = (if dm = DOMID_SELF then cur else dm)
      in do {
        e \<leftarrow> need_free_evtchn d s;
        s1 \<leftarrow> upd_chan d e (\<lambda>c. c\<lparr>cstate := ECS_UNBOUND, remote_domid := rdom\<rparr>) s;
        Some (e, s1)
      })"

definition connect :: "nat \<Rightarrow> nat \<Rightarrow> nat \<Rightarrow> nat \<Rightarrow> hyp \<Rightarrow> hyp option" where
  "connect ld levtchn rd revtchn s =
     do {
       s1 \<leftarrow> upd_chan ld levtchn (\<lambda>c. c\<lparr>remote_dom := Some rd, remote_evtchn := revtchn, cstate := ECS_INTERDOMAIN\<rparr>) s;
       upd_chan rd revtchn (\<lambda>c. c\<lparr>remote_dom := Some ld, remote_evtchn := levtchn, cstate := ECS_INTERDOMAIN\<rparr>) s1
     }"

definition evtchn_bind_interdomain :: "nat \<Rightarrow> nat \<Rightarrow> nat \<Rightarrow> hyp \<Rightarrow> (nat \<times> hyp) option" where
  "evtchn_bind_interdomain cur rdom revtchn s =
     (let rd = (if rdom = DOMID_SELF then cur else rdom)
      in do {
        levtchn \<leftarrow> need_free_evtchn cur s;
        rchn \<leftarrow> chan s rd revtchn;
        let valid = (cstate rchn = ECS_INTERDOMAIN \<and> remote_dom rchn = None);
        if \<not> valid \<and> (cstate rchn \<noteq> ECS_UNBOUND \<or> remote_domid rchn \<noteq> cur) then None
        else do { s1 \<leftarrow> connect cur levtchn rd revtchn s; Some (levtchn, s1) }
      })"

definition evtchn_bind_existing_interdomain :: "nat \<Rightarrow> nat \<Rightarrow> nat \<Rightarrow> nat \<Rightarrow> hyp \<Rightarrow> hyp option" where
  "evtchn_bind_existing_interdomain ld rd levtchn revtchn s =
     do {
       lchn \<leftarrow> chan s ld levtchn;
       s1 \<leftarrow> (if remote_domid lchn = ld then upd_chan rd revtchn (\<lambda>c. c\<lparr>remote_domid := rd\<rparr>) s else Some s);
       rchn \<leftarrow> chan s1 rd revtchn;
       if cstate rchn \<noteq> ECS_UNBOUND \<or> remote_domid rchn \<noteq> DOMID_SELF \<and> remote_domid rchn \<noteq> ld then None
       else connect ld levtchn rd revtchn s1
     }"

definition evtchn_bind_virq :: "nat \<Rightarrow> nat \<Rightarrow> hyp \<Rightarrow> (nat \<times> hyp) option" where
  "evtchn_bind_virq cur v s =
     do {
       D \<leftarrow> domains s cur;
       b \<leftarrow> at_index (virq_to_evtchn D) v;
       if b \<noteq> 0 then None
       else do {
         e \<leftarrow> need_free_evtchn cur s;
         s1 \<leftarrow> upd_chan cur e (\<lambda>c. c\<lparr>cstate := ECS_VIRQ, virq := v\<rparr>) s;
         s2 \<leftarrow> upd_domain cur (\<lambda>D. D\<lparr>virq_to_evtchn := (virq_to_evtchn D)[v := e]\<rparr>) s1;
         Some (e, s2)
       }
     }"

text \<open>The part of \<open>__evtchn_close\<close> that depends on the state of the channel, once it holds the locks it needs.\<close>

definition close_peer :: "nat \<Rightarrow> nat \<Rightarrow> hyp \<Rightarrow> hyp option" where
  "close_peer d1 chn s =
     do {
       chn1 \<leftarrow> chan s d1 chn;
       case cstate chn1 of
         ECS_FREE \<Rightarrow> Some s
       | ECS_RESERVED \<Rightarrow> Some s
       | ECS_UNBOUND \<Rightarrow> Some s
       | ECS_VIRQ \<Rightarrow> do {
           D \<leftarrow> domains s d1;
           tab \<leftarrow> upd_index (virq_to_evtchn D) (virq chn1) 0;
           if virq_lock D then None
           else upd_domain d1 (\<lambda>D. D\<lparr>virq_to_evtchn := tab, virq_lock := True\<rparr>) s
         }
       | ECS_INTERDOMAIN \<Rightarrow>
           (case remote_dom chn1 of
              None \<Rightarrow> Some s
            | Some d2 \<Rightarrow> do {
                chn2 \<leftarrow> chan s d2 (remote_evtchn chn1);
                if cstate chn2 \<noteq> ECS_INTERDOMAIN \<or> remote_dom chn2 \<noteq> Some d1 then None
                else upd_chan d2 (remote_evtchn chn1) (\<lambda>c. c\<lparr>cstate := ECS_UNBOUND, remote_domid := d1\<rparr>) s
              })
     }"

definition close_tail :: "nat \<Rightarrow> nat \<Rightarrow> hyp \<Rightarrow> hyp option" where
  "close_tail d1 chn s =
     do {
       D \<leftarrow> domains s d1;
       pend \<leftarrow> upd_index (evtchn_pending D) chn False;
       s2 \<leftarrow> upd_domain d1 (\<lambda>D. D\<lparr>evtchn_pending := pend\<rparr>) s;
       upd_chan d1 chn (\<lambda>c. c\<lparr>cstate := ECS_FREE\<rparr>) s2
     }"

text \<open>
  One round from the label \<open>again\<close>. \<open>before d1 d2\<close> is the comparison of the addresses of the two
  domains; \<open>held\<close> is the variable \<open>d2\<close>, the other domain whose lock an earlier round has taken. A
  round ends with the channel closed, or with the lock of \<open>d1\<close> released, and the code starts over.
\<close>

datatype close_result = Closed hyp | Again nat

definition close_round :: "(nat \<Rightarrow> nat \<Rightarrow> bool) \<Rightarrow> nat option \<Rightarrow> nat \<Rightarrow> nat \<Rightarrow> hyp \<Rightarrow> close_result option" where
  "close_round before held d1 chn s =
     do {
       chn1 \<leftarrow> chan s d1 chn;
       let finish = do { s1 \<leftarrow> close_peer d1 chn s; s2 \<leftarrow> close_tail d1 chn s1; Some (Closed s2) };
       if cstate chn1 \<noteq> ECS_INTERDOMAIN then finish
       else case held of
         None \<Rightarrow> (case remote_dom chn1 of
             None \<Rightarrow> finish
           | Some d2 \<Rightarrow> if before d1 d2 \<or> d1 = d2 then finish else Some (Again d2))
       | Some d2 \<Rightarrow> if remote_dom chn1 \<noteq> Some d2 then None else finish
     }"

text \<open>The function when nothing happens between the two rounds.\<close>

definition evtchn_close :: "(nat \<Rightarrow> nat \<Rightarrow> bool) \<Rightarrow> nat \<Rightarrow> nat \<Rightarrow> hyp \<Rightarrow> hyp option" where
  "evtchn_close before d1 chn s =
     do {
       r \<leftarrow> close_round before None d1 chn s;
       case r of
         Closed s1 \<Rightarrow> Some s1
       | Again d2 \<Rightarrow> do {
           r2 \<leftarrow> close_round before (Some d2) d1 chn s;
           case r2 of Closed s1 \<Rightarrow> Some s1 | Again _ \<Rightarrow> None
         }
     }"

definition evtchn_set_pending :: "nat \<Rightarrow> nat \<Rightarrow> hyp \<Rightarrow> hyp option" where
  "evtchn_set_pending d e s =
     do {
       D \<leftarrow> domains s d;
       pend \<leftarrow> upd_index (evtchn_pending D) e True;
       s1 \<leftarrow> upd_domain d (\<lambda>D. D\<lparr>evtchn_pending := pend, upcall_pending := True\<rparr>) s;
       Some (s1\<lparr>triggered := triggered s1 @ [processor D]\<rparr>)
     }"

text \<open>
  \<open>evtchn_send\<close> up to the point where it holds the locks, and from there; the remote domain is the
  one read at the beginning, the channel number is read under the locks.
\<close>

definition send_check :: "nat \<Rightarrow> nat \<Rightarrow> hyp \<Rightarrow> nat option" where
  "send_check ld levtchn s =
     do {
       lchn \<leftarrow> chan s ld levtchn;
       if cstate lchn \<noteq> ECS_INTERDOMAIN then None else remote_dom lchn
     }"

definition send_deliver :: "nat \<Rightarrow> nat \<Rightarrow> nat \<Rightarrow> hyp \<Rightarrow> hyp option" where
  "send_deliver ld levtchn rd s =
     do {
       lchn \<leftarrow> chan s ld levtchn;
       evtchn_set_pending rd (remote_evtchn lchn) s
     }"

definition evtchn_send :: "nat \<Rightarrow> nat \<Rightarrow> hyp \<Rightarrow> hyp option" where
  "evtchn_send ld levtchn s = do { rd \<leftarrow> send_check ld levtchn s; send_deliver ld levtchn rd s }"

definition send_guest_virq :: "nat \<Rightarrow> nat \<Rightarrow> hyp \<Rightarrow> hyp option" where
  "send_guest_virq d v s =
     do {
       D \<leftarrow> domains s d;
       if virq_lock D then None
       else do {
         e \<leftarrow> at_index (virq_to_evtchn D) v;
         if e = 0 then Some s else evtchn_set_pending d e s
       }
     }"

datatype evtchn_op =
    EVTCHNOP_alloc_unbound nat nat
  | EVTCHNOP_bind_interdomain nat nat
  | EVTCHNOP_bind_existing_interdomain nat nat nat
  | EVTCHNOP_bind_virq nat
  | EVTCHNOP_close nat
  | EVTCHNOP_send nat

text \<open>The result is the channel that the call hands back in its argument, if any.\<close>

fun do_event_channel_op :: "(nat \<Rightarrow> nat \<Rightarrow> bool) \<Rightarrow> nat \<Rightarrow> evtchn_op \<Rightarrow> hyp \<Rightarrow> (nat option \<times> hyp) option" where
  "do_event_channel_op before cur (EVTCHNOP_alloc_unbound dm rdom) s =
     do { (e, s1) \<leftarrow> evtchn_alloc_unbound cur dm rdom s; Some (Some e, s1) }"
| "do_event_channel_op before cur (EVTCHNOP_bind_interdomain rdom revtchn) s =
     do { (e, s1) \<leftarrow> evtchn_bind_interdomain cur rdom revtchn s; Some (Some e, s1) }"
| "do_event_channel_op before cur (EVTCHNOP_bind_existing_interdomain rdom levtchn revtchn) s =
     do { s1 \<leftarrow> evtchn_bind_existing_interdomain cur rdom levtchn revtchn s; Some (None, s1) }"
| "do_event_channel_op before cur (EVTCHNOP_bind_virq v) s =
     do { (e, s1) \<leftarrow> evtchn_bind_virq cur v s; Some (Some e, s1) }"
| "do_event_channel_op before cur (EVTCHNOP_close e) s =
     do { s1 \<leftarrow> evtchn_close before cur e s; Some (None, s1) }"
| "do_event_channel_op before cur (EVTCHNOP_send e) s =
     do { s1 \<leftarrow> evtchn_send cur e s; Some (None, s1) }"

definition evtchn_init :: "domain \<Rightarrow> domain" where
  "evtchn_init D =
     D\<lparr>evtchns := map (\<lambda>i. (evtchns D ! i)\<lparr>cstate := (if i = 0 then ECS_RESERVED else ECS_FREE), can_notify := True\<rparr>)
        [0..<length (evtchns D)]\<rparr>"

fun close_all :: "(nat \<Rightarrow> nat \<Rightarrow> bool) \<Rightarrow> nat \<Rightarrow> nat list \<Rightarrow> hyp \<Rightarrow> hyp option" where
  "close_all before d [] s = Some s"
| "close_all before d (i # is) s = do { s1 \<leftarrow> evtchn_close before d i s; close_all before d is s1 }"

definition evtchn_destroy :: "(nat \<Rightarrow> nat \<Rightarrow> bool) \<Rightarrow> nat \<Rightarrow> hyp \<Rightarrow> hyp option" where
  "evtchn_destroy before d s =
     do {
       D \<leftarrow> domains s d;
       if \<not> is_dying D then None else close_all before d [0..<length (evtchns D)] s
     }"

subsection \<open>Views and invariant\<close>

text \<open>
  The abstract state of the channels is the map that takes an end of a connection to its other
  end; an end is a domain and a channel number.
\<close>

type_synonym links = "nat \<times> nat \<Rightarrow> (nat \<times> nat) option"

definition chan_peer :: "evtchn \<Rightarrow> (nat \<times> nat) option" where
  "chan_peer c = (if cstate c = ECS_INTERDOMAIN then map_option (\<lambda>d. (d, remote_evtchn c)) (remote_dom c) else None)"

definition peer :: "hyp \<Rightarrow> links" where
  "peer s k = do { c \<leftarrow> chan s (fst k) (snd k); chan_peer c }"

definition symmetric :: "links \<Rightarrow> bool" where
  "symmetric m \<longleftrightarrow> (\<forall>k k'. m k = Some k' \<longrightarrow> m k' = Some k)"

definition link :: "nat \<times> nat \<Rightarrow> nat \<times> nat \<Rightarrow> links \<Rightarrow> links" where
  "link a b m = m(a \<mapsto> b, b \<mapsto> a)"

definition unlink :: "nat \<times> nat \<Rightarrow> links \<Rightarrow> links" where
  "unlink a m = (\<lambda>k. if k = a \<or> m k = Some a then None else m k)"

definition virq_ok :: "domain \<Rightarrow> bool" where
  "virq_ok D \<longleftrightarrow>
     (\<forall>v. v < length (virq_to_evtchn D) \<and> virq_to_evtchn D ! v \<noteq> 0 \<longrightarrow>
        virq_to_evtchn D ! v < length (evtchns D) \<and>
        cstate (evtchns D ! (virq_to_evtchn D ! v)) = ECS_VIRQ \<and> virq (evtchns D ! (virq_to_evtchn D ! v)) = v) \<and>
     (\<forall>c \<in> set (evtchns D). cstate c = ECS_VIRQ \<longrightarrow> virq c < length (virq_to_evtchn D))"

definition domain_ok :: "domain \<Rightarrow> bool" where
  "domain_ok D \<longleftrightarrow> length (evtchn_pending D) = length (evtchns D) \<and> virq_ok D"

definition evtchn_inv :: "hyp \<Rightarrow> bool" where
  "evtchn_inv s \<longleftrightarrow> symmetric (peer s) \<and> (\<forall>d D. domains s d = Some D \<longrightarrow> domain_ok D)"

lemma symmetricD: "symmetric m \<Longrightarrow> m k = Some k' \<Longrightarrow> m k' = Some k"
  unfolding symmetric_def by blast

lemma symmetric_link:
  assumes "symmetric m" "m a = None" "m b = None"
  shows "symmetric (link a b m)"
  unfolding symmetric_def link_def
proof (intro allI impI)
  fix k k' assume h: "(m(a \<mapsto> b, b \<mapsto> a)) k = Some k'"
  show "(m(a \<mapsto> b, b \<mapsto> a)) k' = Some k"
  proof (cases "k = a \<or> k = b")
    case False
    then have "m k = Some k'" using h by simp
    then have "m k' = Some k" by (rule symmetricD [OF assms(1)])
    moreover from this have "k' \<noteq> a" "k' \<noteq> b" using assms(2,3) by (metis option.distinct(1))+
    ultimately show ?thesis by simp
  qed (use h in \<open>auto split: if_splits\<close>)
qed

lemma symmetric_unlink:
  assumes "symmetric m"
  shows "symmetric (unlink a m)"
  unfolding symmetric_def unlink_def
proof (intro allI impI)
  fix k k' assume h: "(if k = a \<or> m k = Some a then None else m k) = Some k'"
  then have k: "k \<noteq> a" "m k \<noteq> Some a" "m k = Some k'" by (simp_all split: if_splits)
  then have "m k' = Some k" using symmetricD [OF assms] by blast
  then show "(if k' = a \<or> m k' = Some a then None else m k') = Some k" using k by simp
qed

lemma upd_chan_SomeD:
  assumes "upd_chan d e f s = Some s'"
  shows "\<exists>D. domains s d = Some D \<and> e < length (evtchns D) \<and>
    s' = s\<lparr>domains := (domains s)(d \<mapsto> D\<lparr>evtchns := (evtchns D)[e := f (evtchns D ! e)]\<rparr>)\<rparr>"
  using assms by (auto simp: upd_chan_def chan_def upd_domain_def split: Option.bind_splits)

lemma upd_chan_chan:
  assumes "upd_chan d e f s = Some s'"
  shows "chan s' d' e' = (if d' = d \<and> e' = e then map_option f (chan s d e) else chan s d' e')"
  using upd_chan_SomeD [OF assms] by (auto simp: chan_def at_index_def)

lemma upd_chan_ok:
  assumes "upd_chan d e f s = Some s'" "\<forall>d D. domains s d = Some D \<longrightarrow> domain_ok D"
    "\<forall>c. chan s d e = Some c \<longrightarrow> cstate c \<noteq> ECS_VIRQ \<and> cstate (f c) \<noteq> ECS_VIRQ"
  shows "\<forall>d D. domains s' d = Some D \<longrightarrow> domain_ok D"
proof -
  obtain D where D: "domains s d = Some D" "e < length (evtchns D)"
      "s' = s\<lparr>domains := (domains s)(d \<mapsto> D\<lparr>evtchns := (evtchns D)[e := f (evtchns D ! e)]\<rparr>)\<rparr>"
    using upd_chan_SomeD [OF assms(1)] by blast
  let ?D = "D\<lparr>evtchns := (evtchns D)[e := f (evtchns D ! e)]\<rparr>"
  have nv: "cstate (evtchns D ! e) \<noteq> ECS_VIRQ" "cstate (f (evtchns D ! e)) \<noteq> ECS_VIRQ"
    using assms(3) D(1,2) by (simp_all add: chan_def)
  have ok: "domain_ok D" using assms(2) D(1) by blast
  have "virq_ok ?D"
    unfolding virq_ok_def
  proof (intro conjI allI ballI impI)
    fix v assume v: "v < length (virq_to_evtchn ?D) \<and> virq_to_evtchn ?D ! v \<noteq> 0"
    then have w: "virq_to_evtchn D ! v < length (evtchns D)" "cstate (evtchns D ! (virq_to_evtchn D ! v)) = ECS_VIRQ"
        "virq (evtchns D ! (virq_to_evtchn D ! v)) = v"
      using ok by (auto simp: domain_ok_def virq_ok_def)
    then have "virq_to_evtchn D ! v \<noteq> e" using nv(1) by auto
    then show "virq_to_evtchn ?D ! v < length (evtchns ?D)" "cstate (evtchns ?D ! (virq_to_evtchn ?D ! v)) = ECS_VIRQ"
        "virq (evtchns ?D ! (virq_to_evtchn ?D ! v)) = v"
      using w by simp_all
  next
    fix c assume "c \<in> set (evtchns ?D)" "cstate c = ECS_VIRQ"
    then show "virq c < length (virq_to_evtchn ?D)"
      using nv(2) ok set_update_subset_insert [of "evtchns D" e "f (evtchns D ! e)"] by (auto simp: domain_ok_def virq_ok_def)
  qed
  then show ?thesis using assms(2) D(3) ok by (auto simp: domain_ok_def)
qed

lemma peer_upd_chan:
  assumes "upd_chan d e f s = Some s'"
  shows "peer s' = (peer s)((d, e) := (case chan s d e of None \<Rightarrow> None | Some c \<Rightarrow> chan_peer (f c)))"
  by (auto simp: peer_def fun_eq_iff upd_chan_chan [OF assms] split: option.splits Option.bind_splits)

lemma upd_chan_some: "chan s d e \<noteq> None \<Longrightarrow> \<exists>s'. upd_chan d e f s = Some s'"
  by (auto simp: upd_chan_def upd_domain_def chan_def split: Option.bind_splits)

lemma need_free_chan:
  assumes "need_free_evtchn d s = Some e"
  shows "\<exists>c. chan s d e = Some c \<and> cstate c = ECS_FREE"
  using assms first_index_SomeD
  by (fastforce simp: need_free_evtchn_def get_free_evtchn_def chan_def split: Option.bind_splits sum.splits if_splits option.splits)

lemma connect_ok:
  assumes c: "connect ld l rd r s = Some s'" and inv: "evtchn_inv s"
    and lc: "chan s ld l = Some c1" "cstate c1 \<noteq> ECS_VIRQ" "chan_peer c1 = None"
    and rc: "chan s rd r = Some c2" "cstate c2 \<noteq> ECS_VIRQ" "chan_peer c2 = None"
  shows "evtchn_inv s' \<and> peer s' = link (ld, l) (rd, r) (peer s)"
proof -
  let ?f = "\<lambda>c. c\<lparr>remote_dom := Some rd, remote_evtchn := r, cstate := ECS_INTERDOMAIN\<rparr>"
  let ?g = "\<lambda>c. c\<lparr>remote_dom := Some ld, remote_evtchn := l, cstate := ECS_INTERDOMAIN\<rparr>"
  obtain s1 where s1: "upd_chan ld l ?f s = Some s1" "upd_chan rd r ?g s1 = Some s'"
    using c by (auto simp: connect_def split: Option.bind_splits)
  have c1: "chan s1 rd r \<noteq> None" using rc(1) lc(1) by (auto simp: upd_chan_chan [OF s1(1)])
  have p: "peer s' = link (ld, l) (rd, r) (peer s)"
    unfolding peer_upd_chan [OF s1(2)] peer_upd_chan [OF s1(1)] using lc(1) c1
    by (auto simp: link_def chan_peer_def fun_eq_iff split: option.splits)
  have d1: "\<forall>d D. domains s1 d = Some D \<longrightarrow> domain_ok D"
    by (rule upd_chan_ok [OF s1(1)]) (use inv lc in \<open>simp_all add: evtchn_inv_def\<close>)
  have "\<forall>d D. domains s' d = Some D \<longrightarrow> domain_ok D"
    by (rule upd_chan_ok [OF s1(2) d1]) (use rc lc in \<open>auto simp: upd_chan_chan [OF s1(1)] split: if_splits\<close>)
  moreover have "symmetric (peer s')"
    unfolding p using inv lc rc by (intro symmetric_link) (simp_all add: evtchn_inv_def peer_def)
  ultimately show ?thesis using p by (simp add: evtchn_inv_def)
qed

lemma alloc_unbound_ok:
  assumes "evtchn_alloc_unbound cur dm rdom s = Some (e, s')" "evtchn_inv s"
  shows "evtchn_inv s' \<and> peer s' = peer s"
proof -
  let ?d = "if dm = DOMID_SELF then cur else dm"
  have e: "need_free_evtchn ?d s = Some e"
    and u: "upd_chan ?d e (\<lambda>c. c\<lparr>cstate := ECS_UNBOUND, remote_domid := rdom\<rparr>) s = Some s'"
    using assms(1) unfolding evtchn_alloc_unbound_def Let_def by (auto split: Option.bind_splits)
  obtain c where c: "chan s ?d e = Some c" "cstate c = ECS_FREE" using need_free_chan [OF e] by blast
  have "peer s' = peer s"
    unfolding peer_upd_chan [OF u] using c by (auto simp: peer_def chan_peer_def fun_eq_iff)
  moreover have "\<forall>d D. domains s' d = Some D \<longrightarrow> domain_ok D"
    by (rule upd_chan_ok [OF u]) (use assms(2) c in \<open>simp_all add: evtchn_inv_def\<close>)
  ultimately show ?thesis using assms(2) by (simp add: evtchn_inv_def)
qed

lemma bind_interdomain_ok:
  assumes "evtchn_bind_interdomain cur rdom r s = Some (l, s')" "evtchn_inv s"
  shows "evtchn_inv s' \<and> peer s' = link (cur, l) (if rdom = DOMID_SELF then cur else rdom, r) (peer s)"
proof -
  let ?rd = "if rdom = DOMID_SELF then cur else rdom"
  obtain rc where l: "need_free_evtchn cur s = Some l" and rc: "chan s ?rd r = Some rc"
      and g: "cstate rc = ECS_INTERDOMAIN \<and> remote_dom rc = None \<or> cstate rc = ECS_UNBOUND \<and> remote_domid rc = cur"
      and k: "connect cur l ?rd r s = Some s'"
    using assms(1) unfolding evtchn_bind_interdomain_def Let_def by (auto split: Option.bind_splits if_splits)
  obtain c where c: "chan s cur l = Some c" "cstate c = ECS_FREE" using need_free_chan [OF l] by blast
  show ?thesis
    by (rule connect_ok [OF k assms(2) c(1) _ _ rc]) (use c g in \<open>auto simp: chan_peer_def\<close>)
qed

lemma connect_peer:
  assumes "connect ld l rd r s = Some s'"
  shows "peer s' = link (ld, l) (rd, r) (peer s)"
proof -
  let ?f = "\<lambda>c. c\<lparr>remote_dom := Some rd, remote_evtchn := r, cstate := ECS_INTERDOMAIN\<rparr>"
  let ?g = "\<lambda>c. c\<lparr>remote_dom := Some ld, remote_evtchn := l, cstate := ECS_INTERDOMAIN\<rparr>"
  obtain s1 where s1: "upd_chan ld l ?f s = Some s1" "upd_chan rd r ?g s1 = Some s'"
    using assms by (auto simp: connect_def split: Option.bind_splits)
  have "chan s ld l \<noteq> None" "chan s1 rd r \<noteq> None" using s1 by (auto simp: upd_chan_def split: Option.bind_splits)
  then show ?thesis unfolding peer_upd_chan [OF s1(2)] peer_upd_chan [OF s1(1)]
    by (auto simp: link_def chan_peer_def fun_eq_iff split: option.splits)
qed

lemma bind_existing_links:
  assumes "evtchn_bind_existing_interdomain ld rd l r s = Some s'"
  shows "peer s' = link (ld, l) (rd, r) (peer s) \<and> peer s (rd, r) = None"
proof -
  obtain lc where lc: "chan s ld l = Some lc" using assms by (auto simp: evtchn_bind_existing_interdomain_def split: Option.bind_splits)
  obtain s1 rc where s1: "(if remote_domid lc = ld then upd_chan rd r (\<lambda>c. c\<lparr>remote_domid := rd\<rparr>) s else Some s) = Some s1"
      "chan s1 rd r = Some rc" "cstate rc = ECS_UNBOUND" "connect ld l rd r s1 = Some s'"
    using assms lc by (auto simp: evtchn_bind_existing_interdomain_def split: Option.bind_splits if_splits)
  have p: "peer s1 = peer s"
  proof (cases "remote_domid lc = ld")
    case True
    then have u: "upd_chan rd r (\<lambda>c. c\<lparr>remote_domid := rd\<rparr>) s = Some s1" using s1(1) by simp
    show ?thesis unfolding peer_upd_chan [OF u] by (auto simp: peer_def chan_peer_def fun_eq_iff split: option.splits)
  qed (use s1(1) in simp)
  have "peer s1 (rd, r) = None" using s1(2,3) by (simp add: peer_def chan_peer_def)
  then show ?thesis using connect_peer [OF s1(4)] p by simp
qed

text \<open>Linking an end that is connected to a third one leaves that one behind.\<close>

lemma symmetric_link_iff:
  assumes "symmetric m" "m b = None"
  shows "symmetric (link a b m) \<longleftrightarrow> (\<forall>k. m a = Some k \<longrightarrow> k = a)"
proof
  assume s: "symmetric (link a b m)"
  show "\<forall>k. m a = Some k \<longrightarrow> k = a"
  proof (intro allI impI, rule ccontr)
    fix k assume k: "m a = Some k" "k \<noteq> a"
    then have "m k = Some a" using symmetricD [OF assms(1)] by blast
    then have "k \<noteq> b" using assms(2) by auto
    then have "link a b m k = Some a" using k \<open>m k = Some a\<close> by (simp add: link_def)
    then have "link a b m a = Some k" by (rule symmetricD [OF s])
    then show False using \<open>k \<noteq> b\<close> k by (auto simp: link_def split: if_splits)
  qed
next
  assume a: "\<forall>k. m a = Some k \<longrightarrow> k = a"
  show "symmetric (link a b m)"
  proof (cases "m a")
    case (Some k)
    have n: "m k' \<noteq> Some a" if "k' \<noteq> a" for k' using symmetricD [OF assms(1), of k' a] a Some that by auto
    show ?thesis unfolding symmetric_def
    proof (intro allI impI)
      fix x y assume h: "link a b m x = Some y"
      show "link a b m y = Some x"
      proof (cases "x = a \<or> x = b")
        case False
        then have "m x = Some y" using h by (simp add: link_def)
        moreover from this have "m y = Some x" by (rule symmetricD [OF assms(1)])
        ultimately show ?thesis using n [of x] False assms(2) by (auto simp: link_def)
      qed (use h in \<open>auto simp: link_def split: if_splits\<close>)
    qed
  qed (simp add: symmetric_link assms)
qed

lemma bind_existing_ok:
  assumes b: "evtchn_bind_existing_interdomain ld rd l r s = Some s'" and inv: "evtchn_inv s" and np: "peer s (ld, l) = None"
    and nv: "\<forall>c. chan s ld l = Some c \<longrightarrow> cstate c \<noteq> ECS_VIRQ"
  shows "evtchn_inv s' \<and> peer s' = link (ld, l) (rd, r) (peer s)"
proof -
  obtain lc where lc: "chan s ld l = Some lc" using b by (auto simp: evtchn_bind_existing_interdomain_def split: Option.bind_splits)
  let ?f = "\<lambda>c. c\<lparr>remote_domid := rd\<rparr>"
  obtain s1 rc where s1: "(if remote_domid lc = ld then upd_chan rd r ?f s else Some s) = Some s1"
      "chan s1 rd r = Some rc" "cstate rc = ECS_UNBOUND" "connect ld l rd r s1 = Some s'"
    using b lc by (auto simp: evtchn_bind_existing_interdomain_def split: Option.bind_splits if_splits)
  have "peer s1 = peer s \<and> evtchn_inv s1 \<and> (\<exists>c. chan s1 ld l = Some c \<and> cstate c = cstate lc \<and> chan_peer c = None)"
  proof (cases "remote_domid lc = ld")
    case True
    then have u: "upd_chan rd r ?f s = Some s1" using s1(1) by simp
    then obtain c where c: "chan s rd r = Some c" "cstate c = ECS_UNBOUND"
      using s1(2,3) by (auto simp: upd_chan_chan [OF u])
    have p: "peer s1 = peer s"
      unfolding peer_upd_chan [OF u] using c by (auto simp: peer_def chan_peer_def fun_eq_iff)
    have "\<forall>d D. domains s1 d = Some D \<longrightarrow> domain_ok D"
      by (rule upd_chan_ok [OF u]) (use inv c in \<open>simp_all add: evtchn_inv_def\<close>)
    then show ?thesis using p inv lc np
      by (auto simp: evtchn_inv_def upd_chan_chan [OF u] peer_def chan_peer_def)
  qed (use s1(1) inv lc np in \<open>auto simp: peer_def\<close>)
  then obtain c where c: "peer s1 = peer s" "evtchn_inv s1" "chan s1 ld l = Some c" "cstate c = cstate lc" "chan_peer c = None"
    by blast
  have "cstate c \<noteq> ECS_VIRQ" using c(4) nv lc by simp
  moreover have "cstate rc \<noteq> ECS_VIRQ" "chan_peer rc = None" using s1(3) by (simp_all add: chan_peer_def)
  ultimately show ?thesis using connect_ok [OF s1(4) c(2,3) _ c(5) s1(2)] c(1) by simp
qed

lemma virq_ok_free:
  assumes ok: "domain_ok D" and e: "e < length (evtchns D)" "v < length (virq_to_evtchn D)" "cstate (evtchns D ! e) = ECS_FREE"
  shows "domain_ok (D\<lparr>evtchns := (evtchns D)[e := (evtchns D ! e)\<lparr>cstate := ECS_VIRQ, virq := v\<rparr>],
    virq_to_evtchn := (virq_to_evtchn D)[v := e]\<rparr>)" (is "domain_ok ?D")
proof -
  have "virq_ok ?D"
    unfolding virq_ok_def
  proof (intro conjI allI ballI impI)
    fix w assume w: "w < length (virq_to_evtchn ?D) \<and> virq_to_evtchn ?D ! w \<noteq> 0"
    have old: "virq_to_evtchn D ! w < length (evtchns D) \<and> cstate (evtchns D ! (virq_to_evtchn D ! w)) = ECS_VIRQ \<and>
        virq (evtchns D ! (virq_to_evtchn D ! w)) = w \<and> virq_to_evtchn D ! w \<noteq> e" if "w \<noteq> v"
      using ok w that e by (auto simp: domain_ok_def virq_ok_def)
    show "virq_to_evtchn ?D ! w < length (evtchns ?D)" "cstate (evtchns ?D ! (virq_to_evtchn ?D ! w)) = ECS_VIRQ"
        "virq (evtchns ?D ! (virq_to_evtchn ?D ! w)) = w"
      using old e by (cases "w = v"; simp)+
  next
    fix c assume "c \<in> set (evtchns ?D)" "cstate c = ECS_VIRQ"
    then show "virq c < length (virq_to_evtchn ?D)"
      using e ok set_update_subset_insert [of "evtchns D" e "(evtchns D ! e)\<lparr>cstate := ECS_VIRQ, virq := v\<rparr>"]
      by (auto simp: domain_ok_def virq_ok_def)
  qed
  then show ?thesis using ok by (simp add: domain_ok_def)
qed

lemma virq_ok_closed:
  assumes ok: "domain_ok D" and e: "e < length (evtchns D)" "cstate (evtchns D ! e) = ECS_VIRQ"
  shows "domain_ok (D\<lparr>virq_to_evtchn := (virq_to_evtchn D)[virq (evtchns D ! e) := 0], virq_lock := True,
    evtchn_pending := (evtchn_pending D)[e := False], evtchns := (evtchns D)[e := (evtchns D ! e)\<lparr>cstate := ECS_FREE\<rparr>]\<rparr>)"
    (is "domain_ok ?D")
proof -
  have "virq_ok ?D"
    unfolding virq_ok_def
  proof (intro conjI allI ballI impI)
    fix w assume w: "w < length (virq_to_evtchn ?D) \<and> virq_to_evtchn ?D ! w \<noteq> 0"
    then have ne: "w \<noteq> virq (evtchns D ! e)" by auto
    then have old: "virq_to_evtchn D ! w < length (evtchns D) \<and> cstate (evtchns D ! (virq_to_evtchn D ! w)) = ECS_VIRQ \<and>
        virq (evtchns D ! (virq_to_evtchn D ! w)) = w \<and> virq_to_evtchn D ! w \<noteq> e"
      using ok w by (auto simp: domain_ok_def virq_ok_def)
    then show "virq_to_evtchn ?D ! w < length (evtchns ?D)" "cstate (evtchns ?D ! (virq_to_evtchn ?D ! w)) = ECS_VIRQ"
        "virq (evtchns ?D ! (virq_to_evtchn ?D ! w)) = w"
      using ne e by simp_all
  next
    fix c assume "c \<in> set (evtchns ?D)" "cstate c = ECS_VIRQ"
    then show "virq c < length (virq_to_evtchn ?D)"
      using e ok set_update_subset_insert [of "evtchns D" e "(evtchns D ! e)\<lparr>cstate := ECS_FREE\<rparr>"]
      by (auto simp: domain_ok_def virq_ok_def)
  qed
  then show ?thesis using ok by (simp add: domain_ok_def)
qed

lemma bind_virq_ok:
  assumes "evtchn_bind_virq cur v s = Some (e, s')" "evtchn_inv s"
  shows "evtchn_inv s' \<and> peer s' = peer s"
proof -
  obtain D where D: "domains s cur = Some D" "v < length (virq_to_evtchn D)" and e: "need_free_evtchn cur s = Some e"
      and s': "s' = s\<lparr>domains := (domains s)(cur \<mapsto> D\<lparr>evtchns := (evtchns D)[e := (evtchns D ! e)\<lparr>cstate := ECS_VIRQ, virq := v\<rparr>],
        virq_to_evtchn := (virq_to_evtchn D)[v := e]\<rparr>)\<rparr>"
    using assms(1) by (auto simp: evtchn_bind_virq_def upd_domain_def upd_chan_def chan_def split: Option.bind_splits if_splits)
  have c: "e < length (evtchns D)" "cstate (evtchns D ! e) = ECS_FREE" using need_free_chan [OF e] D(1) by (auto simp: chan_def)
  have "peer s' = peer s"
    using D(1) c unfolding s' by (auto simp: peer_def chan_def chan_peer_def fun_eq_iff at_index_def nth_list_update)
  moreover have "domain_ok D" using assms(2) D(1) by (simp add: evtchn_inv_def)
  ultimately show ?thesis using virq_ok_free [OF _ c(1) D(2) c(2)] assms(2) unfolding s' by (auto simp: evtchn_inv_def)
qed

lemma unlink_None: "symmetric m \<Longrightarrow> m a = None \<Longrightarrow> unlink a m = m"
  unfolding unlink_def by (rule ext) (metis option.distinct(1) symmetricD)

lemma unlink_Some: "symmetric m \<Longrightarrow> m a = Some b \<Longrightarrow> unlink a m = m(b := None, a := None)"
  unfolding unlink_def by (rule ext) (metis fun_upd_apply option.inject symmetricD)

text \<open>Without interference the second round sees the channel of the first.\<close>

lemma evtchn_close_tail: "evtchn_close before d e s = do { s1 \<leftarrow> close_peer d e s; close_tail d e s1 }"
proof (cases "chan s d e")
  case (Some c)
  let ?f = "do { s1 \<leftarrow> close_peer d e s; s2 \<leftarrow> close_tail d e s1; Some (Closed s2) }"
  have f: "do { r \<leftarrow> ?f; case r of Closed s1 \<Rightarrow> Some s1 | Again d2 \<Rightarrow> g d2 } = do { s1 \<leftarrow> close_peer d e s; close_tail d e s1 }" for g
    by (cases "close_peer d e s") (auto split: Option.bind_splits)
  show ?thesis
    using f by (cases "cstate c = ECS_INTERDOMAIN"; cases "remote_dom c")
      (simp_all add: evtchn_close_def close_round_def Some)
qed (simp add: evtchn_close_def close_round_def close_peer_def)

lemma close_tail_ok:
  assumes ok: "\<forall>d D. domains s d = Some D \<longrightarrow> domain_ok D" and c: "chan s d e = Some c" "cstate c \<noteq> ECS_VIRQ"
  shows "\<exists>s'. close_tail d e s = Some s' \<and> peer s' = (peer s)((d, e) := None) \<and>
    (\<forall>d D. domains s' d = Some D \<longrightarrow> domain_ok D) \<and> chan s' d e = Some (c\<lparr>cstate := ECS_FREE\<rparr>) \<and>
    (\<forall>k. k \<noteq> (d, e) \<longrightarrow> chan s' (fst k) (snd k) = chan s (fst k) (snd k)) \<and> triggered s' = triggered s"
proof -
  obtain D where D: "domains s d = Some D" "e < length (evtchns D)" "evtchns D ! e = c"
    using c(1) by (auto simp: chan_def split: Option.bind_splits)
  let ?s = "s\<lparr>domains := (domains s)(d \<mapsto> D\<lparr>evtchn_pending := (evtchn_pending D)[e := False]\<rparr>)\<rparr>"
  have okD: "domain_ok D" using ok D(1) by blast
  then have ok1: "\<forall>d D. domains ?s d = Some D \<longrightarrow> domain_ok D" using ok by (auto simp: domain_ok_def virq_ok_def)
  have ch: "chan ?s d' e' = chan s d' e'" for d' e' using D(1) by (auto simp: chan_def)
  then have p: "peer ?s = peer s" by (simp add: peer_def fun_eq_iff)
  obtain s' where s': "upd_chan d e (\<lambda>c. c\<lparr>cstate := ECS_FREE\<rparr>) ?s = Some s'"
    using upd_chan_some [of ?s d e "\<lambda>c. c\<lparr>cstate := ECS_FREE\<rparr>"] ch c(1) by auto
  have t: "close_tail d e s = Some s'"
    using s' D okD by (simp add: close_tail_def upd_domain_def domain_ok_def)
  have "peer s' = (peer s)((d, e) := None)"
    unfolding peer_upd_chan [OF s'] p ch using c(1) by (simp add: chan_peer_def)
  moreover have "\<forall>d D. domains s' d = Some D \<longrightarrow> domain_ok D"
    by (rule upd_chan_ok [OF s' ok1]) (use ch c in simp)
  moreover have "triggered s' = triggered s" using upd_chan_SomeD [OF s'] by auto
  ultimately show ?thesis using t upd_chan_chan [OF s'] ch c(1) by auto
qed

text \<open>A channel can be closed unless it carries a virtual interrupt and the lock is held.\<close>

definition closable :: "hyp \<Rightarrow> nat \<Rightarrow> nat \<Rightarrow> bool" where
  "closable s d e \<longleftrightarrow> (\<exists>D. domains s d = Some D \<and> e < length (evtchns D) \<and> (cstate (evtchns D ! e) = ECS_VIRQ \<longrightarrow> \<not> virq_lock D))"

lemma evtchn_close_ok:
  assumes inv: "evtchn_inv s" and cl: "closable s d e"
  shows "\<exists>s'. evtchn_close before d e s = Some s' \<and> evtchn_inv s' \<and> peer s' = unlink (d, e) (peer s) \<and>
    map_option cstate (chan s' d e) = Some ECS_FREE \<and> triggered s' = triggered s \<and>
    (\<forall>k. k \<noteq> (d, e) \<and> peer s (d, e) \<noteq> Some k \<longrightarrow> chan s' (fst k) (snd k) = chan s (fst k) (snd k)) \<and>
    (\<forall>k. k \<noteq> (d, e) \<and> peer s (d, e) = Some k \<longrightarrow> map_option cstate (chan s' (fst k) (snd k)) = Some ECS_UNBOUND)"
proof -
  obtain D c where D: "domains s d = Some D" "e < length (evtchns D)" "c = evtchns D ! e" "cstate c = ECS_VIRQ \<longrightarrow> \<not> virq_lock D"
    using cl by (auto simp: closable_def)
  have c: "chan s d e = Some c" using D by (simp add: chan_def)
  have ok: "\<forall>d D. domains s d = Some D \<longrightarrow> domain_ok D" and sy: "symmetric (peer s)" using inv by (simp_all add: evtchn_inv_def)
  have simple: ?thesis if "close_peer d e s = Some s" "chan_peer c = None" "cstate c \<noteq> ECS_VIRQ"
  proof -
    have n: "peer s (d, e) = None" using c that(2) by (simp add: peer_def)
    then have "(peer s)((d, e) := None) = peer s" by (simp add: fun_upd_idem)
    then show ?thesis using close_tail_ok [OF ok c that(3)] that(1) unlink_None [OF sy n] sy n
      by (auto simp: evtchn_close_tail evtchn_inv_def)
  qed
  show ?thesis
  proof (cases "cstate c")
    case ECS_FREE
    then show ?thesis using simple c by (simp add: close_peer_def chan_peer_def)
  next
    case ECS_RESERVED
    then show ?thesis using simple c by (simp add: close_peer_def chan_peer_def)
  next
    case ECS_UNBOUND
    then show ?thesis using simple c by (simp add: close_peer_def chan_peer_def)
  next
    case ECS_INTERDOMAIN
    show ?thesis
    proof (cases "remote_dom c")
      case None
      then show ?thesis using simple c ECS_INTERDOMAIN by (simp add: close_peer_def chan_peer_def)
    next
      case (Some d2)
      let ?r = "remote_evtchn c"
      let ?f = "\<lambda>c. c\<lparr>cstate := ECS_UNBOUND, remote_domid := d\<rparr>"
      have p: "peer s (d, e) = Some (d2, ?r)" using c ECS_INTERDOMAIN Some by (simp add: peer_def chan_peer_def)
      then have "peer s (d2, ?r) = Some (d, e)" by (rule symmetricD [OF sy])
      then obtain c2 where c2: "chan s d2 ?r = Some c2" "cstate c2 = ECS_INTERDOMAIN" "remote_dom c2 = Some d"
        by (auto simp: peer_def chan_peer_def split: Option.bind_splits if_splits)
      obtain s1 where s1: "upd_chan d2 ?r ?f s = Some s1" using upd_chan_some c2(1) by blast
      have cp: "close_peer d e s = Some s1" using c ECS_INTERDOMAIN Some c2 s1 by (simp add: close_peer_def)
      have ok1: "\<forall>d D. domains s1 d = Some D \<longrightarrow> domain_ok D"
        by (rule upd_chan_ok [OF s1 ok]) (use c2 in simp)
      have p1: "peer s1 = (peer s)((d2, ?r) := None)"
        unfolding peer_upd_chan [OF s1] using c2(1) by (simp add: chan_peer_def)
      obtain c1 where c1: "chan s1 d e = Some c1" "cstate c1 \<noteq> ECS_VIRQ"
        using c ECS_INTERDOMAIN c2 by (cases "d = d2 \<and> e = ?r") (auto simp: upd_chan_chan [OF s1])
      have t1: "triggered s1 = triggered s" using upd_chan_SomeD [OF s1] by auto
      obtain s' where s': "close_tail d e s1 = Some s'" "peer s' = (peer s1)((d, e) := None)"
          "\<forall>d D. domains s' d = Some D \<longrightarrow> domain_ok D" "chan s' d e = Some (c1\<lparr>cstate := ECS_FREE\<rparr>)" "triggered s' = triggered s1"
          "\<forall>k. k \<noteq> (d, e) \<longrightarrow> chan s' (fst k) (snd k) = chan s1 (fst k) (snd k)"
        using close_tail_ok [OF ok1 c1] by blast
      have "peer s' = unlink (d, e) (peer s)" using s'(2) p1 unlink_Some [OF sy p] by simp
      moreover have "\<forall>k. k \<noteq> (d, e) \<and> peer s (d, e) \<noteq> Some k \<longrightarrow> chan s' (fst k) (snd k) = chan s (fst k) (snd k)"
        using s'(6) p upd_chan_chan [OF s1] by auto
      moreover have "\<forall>k. k \<noteq> (d, e) \<and> peer s (d, e) = Some k \<longrightarrow> map_option cstate (chan s' (fst k) (snd k)) = Some ECS_UNBOUND"
        using s'(6) p upd_chan_chan [OF s1] c2(1) by auto
      ultimately show ?thesis using s'(1-5) cp t1 symmetric_unlink [OF sy]
        by (intro exI [of _ s']) (simp add: evtchn_close_tail evtchn_inv_def)
    qed
  next
    case ECS_VIRQ
    have okD: "domain_ok D" using ok D(1) by blast
    then have v: "virq c < length (virq_to_evtchn D)" "length (evtchn_pending D) = length (evtchns D)"
      using D(2,3) ECS_VIRQ nth_mem [OF D(2)] by (auto simp: domain_ok_def virq_ok_def)
    let ?D = "D\<lparr>virq_to_evtchn := (virq_to_evtchn D)[virq c := 0], virq_lock := True,
      evtchn_pending := (evtchn_pending D)[e := False], evtchns := (evtchns D)[e := c\<lparr>cstate := ECS_FREE\<rparr>]\<rparr>"
    let ?s = "s\<lparr>domains := (domains s)(d \<mapsto> ?D)\<rparr>"
    have cl: "evtchn_close before d e s = Some ?s"
      using c D ECS_VIRQ v by (simp add: evtchn_close_tail close_tail_def close_peer_def upd_domain_def upd_chan_def chan_def)
    have n: "peer s (d, e) = None" using c ECS_VIRQ by (simp add: peer_def chan_peer_def)
    have "peer ?s = peer s"
      using D(1-3) ECS_VIRQ by (auto simp: peer_def chan_def chan_peer_def fun_eq_iff at_index_def nth_list_update)
    moreover have "domain_ok ?D" using virq_ok_closed [OF okD D(2)] ECS_VIRQ D(3) by simp
    moreover have "\<forall>k. k \<noteq> (d, e) \<longrightarrow> chan ?s (fst k) (snd k) = chan s (fst k) (snd k)"
      using D(1) by (auto simp: chan_def at_index_def)
    moreover have "map_option cstate (chan ?s d e) = Some ECS_FREE" using D(2) by (simp add: chan_def)
    moreover have "\<forall>d D. domains ?s d = Some D \<longrightarrow> domain_ok D" using calculation(2) ok by simp
    ultimately show ?thesis using cl sy n unlink_None [OF sy n] by (intro exI [of _ ?s]) (simp add: evtchn_inv_def)
  qed
qed

lemma evtchn_close_closable: "evtchn_close before d e s = Some s' \<Longrightarrow> closable s d e"
  by (auto simp: closable_def evtchn_close_tail close_peer_def chan_def split: Option.bind_splits if_splits chn_state.splits)

lemma set_pending_ok:
  assumes "evtchn_inv s" "domains s d = Some D" "e < length (evtchns D)"
  shows "\<exists>s'. evtchn_set_pending d e s = Some s' \<and> evtchn_inv s' \<and> peer s' = peer s \<and>
    domains s' = (domains s)(d \<mapsto> D\<lparr>evtchn_pending := (evtchn_pending D)[e := True], upcall_pending := True\<rparr>) \<and>
    triggered s' = triggered s @ [processor D]"
proof -
  have ok: "domain_ok D" using assms(1,2) by (simp add: evtchn_inv_def)
  let ?s = "s\<lparr>domains := (domains s)(d \<mapsto> D\<lparr>evtchn_pending := (evtchn_pending D)[e := True], upcall_pending := True\<rparr>),
    triggered := triggered s @ [processor D]\<rparr>"
  have "evtchn_set_pending d e s = Some ?s"
    using assms ok by (simp add: evtchn_set_pending_def upd_domain_def domain_ok_def)
  moreover have p: "peer ?s = peer s" using assms(2) by (auto simp: peer_def chan_def fun_eq_iff)
  moreover have "evtchn_inv ?s" using assms(1) ok p by (auto simp: evtchn_inv_def domain_ok_def virq_ok_def)
  ultimately show ?thesis by simp
qed

lemma set_pending_SomeD:
  assumes "evtchn_set_pending d e s = Some s'" "evtchn_inv s"
  shows "evtchn_inv s' \<and> peer s' = peer s"
proof -
  obtain D where D: "domains s d = Some D" "e < length (evtchn_pending D)"
    using assms(1) by (auto simp: evtchn_set_pending_def split: Option.bind_splits)
  then have "e < length (evtchns D)" using assms(2) by (auto simp: evtchn_inv_def domain_ok_def)
  from set_pending_ok [OF assms(2) D(1) this] assms(1) show ?thesis by auto
qed

subsection \<open>Hypercalls\<close>

text \<open>
  The effect of a call on the connections. The call that binds two existing channels is meant
  for a local channel that is not connected and carries no virtual interrupt, but does not
  check it.
\<close>

fun link_spec :: "nat \<Rightarrow> evtchn_op \<Rightarrow> nat option \<Rightarrow> links \<Rightarrow> links" where
  "link_spec cur (EVTCHNOP_bind_interdomain rdom r) (Some l) m =
     link (cur, l) (if rdom = DOMID_SELF then cur else rdom, r) m"
| "link_spec cur (EVTCHNOP_bind_existing_interdomain rdom l r) _ m = link (cur, l) (rdom, r) m"
| "link_spec cur (EVTCHNOP_close e) _ m = unlink (cur, e) m"
| "link_spec cur _ _ m = m"

fun op_allowed :: "nat \<Rightarrow> evtchn_op \<Rightarrow> hyp \<Rightarrow> bool" where
  "op_allowed cur (EVTCHNOP_bind_existing_interdomain rdom l r) s \<longleftrightarrow>
     peer s (cur, l) = None \<and> map_option cstate (chan s cur l) \<noteq> Some ECS_VIRQ"
| "op_allowed cur _ s \<longleftrightarrow> True"

lemma evtchn_op_ok:
  assumes "evtchn_inv s" "do_event_channel_op before cur op s = Some (r, s')" "op_allowed cur op s"
  shows "evtchn_inv s' \<and> peer s' = link_spec cur op r (peer s)"
proof (cases op)
  case (EVTCHNOP_alloc_unbound dm rdom)
  then show ?thesis using assms alloc_unbound_ok by (auto split: Option.bind_splits)
next
  case (EVTCHNOP_bind_interdomain rdom re)
  then obtain e where "evtchn_bind_interdomain cur rdom re s = Some (e, s')" "r = Some e"
    using assms(2) by (auto split: Option.bind_splits)
  then show ?thesis using bind_interdomain_ok assms(1) EVTCHNOP_bind_interdomain by simp
next
  case (EVTCHNOP_bind_existing_interdomain rdom l re)
  then show ?thesis using assms bind_existing_ok [of cur rdom l re s s'] by (auto split: Option.bind_splits)
next
  case (EVTCHNOP_bind_virq v)
  then show ?thesis using assms bind_virq_ok by (auto split: Option.bind_splits)
next
  case (EVTCHNOP_close e)
  then have c: "evtchn_close before cur e s = Some s'" using assms(2) by (auto split: Option.bind_splits)
  from evtchn_close_ok [OF assms(1) evtchn_close_closable [OF c], of before] c show ?thesis using EVTCHNOP_close by auto
next
  case (EVTCHNOP_send e)
  then have "evtchn_send cur e s = Some s'" using assms(2) by (auto split: Option.bind_splits)
  then show ?thesis using assms(1) set_pending_SomeD EVTCHNOP_send
    by (auto simp: evtchn_send_def send_check_def send_deliver_def split: Option.bind_splits if_splits)
qed

text \<open>Binding an existing local channel that is connected to another one leaves that one without a partner.\<close>

fun cuts_link :: "nat \<Rightarrow> evtchn_op \<Rightarrow> hyp \<Rightarrow> bool" where
  "cuts_link cur (EVTCHNOP_bind_existing_interdomain rdom l r) s \<longleftrightarrow> (\<exists>k. peer s (cur, l) = Some k \<and> k \<noteq> (cur, l))"
| "cuts_link cur _ s \<longleftrightarrow> False"

lemma evtchn_op_links:
  assumes "evtchn_inv s" "do_event_channel_op before cur op s = Some (r, s')"
  shows "peer s' = link_spec cur op r (peer s) \<and> (symmetric (peer s') \<longleftrightarrow> \<not> cuts_link cur op s)"
proof (cases "\<exists>rd l re. op = EVTCHNOP_bind_existing_interdomain rd l re")
  case True
  then obtain rd l re where op: "op = EVTCHNOP_bind_existing_interdomain rd l re" by blast
  then have "peer s' = link (cur, l) (rd, re) (peer s)" "peer s (rd, re) = None"
    using assms(2) bind_existing_links by (auto split: Option.bind_splits)
  then show ?thesis using symmetric_link_iff [of "peer s" "(rd, re)" "(cur, l)"] assms(1) op by (auto simp: evtchn_inv_def)
next
  case False
  then have "op_allowed cur op s" "\<not> cuts_link cur op s" by (cases op; simp)+
  then show ?thesis using evtchn_op_ok [OF assms] unfolding evtchn_inv_def by blast
qed

text \<open>
  Calls on several processors. \<open>w\<close> tells what a processor has under way in one of the two windows;
  \<open>ok\<close> restricts the calls that are made.
\<close>

datatype window = Idle | Closing nat nat nat | Sending nat nat nat

type_synonym call_guard = "nat \<Rightarrow> evtchn_op \<Rightarrow> hyp \<Rightarrow> bool"

inductive evtchn_run :: "call_guard \<Rightarrow> (nat \<Rightarrow> nat \<Rightarrow> bool) \<Rightarrow> hyp \<Rightarrow> hyp \<Rightarrow> (nat \<Rightarrow> window) \<Rightarrow> bool" for ok before s0 where
  run_start: "evtchn_run ok before s0 s0 (\<lambda>p. Idle)"
| run_call: "evtchn_run ok before s0 s w \<Longrightarrow> w p = Idle \<Longrightarrow> ok cur op s \<Longrightarrow>
    do_event_channel_op before cur op s = Some (r, s') \<Longrightarrow> evtchn_run ok before s0 s' w"
| run_close: "evtchn_run ok before s0 s w \<Longrightarrow> w p = Idle \<Longrightarrow> ok d (EVTCHNOP_close e) s \<Longrightarrow>
    close_round before None d e s = Some (Again d2) \<Longrightarrow> evtchn_run ok before s0 s (w(p := Closing d e d2))"
| run_close_again: "evtchn_run ok before s0 s w \<Longrightarrow> w p = Closing d e d2 \<Longrightarrow>
    close_round before (Some d2) d e s = Some (Closed s') \<Longrightarrow> evtchn_run ok before s0 s' (w(p := Idle))"
| run_send: "evtchn_run ok before s0 s w \<Longrightarrow> w p = Idle \<Longrightarrow> ok ld (EVTCHNOP_send l) s \<Longrightarrow>
    send_check ld l s = Some rd \<Longrightarrow> evtchn_run ok before s0 s (w(p := Sending ld l rd))"
| run_deliver: "evtchn_run ok before s0 s w \<Longrightarrow> w p = Sending ld l rd \<Longrightarrow>
    send_deliver ld l rd s = Some s' \<Longrightarrow> evtchn_run ok before s0 s' (w(p := Idle))"
| run_virq: "evtchn_run ok before s0 s w \<Longrightarrow> send_guest_virq d v s = Some s' \<Longrightarrow> evtchn_run ok before s0 s' w"

lemma close_round_again:
  assumes "close_round before (Some d2) d e s = Some (Closed s')"
  shows "evtchn_close before d e s = Some s'"
  using assms by (auto simp: evtchn_close_tail close_round_def Let_def split: Option.bind_splits if_splits)

lemma evtchn_run_inv: "evtchn_run op_allowed before s0 s w \<Longrightarrow> evtchn_inv s0 \<Longrightarrow> evtchn_inv s"
proof (induction rule: evtchn_run.induct)
  case (run_call s w p cur op r s')
  then show ?case using evtchn_op_ok by blast
next
  case (run_close_again s w p d e d2 s')
  note c = close_round_again [OF run_close_again.hyps(3)]
  then show ?case
    using evtchn_close_ok [OF run_close_again.IH [OF run_close_again.prems] evtchn_close_closable [OF c], of before] by auto
next
  case (run_deliver s w p ld l rd s')
  then show ?case using set_pending_SomeD by (auto simp: send_deliver_def split: Option.bind_splits)
next
  case (run_virq s w d v s')
  then show ?case using set_pending_SomeD by (auto simp: send_guest_virq_def split: Option.bind_splits if_splits)
qed

text \<open>Freshly created domains: no channel is in use and no virtual interrupt is bound.\<close>

definition fresh :: "hyp \<Rightarrow> bool" where
  "fresh s \<longleftrightarrow> (\<forall>d D. domains s d = Some D \<longrightarrow> (\<exists>D0. D = evtchn_init D0 \<and>
     length (evtchn_pending D0) = length (evtchns D0) \<and> (\<forall>v \<in> set (virq_to_evtchn D0). v = 0)))"

lemma fresh_inv:
  assumes "fresh s"
  shows "evtchn_inv s"
proof -
  have st: "cstate c \<noteq> ECS_INTERDOMAIN \<and> cstate c \<noteq> ECS_VIRQ" if "c \<in> set (evtchns (evtchn_init D))" for c D
    using that by (auto simp: evtchn_init_def split: if_splits)
  have "peer s k = None" for k
  proof (cases "chan s (fst k) (snd k)")
    case (Some c)
    then obtain D where D: "domains s (fst k) = Some D" "snd k < length (evtchns D)" "c = evtchns D ! snd k"
      by (auto simp: chan_def split: Option.bind_splits)
    then obtain D0 where "D = evtchn_init D0" using assms unfolding fresh_def by blast
    moreover have "c \<in> set (evtchns D)" using D(2,3) by simp
    ultimately have "cstate c \<noteq> ECS_INTERDOMAIN" using st by blast
    then show ?thesis using Some by (simp add: peer_def chan_peer_def)
  qed (simp add: peer_def)
  moreover have "domain_ok D" if "domains s d = Some D" for d D
  proof -
    obtain D0 where D0: "D = evtchn_init D0" "length (evtchn_pending D0) = length (evtchns D0)"
        "\<forall>v \<in> set (virq_to_evtchn D0). v = 0"
      using assms \<open>domains s d = Some D\<close> unfolding fresh_def by blast
    have "virq_to_evtchn D = virq_to_evtchn D0" using D0(1) by (simp add: evtchn_init_def)
    then have "virq_ok D" using D0 st [of _ D0] nth_mem [of _ "virq_to_evtchn D0"] unfolding virq_ok_def by (metis less_irrefl)
    then show ?thesis using D0 by (simp add: domain_ok_def evtchn_init_def)
  qed
  ultimately show ?thesis by (simp add: evtchn_inv_def symmetric_def)
qed

subsection \<open>Properties of the event channels\<close>

text \<open>
  C4. The channel tables of the domains implement a map between channel ends. From a state in
  which this map is symmetric and the tables are consistent, every hypercall that returns changes
  the map as its description says: binding links the two ends, closing removes the link of the
  closed channel and nothing else, allocating, binding a virtual interrupt and sending leave it
  alone. The map stays symmetric except for one call: the binding of an existing local channel
  that is connected to another one, which the code does not check, always breaks the symmetry. If
  moreover that call is not made on a channel with a virtual interrupt, the tables stay
  consistent.
\<close>

theorem evtchn_calls_refine:
  assumes "evtchn_inv s" "do_event_channel_op before cur op s = Some (r, s')"
  shows "peer s' = link_spec cur op r (peer s) \<and> (symmetric (peer s') \<longleftrightarrow> \<not> cuts_link cur op s) \<and>
    (op_allowed cur op s \<longrightarrow> evtchn_inv s')"
  using evtchn_op_links [OF assms] evtchn_op_ok [OF assms] by blast

definition ex_chan :: evtchn where
  "ex_chan = \<lparr>cstate = ECS_FREE, can_notify = True, remote_domid = 0, remote_evtchn = 0, remote_dom = None, virq = 0\<rparr>"

definition ex_domain0 :: "nat \<Rightarrow> domain" where
  "ex_domain0 cpu = \<lparr>evtchns = [ex_chan, ex_chan, ex_chan], virq_to_evtchn = [0, 0], is_dying = False, virq_lock = False,
     evtchn_pending = [False, False, False], upcall_pending = False, processor = cpu\<rparr>"

definition ex_hyp :: hyp where
  "ex_hyp = \<lparr>domains = [0 \<mapsto> evtchn_init (ex_domain0 0), 2 \<mapsto> evtchn_init (ex_domain0 1)], triggered = []\<rparr>"

lemma ex_hyp_fresh: "fresh ex_hyp"
  unfolding fresh_def
proof (intro allI impI)
  fix d D assume "domains ex_hyp d = Some D"
  then obtain cpu where "D = evtchn_init (ex_domain0 cpu)" by (auto simp: ex_hyp_def split: if_splits)
  then show "\<exists>D0. D = evtchn_init D0 \<and> length (evtchn_pending D0) = length (evtchns D0) \<and> (\<forall>v \<in> set (virq_to_evtchn D0). v = 0)"
    by (intro exI [of _ "ex_domain0 cpu"]) (simp add: ex_domain0_def)
qed

lemmas ex_simps = ex_hyp_def ex_domain0_def ex_chan_def evtchn_init_def upt_rec DOMID_SELF_def need_free_evtchn_def
  get_free_evtchn_def upd_chan_def upd_domain_def chan_def at_index_def upd_index_def

definition ex_alloc :: hyp where
  "ex_alloc = snd (the (evtchn_alloc_unbound 0 DOMID_SELF 2 ex_hyp))"

definition ex_bound :: hyp where
  "ex_bound = snd (the (evtchn_bind_interdomain 2 0 1 ex_alloc))"

lemma ex_bound_run:
  "evtchn_run op_allowed (<) ex_hyp ex_bound (\<lambda>p. Idle)" "peer ex_bound (2, 1) = Some (0, 1)" "peer ex_bound (0, 1) = Some (2, 1)"
proof -
  have a: "evtchn_alloc_unbound 0 DOMID_SELF 2 ex_hyp = Some (1, ex_alloc)"
    by (simp add: ex_alloc_def evtchn_alloc_unbound_def ex_simps)
  have b: "evtchn_bind_interdomain 2 0 1 ex_alloc = Some (1, ex_bound)"
    by (simp add: ex_bound_def ex_alloc_def evtchn_alloc_unbound_def evtchn_bind_interdomain_def connect_def ex_simps)
  have "do_event_channel_op (<) 0 (EVTCHNOP_alloc_unbound DOMID_SELF 2) ex_hyp = Some (Some 1, ex_alloc)"
    "do_event_channel_op (<) 2 (EVTCHNOP_bind_interdomain 0 1) ex_alloc = Some (Some 1, ex_bound)"
    unfolding do_event_channel_op.simps a b by simp_all
  note op = this
  have "evtchn_run op_allowed (<) ex_hyp ex_alloc (\<lambda>p. Idle)" by (rule run_call [OF run_start _ _ op(1)]) simp_all
  then show r: "evtchn_run op_allowed (<) ex_hyp ex_bound (\<lambda>p. Idle)" by (rule run_call [OF _ _ _ op(2)]) simp_all
  have i: "evtchn_inv ex_alloc" using alloc_unbound_ok [OF a] fresh_inv [OF ex_hyp_fresh] by simp
  have "peer ex_bound = link (2, 1) (0, 1) (peer ex_alloc)" using bind_interdomain_ok [OF b i] by (simp add: DOMID_SELF_def)
  then show "peer ex_bound (2, 1) = Some (0, 1)" "peer ex_bound (0, 1) = Some (2, 1)" by (simp_all add: link_def)
qed

theorem evtchn_calls_refine_witness:
  "\<exists>s'. do_event_channel_op (<) 2 (EVTCHNOP_close 1) ex_bound = Some (None, s') \<and> evtchn_inv s' \<and> peer s' (0, 1) = None"
proof -
  have inv: "evtchn_inv ex_bound" by (rule evtchn_run_inv [OF ex_bound_run(1) fresh_inv [OF ex_hyp_fresh]])
  have "chan ex_bound 2 1 \<noteq> None" using ex_bound_run(2) by (auto simp: peer_def split: Option.bind_splits)
  then obtain D where D: "domains ex_bound 2 = Some D" "1 < length (evtchns D)" by (auto simp: chan_def split: Option.bind_splits)
  have "cstate (evtchns D ! 1) = ECS_INTERDOMAIN"
    using ex_bound_run(2) D by (auto simp: peer_def chan_def chan_peer_def split: if_splits)
  then have "closable ex_bound 2 1" using D by (simp add: closable_def)
  from evtchn_close_ok [OF inv this, of "(<)"] obtain s' where "do_event_channel_op (<) 2 (EVTCHNOP_close 1) ex_bound = Some (None, s')" by auto
  then show ?thesis using evtchn_calls_refine [OF inv, of "(<)" 2 "EVTCHNOP_close 1" None s'] ex_bound_run(3) by (auto simp: unlink_def)
qed

text \<open>
  C38. Consider the states that hypercalls and virtual interrupts on any number of processors
  reach from freshly created domains, provided that no domain binds an existing local channel that
  is connected or carries a virtual interrupt. There connected channels work in both directions:
  the two ends name each other; a send that no other call interrupts returns and raises exactly
  the other end's pending flag, the upcall flag of its domain and an event on its processor; a
  close that no other call interrupts returns, frees the channel and leaves the other end unbound.
  A close that had released its lock, because it saw the channel connected to another domain,
  runs into a \<open>BUG\<close>.
\<close>

theorem connected_channels_work:
  assumes "fresh s0" "evtchn_run op_allowed before s0 s w" "peer s (d, e) = Some (d2, e2)"
  shows "peer s (d2, e2) = Some (d, e) \<and>
    (\<exists>s' D. evtchn_send d e s = Some s' \<and> domains s d2 = Some D \<and>
      domains s' = (domains s)(d2 \<mapsto> D\<lparr>evtchn_pending := (evtchn_pending D)[e2 := True], upcall_pending := True\<rparr>) \<and>
      triggered s' = triggered s @ [processor D]) \<and>
    (\<exists>s'. evtchn_close before d e s = Some s' \<and> map_option cstate (chan s' d e) = Some ECS_FREE \<and>
      ((d2, e2) \<noteq> (d, e) \<longrightarrow> map_option cstate (chan s' d2 e2) = Some ECS_UNBOUND) \<and>
      (\<forall>k. k \<noteq> (d, e) \<and> k \<noteq> (d2, e2) \<longrightarrow> peer s' k = peer s k)) \<and>
    (\<forall>d3. d3 \<noteq> d2 \<longrightarrow> close_round before (Some d3) d e s = None)"
proof -
  have inv: "evtchn_inv s" by (rule evtchn_run_inv [OF assms(2) fresh_inv [OF assms(1)]])
  have sy: "symmetric (peer s)" using inv by (simp add: evtchn_inv_def)
  have p2: "peer s (d2, e2) = Some (d, e)" by (rule symmetricD [OF sy assms(3)])
  obtain c where c: "chan s d e = Some c" "cstate c = ECS_INTERDOMAIN" "remote_dom c = Some d2" "remote_evtchn c = e2"
    using assms(3) by (auto simp: peer_def chan_peer_def split: Option.bind_splits if_splits)
  obtain c2 where "chan s d2 e2 = Some c2" using p2 by (auto simp: peer_def split: Option.bind_splits)
  then obtain D where D: "domains s d2 = Some D" "e2 < length (evtchns D)" by (auto simp: chan_def split: Option.bind_splits)
  have cl: "closable s d e" using c(1,2) by (auto simp: closable_def chan_def split: Option.bind_splits)
  obtain s' where s': "evtchn_close before d e s = Some s'" "map_option cstate (chan s' d e) = Some ECS_FREE"
      "peer s' = unlink (d, e) (peer s)"
      "\<forall>k. k \<noteq> (d, e) \<and> peer s (d, e) = Some k \<longrightarrow> map_option cstate (chan s' (fst k) (snd k)) = Some ECS_UNBOUND"
    using evtchn_close_ok [OF inv cl, of before] by blast
  have "close_round before (Some d3) d e s = None" if "d3 \<noteq> d2" for d3 using c that by (simp add: close_round_def)
  moreover have "peer s' k = peer s k" if "k \<noteq> (d, e)" "k \<noteq> (d2, e2)" for k
    using s'(3) unlink_Some [OF sy assms(3)] that by simp
  moreover have "map_option cstate (chan s' d2 e2) = Some ECS_UNBOUND" if "(d2, e2) \<noteq> (d, e)"
    using s'(4) assms(3) that by auto
  moreover obtain s'' where "evtchn_set_pending d2 e2 s = Some s''"
      "domains s'' = (domains s)(d2 \<mapsto> D\<lparr>evtchn_pending := (evtchn_pending D)[e2 := True], upcall_pending := True\<rparr>)"
      "triggered s'' = triggered s @ [processor D]"
    using set_pending_ok [OF inv D] by blast
  ultimately show ?thesis using p2 D(1) c s'(1,2) by (simp add: evtchn_send_def send_check_def send_deliver_def)
qed

theorem connected_channels_work_witness: "\<exists>s'. evtchn_send 2 1 ex_bound = Some s' \<and> triggered s' = triggered ex_bound @ [0]"
proof -
  have "processor D = 0" if "domains ex_bound 0 = Some D" for D
    using that by (auto simp: ex_bound_def ex_alloc_def evtchn_alloc_unbound_def evtchn_bind_interdomain_def connect_def ex_simps)
  then show ?thesis using connected_channels_work [OF ex_hyp_fresh ex_bound_run(1,2)] by auto
qed

definition virq_stuck :: "hyp \<Rightarrow> nat \<Rightarrow> bool" where
  "virq_stuck s d \<longleftrightarrow> (\<exists>D. domains s d = Some D \<and> virq_lock D)"

lemma virq_lock_upd:
  assumes "upd_domain d f s = Some s'" "\<And>D. virq_lock D \<Longrightarrow> virq_lock (f D)" "virq_stuck s x"
  shows "virq_stuck s' x"
  using assms by (auto simp: virq_stuck_def upd_domain_def split: Option.bind_splits)

lemma virq_lock_chan:
  assumes "upd_chan d e f s = Some s'" "virq_stuck s x"
  shows "virq_stuck s' x"
  using assms by (auto simp: upd_chan_def elim!: virq_lock_upd split: Option.bind_splits)

lemma virq_lock_connect:
  assumes "connect a b c d s = Some s'" "virq_stuck s x"
  shows "virq_stuck s' x"
  using assms virq_lock_chan unfolding connect_def by (auto split: Option.bind_splits)

lemma virq_lock_pending:
  assumes "evtchn_set_pending d e s = Some s'" "virq_stuck s x"
  shows "virq_stuck s' x"
  using assms by (auto simp: virq_stuck_def evtchn_set_pending_def upd_domain_def split: Option.bind_splits if_splits)

lemma virq_lock_close:
  assumes "evtchn_close before d e s = Some s'" "virq_stuck s x"
  shows "virq_stuck s' x"
proof -
  obtain s1 where s1: "close_peer d e s = Some s1" "close_tail d e s1 = Some s'"
    using assms(1) by (auto simp: evtchn_close_tail split: Option.bind_splits)
  have "virq_stuck s1 x"
    using s1(1) assms(2) unfolding close_peer_def
    by (auto split: Option.bind_splits chn_state.splits option.splits if_splits elim!: virq_lock_upd virq_lock_chan)
  then show ?thesis
    using s1(2) unfolding close_tail_def by (auto split: Option.bind_splits elim!: virq_lock_chan virq_lock_upd)
qed

lemma virq_lock_op:
  assumes "do_event_channel_op before cur op s = Some (r, s')" "virq_stuck s x"
  shows "virq_stuck s' x"
proof (cases op)
  case (EVTCHNOP_alloc_unbound dm rdom)
  then show ?thesis using assms virq_lock_chan by (auto simp: evtchn_alloc_unbound_def Let_def split: Option.bind_splits)
next
  case (EVTCHNOP_bind_interdomain rdom re)
  then show ?thesis using assms virq_lock_connect
    by (auto simp: evtchn_bind_interdomain_def Let_def split: Option.bind_splits if_splits)
next
  case (EVTCHNOP_bind_existing_interdomain rdom l re)
  then obtain s1 where "s1 = s \<or> (\<exists>f. upd_chan rdom re f s = Some s1)" "connect cur l rdom re s1 = Some s'"
    using assms(1) by (auto simp: evtchn_bind_existing_interdomain_def split: Option.bind_splits if_splits)
  then show ?thesis using assms(2) virq_lock_connect virq_lock_chan by blast
next
  case (EVTCHNOP_bind_virq v)
  then obtain e f g s1 where "upd_chan cur e f s = Some s1" "upd_domain cur g s1 = Some s'" "\<And>D. virq_lock (g D) = virq_lock D"
    using assms(1) by (fastforce simp: evtchn_bind_virq_def split: Option.bind_splits if_splits)
  then show ?thesis using virq_lock_upd virq_lock_chan assms(2) by blast
next
  case (EVTCHNOP_close e)
  then show ?thesis using assms virq_lock_close by (auto split: Option.bind_splits)
next
  case (EVTCHNOP_send e)
  then show ?thesis using assms virq_lock_pending by (auto simp: evtchn_send_def send_check_def send_deliver_def split: Option.bind_splits if_splits)
qed

lemma virq_lock_run:
  assumes "evtchn_run ok before s0 s w" "virq_stuck s0 x"
  shows "virq_stuck s x"
  using assms
proof (induction rule: evtchn_run.induct)
  case (run_call s w p cur op r s')
  then show ?case using virq_lock_op by blast
next
  case (run_close_again s w p d e d2 s')
  then show ?case using virq_lock_close close_round_again by blast
next
  case (run_deliver s w p ld l rd s')
  then show ?case using virq_lock_pending by (auto simp: send_deliver_def split: Option.bind_splits)
next
  case (run_virq s w d v s')
  then show ?case using virq_lock_pending by (auto simp: send_guest_virq_def split: Option.bind_splits if_splits)
qed

text \<open>
  C39. Closing a channel that carries a virtual interrupt takes the lock of the virtual interrupts
  and never releases it. The close itself returns, but from then on, whatever calls follow,
  no virtual interrupt can be sent to the domain any more: \<open>send_guest_virq\<close> waits for the lock
  forever.
\<close>

theorem close_virq_blocks_virqs:
  assumes "evtchn_inv s" "domains s d = Some D" "e < length (evtchns D)" "cstate (evtchns D ! e) = ECS_VIRQ" "\<not> virq_lock D"
  shows "\<exists>s1. evtchn_close before d e s = Some s1 \<and> (\<forall>ok s2 w v. evtchn_run ok before s1 s2 w \<longrightarrow> send_guest_virq d v s2 = None)"
proof -
  have cl: "closable s d e" using assms(2-5) by (simp add: closable_def)
  obtain s1 where s1: "evtchn_close before d e s = Some s1" using evtchn_close_ok [OF assms(1) cl, of before] by blast
  obtain sp where sp: "close_peer d e s = Some sp" "close_tail d e sp = Some s1"
    using s1 by (auto simp: evtchn_close_tail split: Option.bind_splits)
  have "virq_stuck sp d"
    using sp(1) assms(2-5) by (auto simp: virq_stuck_def close_peer_def chan_def upd_domain_def split: Option.bind_splits)
  then have l: "virq_stuck s1 d"
    using sp(2) unfolding close_tail_def by (auto split: Option.bind_splits elim!: virq_lock_chan virq_lock_upd)
  have "send_guest_virq d v s2 = None" if "evtchn_run ok before s1 s2 w" for ok s2 w v
    using virq_lock_run [OF that l] by (auto simp: virq_stuck_def send_guest_virq_def)
  then show ?thesis using s1 by blast
qed

definition ex_virq :: hyp where
  "ex_virq = snd (the (evtchn_bind_virq 0 1 ex_hyp))"

theorem close_virq_blocks_virqs_witness:
  "\<exists>s1. evtchn_close (<) 0 1 ex_virq = Some s1 \<and> send_guest_virq 0 1 s1 = None"
proof -
  have b: "evtchn_bind_virq 0 1 ex_hyp = Some (1, ex_virq)"
    by (simp add: ex_virq_def evtchn_bind_virq_def ex_simps)
  have i: "evtchn_inv ex_virq" using bind_virq_ok [OF b fresh_inv [OF ex_hyp_fresh]] by blast
  have "\<exists>D. domains ex_virq 0 = Some D \<and> 1 < length (evtchns D) \<and> cstate (evtchns D ! 1) = ECS_VIRQ \<and> \<not> virq_lock D"
    by (simp add: ex_virq_def evtchn_bind_virq_def ex_simps)
  then show ?thesis using close_virq_blocks_virqs [OF i] run_start by blast
qed

end
