(* ===== verification/So3_Gnttab.thy ===== *)
theory So3_Gnttab
  imports So3_Tables
begin

section \<open>Grant tables of the hypervisor\<close>

text \<open>
  Model of \<open>so3/avz/kernel/gnttab.c\<close>: a domain grants one of its pages to another one, which maps
  it through a reference at a frame reserved for that purpose. The list of grants of a domain is
  a list here; the second-stage page tables are a map from the frames a domain sees to the
  frames of the machine, which \<open>__create_mapping\<close> extends by one page. \<open>None\<close> stands for a \<open>BUG\<close>
  or the access to a domain that does not exist; \<open>mem\<close> tells whether \<open>malloc\<close> succeeds.
\<close>

subsection \<open>Data\<close>

record gnt =
  origin_domid :: nat
  target_domid :: nat
  gnt_pfn :: nat
  gnt_ref :: nat

record grant_pfn_t =
  pfn :: nat
  pfn_free :: bool

record gdomain =
  gnttab :: "gnt list"
  grant_pfn :: "grant_pfn_t list"

record gstate =
  gdomains :: "nat \<Rightarrow> gdomain option"
  stage2 :: "nat \<Rightarrow> nat \<Rightarrow> nat option"

record memslot_entry_t =
  base_paddr :: nat
  ipa_addr :: nat

definition GRANT_INVALID_REF :: nat where
  "GRANT_INVALID_REF = 0"

definition DOM_TO_MEMSLOT :: "nat \<Rightarrow> nat" where
  "DOM_TO_MEMSLOT d = (if d = 0 \<or> d = 1 then 1 else d)"

definition ipa_offset :: "(nat \<Rightarrow> memslot_entry_t) \<Rightarrow> nat \<Rightarrow> nat" where
  "ipa_offset slot x = (2 ^ 64 + ipa_addr (slot x) - base_paddr (slot x)) mod 2 ^ 64"

definition ipa_to_pa :: "(nat \<Rightarrow> memslot_entry_t) \<Rightarrow> nat \<Rightarrow> nat \<Rightarrow> nat" where
  "ipa_to_pa slot x ipa = (2 ^ 64 + ipa - ipa_offset slot x) mod 2 ^ 64"

definition pfn_to_phys :: "nat \<Rightarrow> nat" where
  "pfn_to_phys p = (p * 2 ^ 12) mod 2 ^ 64"

definition phys_to_pfn :: "nat \<Rightarrow> nat" where
  "phys_to_pfn a = a div 2 ^ 12"

subsection \<open>Operations\<close>

definition gnttab_init :: "gdomain \<Rightarrow> gdomain" where
  "gnttab_init G = G\<lparr>gnttab := []\<rparr>"

definition get_ref_max :: "gnt list \<Rightarrow> nat" where
  "get_ref_max gs =
     (let ref = fold (\<lambda>g ref. if gnt_ref g > ref then gnt_ref g else ref) gs GRANT_INVALID_REF
      in if ref = GRANT_INVALID_REF then 1 else ref)"

definition pick_granted_entry :: "nat \<Rightarrow> nat \<Rightarrow> nat \<Rightarrow> gstate \<Rightarrow> gnt option option" where
  "pick_granted_entry cur ref origin s =
     do {
       G \<leftarrow> gdomains s origin;
       Some (find (\<lambda>g. gnt_ref g = ref \<and> origin_domid g = origin \<and> target_domid g = cur) (gnttab G))
     }"

definition new_gnttab_entry :: "bool \<Rightarrow> nat \<Rightarrow> nat \<Rightarrow> nat \<Rightarrow> gstate \<Rightarrow> (gnt \<times> gstate) option" where
  "new_gnttab_entry mem d target p s =
     do {
       G \<leftarrow> gdomains s d;
       if \<not> mem then None
       else do {
         let g = \<lparr>origin_domid = d, target_domid = target, gnt_pfn = p, gnt_ref = (get_ref_max (gnttab G) + 1) mod 2 ^ 32\<rparr>;
         Some (g, s\<lparr>gdomains := (gdomains s)(d \<mapsto> G\<lparr>gnttab := gnttab G @ [g]\<rparr>)\<rparr>)
       }
     }"

fun remove_ref :: "nat \<Rightarrow> gnt list \<Rightarrow> gnt list" where
  "remove_ref ref [] = []"
| "remove_ref ref (g # gs) = (if gnt_ref g = ref then gs else g # remove_ref ref gs)"

definition revoke_gnttab_entry :: "nat \<Rightarrow> nat \<Rightarrow> gstate \<Rightarrow> gstate option" where
  "revoke_gnttab_entry d ref s =
     do {
       G \<leftarrow> gdomains s d;
       Some (s\<lparr>gdomains := (gdomains s)(d \<mapsto> G\<lparr>gnttab := remove_ref ref (gnttab G)\<rparr>)\<rparr>)
     }"

definition allocate_grant_pfn :: "nat \<Rightarrow> gstate \<Rightarrow> (nat \<times> gstate) option" where
  "allocate_grant_pfn d s =
     do {
       G \<leftarrow> gdomains s d;
       i \<leftarrow> first_index pfn_free (grant_pfn G);
       Some (pfn (grant_pfn G ! i),
         s\<lparr>gdomains := (gdomains s)(d \<mapsto> G\<lparr>grant_pfn := (grant_pfn G)[i := (grant_pfn G ! i)\<lparr>pfn_free := False\<rparr>]\<rparr>)\<rparr>)
     }"

definition create_page_mapping :: "nat \<Rightarrow> nat \<Rightarrow> nat \<Rightarrow> gstate \<Rightarrow> gstate" where
  "create_page_mapping d ipa pa s =
     s\<lparr>stage2 := (stage2 s)(d := (stage2 s d)(phys_to_pfn ipa \<mapsto> phys_to_pfn pa))\<rparr>"

definition map_vbstore_pfn :: "nat \<Rightarrow> nat \<Rightarrow> nat \<Rightarrow> gstate \<Rightarrow> (nat \<times> gstate) option" where
  "map_vbstore_pfn agency target p s =
     do {
       A \<leftarrow> gdomains s agency;
       g \<leftarrow> find (\<lambda>g. target_domid g = target) (gnttab A);
       (gp, s1) \<leftarrow> (if p = 0 then allocate_grant_pfn target s else Some (p, s));
       Some (phys_to_pfn (pfn_to_phys gp), create_page_mapping target (pfn_to_phys gp) (pfn_to_phys (gnt_pfn g)) s1)
     }"

datatype gnttab_op = GNTTAB_grant_page nat nat | GNTTAB_revoke_page nat | GNTTAB_map_page nat nat | GNTTAB_unmap_page

datatype gnttab_res = Ref nat | Pfn nat | Done

fun do_gnttab :: "(nat \<Rightarrow> memslot_entry_t) \<Rightarrow> bool \<Rightarrow> nat \<Rightarrow> gnttab_op \<Rightarrow> gstate \<Rightarrow> (gnttab_res \<times> gstate) option" where
  "do_gnttab slot mem d (GNTTAB_grant_page target p) s =
     do {
       let paddr = ipa_to_pa slot (DOM_TO_MEMSLOT d) (pfn_to_phys p);
       (g, s1) \<leftarrow> new_gnttab_entry mem d target (phys_to_pfn paddr) s;
       Some (Ref (gnt_ref g), s1)
     }"
| "do_gnttab slot mem d (GNTTAB_revoke_page ref) s =
     do { s1 \<leftarrow> revoke_gnttab_entry d ref s; Some (Done, s1) }"
| "do_gnttab slot mem d (GNTTAB_map_page ref origin) s =
     do {
       r \<leftarrow> pick_granted_entry d ref origin s;
       g \<leftarrow> r;
       (gp, s1) \<leftarrow> allocate_grant_pfn d s;
       let grant_paddr = pfn_to_phys gp;
       Some (Pfn (phys_to_pfn grant_paddr), create_page_mapping d grant_paddr (pfn_to_phys (gnt_pfn g)) s1)
     }"
| "do_gnttab slot mem d GNTTAB_unmap_page s = Some (Done, s)"

subsection \<open>References\<close>

lemma fold_max_ge: "m \<le> fold (\<lambda>g ref. if gnt_ref g > ref then gnt_ref g else ref) gs m \<and>
  (\<forall>g \<in> set gs. gnt_ref g \<le> fold (\<lambda>g ref. if gnt_ref g > ref then gnt_ref g else ref) gs m)"
proof (induction gs arbitrary: m)
  case (Cons g gs)
  show ?case using Cons [of "if gnt_ref g > m then gnt_ref g else m"] by (auto split: if_splits)
qed simp

lemma fold_max_in:
  "fold (\<lambda>g ref. if gnt_ref g > ref then gnt_ref g else ref) gs m = m \<or>
   (\<exists>g \<in> set gs. fold (\<lambda>g ref. if gnt_ref g > ref then gnt_ref g else ref) gs m = gnt_ref g)"
proof (induction gs arbitrary: m)
  case (Cons g gs)
  show ?case using Cons [of "if gnt_ref g > m then gnt_ref g else m"] by auto
qed simp

lemma get_ref_max_ge: "g \<in> set gs \<Longrightarrow> gnt_ref g \<le> get_ref_max gs"
  using fold_max_ge [of GRANT_INVALID_REF gs] by (auto simp: get_ref_max_def Let_def GRANT_INVALID_REF_def)

lemma get_ref_max_bound:
  "(\<forall>g \<in> set gs. gnt_ref g < n) \<Longrightarrow> 1 < n \<Longrightarrow> get_ref_max gs < n"
  using fold_max_in [of gs GRANT_INVALID_REF] by (auto simp: get_ref_max_def Let_def)

lemma get_ref_max_pos: "0 < get_ref_max gs"
  by (auto simp: get_ref_max_def Let_def GRANT_INVALID_REF_def)

lemma remove_ref_append: "\<forall>g \<in> set gs. gnt_ref g \<noteq> ref \<Longrightarrow> remove_ref ref (gs @ [x]) = gs @ (if gnt_ref x = ref then [] else [x])"
  by (induction gs) auto

lemma find_append_new:
  "\<forall>g \<in> set gs. gnt_ref g \<noteq> r \<Longrightarrow>
   find (\<lambda>g. gnt_ref g = r \<and> Q g) (gs @ [x]) = (if gnt_ref x = r \<and> Q x then Some x else None)"
  by (induction gs) auto

lemma find_absent: "\<forall>g \<in> set gs. gnt_ref g \<noteq> r \<Longrightarrow> find (\<lambda>g. gnt_ref g = r \<and> Q g) gs = None"
  by (induction gs) auto

text \<open>The frame of the machine behind the frame \<open>p\<close> of a domain.\<close>

definition machine_pfn :: "(nat \<Rightarrow> memslot_entry_t) \<Rightarrow> nat \<Rightarrow> nat \<Rightarrow> nat" where
  "machine_pfn slot d p = phys_to_pfn (ipa_to_pa slot (DOM_TO_MEMSLOT d) (pfn_to_phys p))"

lemma frame_roundtrip: "p < 2 ^ 52 \<Longrightarrow> phys_to_pfn (pfn_to_phys p) = p"
  by (simp add: phys_to_pfn_def pfn_to_phys_def)

lemma machine_pfn_bound: "machine_pfn slot d p < 2 ^ 52"
  by (simp add: machine_pfn_def phys_to_pfn_def ipa_to_pa_def less_mult_imp_div_less)

text \<open>
  C40. The life of a grant. A domain \<open>d\<close> that grants a page to a domain \<open>t\<close> gets a reference that
  none of its other grants has. With it \<open>t\<close>, and no other domain, can map the page: it appears
  at the first free frame reserved for that purpose, backed by the frame of the machine behind
  the granted page, and no other mapping changes. Revoking the reference restores the list of
  grants, after which nobody can map the page; but a mapping that was made before the
  revocation stays in place.
\<close>

theorem grant_map_revoke:
  assumes "gdomains s d = Some G" "gdomains s t = Some T" "\<forall>g \<in> set (gnttab G). gnt_ref g < 2 ^ 32 - 1"
    "first_index pfn_free (grant_pfn T) = Some i" "pfn (grant_pfn T ! i) < 2 ^ 52"
  shows "\<exists>r s1. do_gnttab slot True d (GNTTAB_grant_page t p) s = Some (Ref r, s1) \<and>
    r \<noteq> GRANT_INVALID_REF \<and> (\<forall>g \<in> set (gnttab G). gnt_ref g \<noteq> r) \<and>
    (\<forall>u. u \<noteq> t \<longrightarrow> do_gnttab slot True u (GNTTAB_map_page r d) s1 = None) \<and>
    (\<exists>s2. do_gnttab slot True t (GNTTAB_map_page r d) s1 = Some (Pfn (pfn (grant_pfn T ! i)), s2) \<and>
      stage2 s2 = (stage2 s)(t := (stage2 s t)(pfn (grant_pfn T ! i) \<mapsto> machine_pfn slot d p)) \<and>
      (\<exists>s3. do_gnttab slot True d (GNTTAB_revoke_page r) s2 = Some (Done, s3) \<and> stage2 s3 = stage2 s2)) \<and>
    (\<exists>s3. do_gnttab slot True d (GNTTAB_revoke_page r) s1 = Some (Done, s3) \<and> s3 = s \<and>
      (\<forall>u. do_gnttab slot True u (GNTTAB_map_page r d) s3 = None))"
proof -
  let ?r = "get_ref_max (gnttab G) + 1"
  let ?g = "\<lparr>origin_domid = d, target_domid = t, gnt_pfn = machine_pfn slot d p, gnt_ref = ?r\<rparr>"
  let ?s1 = "s\<lparr>gdomains := (gdomains s)(d \<mapsto> G\<lparr>gnttab := gnttab G @ [?g]\<rparr>)\<rparr>"
  let ?q = "pfn (grant_pfn T ! i)"
  have "get_ref_max (gnttab G) < 2 ^ 32 - 1" using assms(3) by (intro get_ref_max_bound) simp_all
  then have rm: "?r mod 2 ^ 32 = ?r" by (intro mod_less) simp
  have new: "\<forall>g \<in> set (gnttab G). gnt_ref g \<noteq> ?r" using get_ref_max_ge by fastforce
  have gr: "do_gnttab slot True d (GNTTAB_grant_page t p) s = Some (Ref ?r, ?s1)"
    using assms(1) rm by (simp add: new_gnttab_entry_def machine_pfn_def Let_def)
  have pick: "pick_granted_entry u ?r d ?s1 = Some (if u = t then Some ?g else None)" for u
    using find_append_new [OF new] by (simp add: pick_granted_entry_def)
  have no: "do_gnttab slot True u (GNTTAB_map_page ?r d) ?s1 = None" if "u \<noteq> t" for u
    using pick [of u] that by simp
  obtain T1 where T1: "gdomains ?s1 t = Some T1" "grant_pfn T1 = grant_pfn T" using assms(1,2) by (cases "d = t") auto
  let ?s1' = "?s1\<lparr>gdomains := (gdomains ?s1)(t \<mapsto> T1\<lparr>grant_pfn := (grant_pfn T)[i := (grant_pfn T ! i)\<lparr>pfn_free := False\<rparr>]\<rparr>)\<rparr>"
  have al: "allocate_grant_pfn t ?s1 = Some (?q, ?s1')" using T1 assms(4) by (simp add: allocate_grant_pfn_def)
  let ?s2 = "create_page_mapping t (pfn_to_phys ?q) (pfn_to_phys (machine_pfn slot d p)) ?s1'"
  have mp: "do_gnttab slot True t (GNTTAB_map_page ?r d) ?s1 = Some (Pfn ?q, ?s2)"
    using pick [of t] al frame_roundtrip [OF assms(5)] by (simp add: Let_def)
  have st: "stage2 ?s2 = (stage2 s)(t := (stage2 s t)(?q \<mapsto> machine_pfn slot d p))"
    using frame_roundtrip [OF assms(5)] frame_roundtrip [OF machine_pfn_bound] by (simp add: create_page_mapping_def)
  have "\<exists>G2. gdomains ?s2 d = Some G2" using assms(1) by (simp add: create_page_mapping_def)
  then have rv2: "\<exists>s3. do_gnttab slot True d (GNTTAB_revoke_page ?r) ?s2 = Some (Done, s3) \<and> stage2 s3 = stage2 ?s2"
    by (auto simp: revoke_gnttab_entry_def)
  have rv: "do_gnttab slot True d (GNTTAB_revoke_page ?r) ?s1 = Some (Done, s)"
    using assms(1) remove_ref_append [OF new, of ?g] by (simp add: revoke_gnttab_entry_def fun_upd_idem)
  have "do_gnttab slot True u (GNTTAB_map_page ?r d) s = None" for u
    using assms(1) find_absent [OF new] by (simp add: pick_granted_entry_def)
  then show ?thesis using gr new no mp st rv2 rv by (intro exI [of _ ?r] exI [of _ ?s1]) (simp add: GRANT_INVALID_REF_def)
qed

definition ex_gstate :: gstate where
  "ex_gstate = \<lparr>gdomains = [0 \<mapsto> \<lparr>gnttab = [], grant_pfn = []\<rparr>, 2 \<mapsto> \<lparr>gnttab = [], grant_pfn = [\<lparr>pfn = 7, pfn_free = True\<rparr>]\<rparr>],
     stage2 = (\<lambda>_ _. None)\<rparr>"

theorem grant_map_revoke_witness:
  "\<exists>r s1 s2. do_gnttab (\<lambda>_. \<lparr>base_paddr = 0x10000, ipa_addr = 0x4000\<rparr>) True 0 (GNTTAB_grant_page 2 5) ex_gstate = Some (Ref r, s1) \<and>
    do_gnttab (\<lambda>_. \<lparr>base_paddr = 0x10000, ipa_addr = 0x4000\<rparr>) True 2 (GNTTAB_map_page r 0) s1 = Some (Pfn 7, s2) \<and>
    stage2 s2 2 7 = Some 17"
proof -
  let ?slot = "\<lambda>_::nat. \<lparr>base_paddr = 0x10000, ipa_addr = 0x4000\<rparr>"
  let ?G = "\<lparr>gnttab = [], grant_pfn = []\<rparr>" and ?T = "\<lparr>gnttab = [], grant_pfn = [\<lparr>pfn = 7, pfn_free = True\<rparr>]\<rparr>"
  have m: "machine_pfn ?slot 0 5 = 17"
    by (simp add: machine_pfn_def ipa_to_pa_def ipa_offset_def pfn_to_phys_def phys_to_pfn_def)
  have "gdomains ex_gstate 0 = Some ?G" "gdomains ex_gstate 2 = Some ?T" "\<forall>g \<in> set (gnttab ?G). gnt_ref g < 2 ^ 32 - 1"
    "first_index pfn_free (grant_pfn ?T) = Some 0" "pfn (grant_pfn ?T ! 0) < 2 ^ 52" by (simp_all add: ex_gstate_def)
  from grant_map_revoke [OF this, of ?slot 5] m show ?thesis by auto
qed

end
