(* ===== verification/So3_Vfs.thy ===== *)
theory So3_Vfs
  imports So3_Tables
begin

section \<open>File descriptors\<close>

text \<open>
  Model of \<open>so3/fs/vfs.c\<close> and of the functions of \<open>so3/kernel/process.c\<close> that handle a process's
  table of descriptors. There is one global table of open files; each process has a table that
  takes a local descriptor to an index of the global table or to \<open>-1\<close>. The operations of a file
  system or a driver are functions over a state of their own, the type \<open>'e\<close>, and arguments of
  the model. \<open>None\<close> stands for a failed \<open>ASSERT\<close>, an access through a null pointer or outside a
  table.

  Every function holds the recursive \<open>vfs_lock\<close>, so the calls are atomic and the lock does not
  appear; \<open>do_read\<close> and \<open>do_write\<close> release it before they call the driver, which does not change
  the tables. A process is the index of its table, \<open>p\<close> is the current one.
\<close>

subsection \<open>Tables\<close>

datatype vfs_error = ENFILE | ENOMEM | EINVAL | EISDIR | ENOTDIR | EBADF | ENOENT | EPERM | EPIPE

datatype vfs_type = VFS_TYPE_FILE | VFS_TYPE_DIR | VFS_TYPE_PIPE | VFS_TYPE_IO | VFS_TYPE_DEV nat

record 'e file_operations =
  op_open :: "(int \<Rightarrow> string \<Rightarrow> 'e \<Rightarrow> int \<times> 'e) option"
  op_close :: "(int \<Rightarrow> 'e \<Rightarrow> 'e) option"
  op_read :: "(int \<Rightarrow> int \<Rightarrow> 'e \<Rightarrow> (int \<times> nat list) \<times> 'e) option"
  op_write :: "(int \<Rightarrow> nat list \<Rightarrow> 'e \<Rightarrow> int \<times> 'e) option"
  op_lseek :: "(int \<Rightarrow> int \<Rightarrow> nat \<Rightarrow> 'e \<Rightarrow> int \<times> 'e) option"
  op_ioctl :: "(int \<Rightarrow> nat \<Rightarrow> nat \<Rightarrow> 'e \<Rightarrow> int \<times> 'e) option"
  op_readdir :: "(int \<Rightarrow> 'e \<Rightarrow> string option \<times> 'e) option"
  op_stat :: "(string \<Rightarrow> 'e \<Rightarrow> int \<times> 'e) option"
  op_mmap :: "(int \<Rightarrow> nat \<Rightarrow> nat \<Rightarrow> 'e \<Rightarrow> nat \<times> 'e) option"

record 'e fd =
  filename :: "string option"
  flags_operating_mode :: nat
  flags_access_mode :: nat
  flags_open :: nat
  fd_type :: vfs_type
  ref_count :: nat
  fops :: "'e file_operations option"
  priv :: nat

record 'e vfs =
  open_fds :: "'e fd option list"
  fd_arrays :: "int list list"
  fs_fat :: "'e file_operations option"
  fs_dev :: "'e file_operations option"
  drv :: 'e
  verrno :: "vfs_error option"

definition MAX_FDS :: nat where
  "MAX_FDS = 128"

definition FD_MAX :: nat where
  "FD_MAX = 64"

abbreviation STDERR :: int where
  "STDERR \<equiv> 2"

definition set_errno :: "vfs_error \<Rightarrow> 'e vfs \<Rightarrow> 'e vfs" where
  "set_errno e s = s\<lparr>verrno := Some e\<rparr>"

text \<open>The entry of a global descriptor, and its update.\<close>

definition gfd_entry :: "'e vfs \<Rightarrow> int \<Rightarrow> 'e fd option option" where
  "gfd_entry s g = (if g < 0 then None else at_index (open_fds s) (nat g))"

definition upd_gfd :: "int \<Rightarrow> ('e fd \<Rightarrow> 'e fd) \<Rightarrow> 'e vfs \<Rightarrow> 'e vfs option" where
  "upd_gfd g f s = do { e \<leftarrow> gfd_entry s g; x \<leftarrow> e; Some (s\<lparr>open_fds := (open_fds s)[nat g := Some (f x)]\<rparr>) }"

definition local_fd :: "nat \<Rightarrow> int \<Rightarrow> 'e vfs \<Rightarrow> int option" where
  "local_fd p lfd s = (if lfd < 0 then None else do { a \<leftarrow> at_index (fd_arrays s) p; at_index a (nat lfd) })"

definition set_local_fd :: "nat \<Rightarrow> int \<Rightarrow> int \<Rightarrow> 'e vfs \<Rightarrow> 'e vfs option" where
  "set_local_fd p lfd g s =
     do { _ \<leftarrow> local_fd p lfd s; Some (s\<lparr>fd_arrays := (fd_arrays s)[p := (fd_arrays s ! p)[nat lfd := g]]\<rparr>) }"

subsection \<open>Global descriptors\<close>

definition vfs_is_valid_gfd :: "int \<Rightarrow> 'e vfs \<Rightarrow> bool option" where
  "vfs_is_valid_gfd g s = (if g < 0 then Some False else do { e \<leftarrow> gfd_entry s g; Some (e \<noteq> None) })"

text \<open>
  For a local descriptor without a file the code reads the entry before the table; whatever it
  finds there, it returns \<open>-1\<close>.
\<close>

definition vfs_get_gfd :: "nat \<Rightarrow> int \<Rightarrow> 'e vfs \<Rightarrow> int option" where
  "vfs_get_gfd p lfd s =
     (if lfd < 0 then Some (-1)
      else do {
        g \<leftarrow> local_fd p lfd s;
        if g = -1 then Some (-1)
        else do { e \<leftarrow> gfd_entry s g; Some (if e = None then -1 else g) }
      })"

definition vfs_refcount :: "int \<Rightarrow> 'e vfs \<Rightarrow> nat option" where
  "vfs_refcount g s =
     do {
       v \<leftarrow> vfs_is_valid_gfd g s;
       if \<not> v then Some 0 else do { e \<leftarrow> gfd_entry s g; x \<leftarrow> e; Some (ref_count x) }
     }"

definition vfs_inc_ref :: "int \<Rightarrow> 'e vfs \<Rightarrow> 'e vfs option" where
  "vfs_inc_ref g s =
     do {
       v \<leftarrow> vfs_is_valid_gfd g s;
       if \<not> v then Some s else upd_gfd g (\<lambda>x. x\<lparr>ref_count := (ref_count x + 1) mod 2 ^ 32\<rparr>) s
     }"

definition vfs_set_priv :: "int \<Rightarrow> nat \<Rightarrow> 'e vfs \<Rightarrow> 'e vfs option" where
  "vfs_set_priv g d s = upd_gfd g (\<lambda>x. x\<lparr>priv := d\<rparr>) s"

definition vfs_get_priv :: "int \<Rightarrow> 'e vfs \<Rightarrow> nat option" where
  "vfs_get_priv g s = do { e \<leftarrow> gfd_entry s g; x \<leftarrow> e; Some (priv x) }"

definition vfs_get_type :: "int \<Rightarrow> 'e vfs \<Rightarrow> vfs_type option" where
  "vfs_get_type g s = do { e \<leftarrow> gfd_entry s g; x \<leftarrow> e; Some (fd_type x) }"

definition vfs_get_filename :: "int \<Rightarrow> 'e vfs \<Rightarrow> string option option" where
  "vfs_get_filename g s = do { e \<leftarrow> gfd_entry s g; x \<leftarrow> e; Some (filename x) }"

definition vfs_get_fops :: "int \<Rightarrow> 'e vfs \<Rightarrow> 'e file_operations option option" where
  "vfs_get_fops g s =
     do {
       v \<leftarrow> vfs_is_valid_gfd g s;
       if \<not> v then Some None else do { e \<leftarrow> gfd_entry s g; x \<leftarrow> e; Some (fops x) }
     }"

definition vfs_get_open_mode :: "int \<Rightarrow> 'e vfs \<Rightarrow> nat option" where
  "vfs_get_open_mode g s = do { e \<leftarrow> gfd_entry s g; Some (case e of Some x \<Rightarrow> flags_open x | None \<Rightarrow> 0) }"

definition vfs_set_open_mode :: "int \<Rightarrow> nat \<Rightarrow> 'e vfs \<Rightarrow> 'e vfs option" where
  "vfs_set_open_mode g m s = upd_gfd g (\<lambda>x. x\<lparr>flags_open := m\<rparr>) s"

text \<open>The two next ones return an uninitialised value for a free entry.\<close>

definition vfs_get_access_mode :: "int \<Rightarrow> 'e vfs \<Rightarrow> nat option" where
  "vfs_get_access_mode g s = do { e \<leftarrow> gfd_entry s g; x \<leftarrow> e; Some (flags_access_mode x) }"

definition vfs_get_operating_mode :: "int \<Rightarrow> 'e vfs \<Rightarrow> nat option" where
  "vfs_get_operating_mode g s = do { e \<leftarrow> gfd_entry s g; x \<leftarrow> e; Some (flags_operating_mode x) }"

definition vfs_set_access_mode :: "int \<Rightarrow> nat \<Rightarrow> 'e vfs \<Rightarrow> 'e vfs option" where
  "vfs_set_access_mode g m s = upd_gfd g (\<lambda>x. x\<lparr>flags_access_mode := m\<rparr>) s"

definition vfs_set_operating_mode :: "int \<Rightarrow> nat \<Rightarrow> 'e vfs \<Rightarrow> 'e vfs option" where
  "vfs_set_operating_mode g m s = upd_gfd g (\<lambda>x. x\<lparr>flags_operating_mode := m\<rparr>) s"

subsection \<open>Links from local to global descriptors\<close>

definition proc_new_fd :: "nat \<Rightarrow> 'e vfs \<Rightarrow> int option" where
  "proc_new_fd p s =
     do {
       a \<leftarrow> at_index (fd_arrays s) p;
       Some (case first_index (\<lambda>g. g = -1) a of Some i \<Rightarrow> int i | None \<Rightarrow> -1)
     }"

definition proc_register_fd :: "nat \<Rightarrow> int \<Rightarrow> 'e vfs \<Rightarrow> (int \<times> 'e vfs) option" where
  "proc_register_fd p g s =
     do {
       lfd \<leftarrow> proc_new_fd p s;
       if lfd < 0 then Some (lfd, set_errno ENFILE s)
       else do { s1 \<leftarrow> set_local_fd p lfd g s; Some (lfd, s1) }
     }"

text \<open>
  \<open>mem\<close> tells whether the two allocations succeed. The check of the second one looks at the wrong
  pointer, so that its failure ends in a copy to a null pointer.
\<close>

definition vfs_open ::
  "bool \<times> bool \<Rightarrow> nat \<Rightarrow> string option \<Rightarrow> 'e file_operations option \<Rightarrow> vfs_type \<Rightarrow> 'e vfs \<Rightarrow> (int \<times> 'e vfs) option" where
  "vfs_open mem p fname ops ty s =
     (case first_index (\<lambda>e. e = None) (open_fds s) of
        None \<Rightarrow> Some (-1, set_errno ENFILE s)
      | Some i \<Rightarrow>
          if \<not> fst mem then Some (-1, set_errno ENOMEM s)
          else if fname \<noteq> None \<and> \<not> snd mem then None
          else do {
            let g = int i;
            let s1 = s\<lparr>open_fds := (open_fds s)[i := Some \<lparr>filename = fname, flags_operating_mode = 0, flags_access_mode = 0,
              flags_open = 0, fd_type = ty, ref_count = 0, fops = ops, priv = 0\<rparr>]\<rparr>;
            s2 \<leftarrow> vfs_inc_ref g s1;
            (lfd, s3) \<leftarrow> proc_register_fd p g s2;
            if lfd < 0 then Some (-1, s3\<lparr>open_fds := (open_fds s3)[i := None]\<rparr>)
            else Some (lfd, s3)
          })"

definition vfs_link_fd :: "nat \<Rightarrow> int \<Rightarrow> int \<Rightarrow> 'e vfs \<Rightarrow> 'e vfs option" where
  "vfs_link_fd p lfd g s = do { s1 \<leftarrow> set_local_fd p lfd g s; vfs_inc_ref g s1 }"

fun clone_loop :: "int list \<Rightarrow> 'e vfs \<Rightarrow> (int list \<times> 'e vfs) option" where
  "clone_loop [] s = Some ([], s)"
| "clone_loop (g # gs) s =
     do {
       v \<leftarrow> vfs_is_valid_gfd g s;
       if \<not> v then do { (ds, s1) \<leftarrow> clone_loop gs s; Some (-1 # ds, s1) }
       else do { s1 \<leftarrow> vfs_inc_ref g s; (ds, s2) \<leftarrow> clone_loop gs s1; Some (g # ds, s2) }
     }"

text \<open>The table of a new process, which becomes the last one, is cloned from that of \<open>p\<close>.\<close>

definition vfs_clone_fd :: "nat \<Rightarrow> 'e vfs \<Rightarrow> 'e vfs option" where
  "vfs_clone_fd p s =
     do {
       a \<leftarrow> at_index (fd_arrays s) p;
       (ds, s1) \<leftarrow> clone_loop a s;
       Some (s1\<lparr>fd_arrays := fd_arrays s1 @ [ds]\<rparr>)
     }"

subsection \<open>System calls\<close>

definition fail :: "vfs_error \<Rightarrow> 'e vfs \<Rightarrow> (int \<times> 'e vfs) option" where
  "fail e s = Some (-1, set_errno e s)"

text \<open>
  \<open>do_read\<close> looks at the type of the file before it knows that the descriptor is valid; an invalid
  one is then an access outside the table or through a null pointer.
\<close>

definition do_read :: "nat \<Rightarrow> int \<Rightarrow> bool \<Rightarrow> int \<Rightarrow> 'e vfs \<Rightarrow> ((int \<times> nat list) \<times> 'e vfs) option" where
  "do_read p lfd buffer count s =
     (if \<not> buffer \<or> count < 0 then Some ((-1, []), set_errno EINVAL s)
      else do {
        g \<leftarrow> vfs_get_gfd p lfd s;
        ty \<leftarrow> vfs_get_type g s;
        if ty = VFS_TYPE_DIR then Some ((-1, []), set_errno EISDIR s)
        else do {
          v \<leftarrow> vfs_is_valid_gfd g s;
          if \<not> v then Some ((-1, []), set_errno EINVAL s)
          else do {
            r \<leftarrow> vfs_get_fops g s;
            ops \<leftarrow> r;
            case op_read ops of
              None \<Rightarrow> Some ((-1, []), set_errno EBADF s)
            | Some rd \<Rightarrow> (case rd g count (drv s) of (res, d) \<Rightarrow> Some (res, s\<lparr>drv := d\<rparr>))
          }
        }
      })"

definition do_write :: "nat \<Rightarrow> int \<Rightarrow> nat list option \<Rightarrow> int \<Rightarrow> 'e vfs \<Rightarrow> (int \<times> 'e vfs) option" where
  "do_write p lfd buffer count s =
     (if buffer = None \<or> count < 0 then fail EINVAL s
      else do {
        g \<leftarrow> vfs_get_gfd p lfd s;
        v \<leftarrow> vfs_is_valid_gfd g s;
        if \<not> v then fail EINVAL s
        else do {
          ty \<leftarrow> vfs_get_type g s;
          if ty = VFS_TYPE_DIR then fail EISDIR s
          else do {
            r \<leftarrow> vfs_get_fops g s;
            ops \<leftarrow> r;
            case op_write ops of
              None \<Rightarrow> fail EBADF s
            | Some wr \<Rightarrow> (case wr g (take (nat count) (the buffer)) (drv s) of (res, d) \<Rightarrow> Some (res, s\<lparr>drv := d\<rparr>))
          }
        }
      })"

definition DEV_PREFIX :: string where
  "DEV_PREFIX = ''/dev/''"

definition O_DIRECTORY :: nat where
  "O_DIRECTORY = 16384"

text \<open>
  \<open>devs\<close> is the lookup of a device by its name. The type that it reports is overwritten by the
  one from the flags, so only the operations count. When the driver's \<open>open\<close> fails, the global
  entry is released, while the process's table still refers to it.
\<close>

definition open_fops :: "(string \<Rightarrow> 'e file_operations option) \<Rightarrow> string \<Rightarrow> 'e vfs \<Rightarrow> 'e file_operations option option" where
  "open_fops devs fname s =
     (if take (length DEV_PREFIX) fname = DEV_PREFIX
      then (case devs (drop (length DEV_PREFIX) fname) of None \<Rightarrow> None | Some f \<Rightarrow> Some (Some f))
      else if fname = ''dev'' \<or> fname = ''/dev'' then Some (fs_dev s)
      else Some (fs_fat s))"

definition do_open ::
  "(string \<Rightarrow> 'e file_operations option) \<Rightarrow> bool \<times> bool \<Rightarrow> nat \<Rightarrow> string \<Rightarrow> nat \<Rightarrow> 'e vfs \<Rightarrow> (int \<times> 'e vfs) option" where
  "do_open devs mem p fname flags s =
     (case open_fops devs fname s of
        None \<Rightarrow> Some (-1, s)
      | Some ops \<Rightarrow> do {
          let ty = (if flags div O_DIRECTORY mod 2 = 1 then VFS_TYPE_DIR else VFS_TYPE_FILE);
          (lfd, s1) \<leftarrow> vfs_open mem p (Some fname) ops ty s;
          if lfd < 0 then fail EBADF s1
          else do {
            g \<leftarrow> local_fd p lfd s1;
            s2 \<leftarrow> vfs_set_open_mode g flags s1;
            f \<leftarrow> ops;
            case op_open f of
              None \<Rightarrow> Some (lfd, s2)
            | Some op \<Rightarrow>
                (case op g fname (drv s2) of (r, d) \<Rightarrow>
                   if r \<noteq> 0 then Some (-1, s2\<lparr>drv := d, open_fds := (open_fds s2)[nat g := None]\<rparr>)
                   else Some (lfd, s2\<lparr>drv := d\<rparr>))
          }
        })"

definition do_readdir :: "nat \<Rightarrow> int \<Rightarrow> 'e vfs \<Rightarrow> (string option \<times> 'e vfs) option" where
  "do_readdir p lfd s =
     do {
       g \<leftarrow> vfs_get_gfd p lfd s;
       v \<leftarrow> vfs_is_valid_gfd g s;
       if \<not> v then Some (None, set_errno EBADF s)
       else do {
         ty \<leftarrow> vfs_get_type g s;
         if ty \<noteq> VFS_TYPE_DIR then Some (None, set_errno ENOTDIR s)
         else do {
           r \<leftarrow> vfs_get_fops g s;
           ops \<leftarrow> r;
           case op_readdir ops of
             None \<Rightarrow> Some (None, set_errno EBADF s)
           | Some rd \<Rightarrow> (case rd g (drv s) of (res, d) \<Rightarrow> Some (res, s\<lparr>drv := d\<rparr>))
         }
       }
     }"

text \<open>The end of \<open>do_close\<close>: an entry without references is closed and released.\<close>

definition release_gfd :: "int \<Rightarrow> 'e vfs \<Rightarrow> 'e vfs option" where
  "release_gfd g s =
     do {
       n \<leftarrow> vfs_refcount g s;
       if n \<noteq> 0 then Some s
       else if g \<le> STDERR then None
       else do {
         r \<leftarrow> vfs_get_fops g s;
         ops \<leftarrow> r;
         let s1 = (case op_close ops of Some cl \<Rightarrow> s\<lparr>drv := cl g (drv s)\<rparr> | None \<Rightarrow> s);
         Some (s1\<lparr>open_fds := (open_fds s1)[nat g := None]\<rparr>)
       }
     }"

definition do_close :: "nat \<Rightarrow> int \<Rightarrow> 'e vfs \<Rightarrow> 'e vfs option" where
  "do_close p lfd s =
     (if lfd < 0 then Some s
      else do {
        g \<leftarrow> local_fd p lfd s;
        if g < 0 then Some s
        else do {
          e \<leftarrow> gfd_entry s g;
          case e of
            None \<Rightarrow> Some s
          | Some x \<Rightarrow>
              if ref_count x = 0 then None
              else do {
                s1 \<leftarrow> upd_gfd g (\<lambda>x. x\<lparr>ref_count := ref_count x - 1\<rparr>) s;
                s2 \<leftarrow> set_local_fd p lfd (-1) s1;
                release_gfd g s2
              }
        }
      })"

fun close_fds :: "nat \<Rightarrow> int list \<Rightarrow> 'e vfs \<Rightarrow> 'e vfs option" where
  "close_fds p [] s = Some s"
| "close_fds p (i # is) s = do { s1 \<leftarrow> do_close p i s; close_fds p is s1 }"

text \<open>The loop of \<open>do_exit\<close> over all descriptors of the process.\<close>

definition exit_fds :: "nat \<Rightarrow> 'e vfs \<Rightarrow> 'e vfs option" where
  "exit_fds p s = close_fds p (map int [0..<FD_MAX]) s"

definition EBADF_neg :: int where
  "EBADF_neg = - 9"

definition do_dup2 :: "nat \<Rightarrow> int \<Rightarrow> int \<Rightarrow> 'e vfs \<Rightarrow> (int \<times> 'e vfs) option" where
  "do_dup2 p oldfd newfd s =
     (if newfd < 0 \<or> newfd > int MAX_FDS then Some (EBADF_neg, s)
      else if oldfd < 0 \<or> oldfd > int MAX_FDS then Some (EBADF_neg, s)
      else do {
        g \<leftarrow> vfs_get_gfd p oldfd s;
        if g < 0 then fail EBADF s
        else do {
          g' \<leftarrow> vfs_get_gfd p newfd s;
          s1 \<leftarrow> (if g \<noteq> g' then do_close p newfd s else Some s);
          g1 \<leftarrow> vfs_get_gfd p oldfd s1;
          s2 \<leftarrow> vfs_link_fd p newfd g1 s1;
          Some (newfd, s2)
        }
      })"

definition do_dup :: "nat \<Rightarrow> int \<Rightarrow> 'e vfs \<Rightarrow> (int \<times> 'e vfs) option" where
  "do_dup p oldfd s =
     (if oldfd < 0 \<or> oldfd > int MAX_FDS then Some (EBADF_neg, s)
      else do {
        newfd \<leftarrow> proc_new_fd p s;
        if newfd < 0 then Some (newfd, s)
        else do {
          g \<leftarrow> vfs_get_gfd p oldfd s;
          s1 \<leftarrow> vfs_link_fd p newfd g s;
          Some (newfd, s1)
        }
      })"

definition do_stat :: "string \<Rightarrow> 'e vfs \<Rightarrow> (int \<times> 'e vfs) option" where
  "do_stat path s =
     (case fs_fat s of
        None \<Rightarrow> fail ENOENT s
      | Some f \<Rightarrow>
          (case op_stat f of
             None \<Rightarrow> fail ENOENT s
           | Some st \<Rightarrow> (case st path (drv s) of (r, d) \<Rightarrow> Some (r, s\<lparr>drv := d\<rparr>))))"

text \<open>The address 0 stands for the null pointer that \<open>do_mmap\<close> returns on failure.\<close>

definition do_mmap :: "nat \<Rightarrow> nat \<Rightarrow> nat \<Rightarrow> int \<Rightarrow> 'e vfs \<Rightarrow> (nat \<times> 'e vfs) option" where
  "do_mmap p start len lfd s =
     do {
       g \<leftarrow> vfs_get_gfd p lfd s;
       if g = -1 then Some (0, s)
       else do {
         r \<leftarrow> vfs_get_fops g s;
         case r of
           None \<Rightarrow> Some (0, s)
         | Some ops \<Rightarrow> do {
             let page_count = len div 4096 + (if len mod 4096 \<noteq> 0 then 1 else 0);
             mm \<leftarrow> op_mmap ops;
             let (a, d) = mm lfd start page_count (drv s);
             Some (a, s\<lparr>drv := d\<rparr>)
           }
       }
     }"

definition do_ioctl :: "nat \<Rightarrow> int \<Rightarrow> nat \<Rightarrow> nat \<Rightarrow> 'e vfs \<Rightarrow> (int \<times> 'e vfs) option" where
  "do_ioctl p lfd cmd args s =
     do {
       g \<leftarrow> vfs_get_gfd p lfd s;
       v \<leftarrow> vfs_is_valid_gfd g s;
       if \<not> v then fail EINVAL s
       else do {
         r \<leftarrow> vfs_get_fops g s;
         ops \<leftarrow> r;
         case op_ioctl ops of
           None \<Rightarrow> fail EPERM s
         | Some io \<Rightarrow> (case io lfd cmd args (drv s) of (r, d) \<Rightarrow> Some (r, s\<lparr>drv := d\<rparr>))
       }
     }"

definition do_lseek :: "nat \<Rightarrow> int \<Rightarrow> int \<Rightarrow> nat \<Rightarrow> 'e vfs \<Rightarrow> (int \<times> 'e vfs) option" where
  "do_lseek p lfd off whence s =
     do {
       g \<leftarrow> vfs_get_gfd p lfd s;
       v \<leftarrow> vfs_is_valid_gfd g s;
       if \<not> v then fail EINVAL s
       else do {
         r \<leftarrow> vfs_get_fops g s;
         ops \<leftarrow> r;
         case op_lseek ops of
           None \<Rightarrow> Some (0, s)
         | Some sk \<Rightarrow> (case sk lfd off whence (drv s) of (r, d) \<Rightarrow> Some (r, s\<lparr>drv := d\<rparr>))
       }
     }"

text \<open>The global table at start-up, and with it the table of the first process.\<close>

definition console_fd :: "'e file_operations \<Rightarrow> 'e fd" where
  "console_fd console = \<lparr>filename = None, flags_operating_mode = 0, flags_access_mode = 0, flags_open = 0,
     fd_type = VFS_TYPE_IO, ref_count = 1, fops = Some console, priv = 0\<rparr>"

definition vfs_gfd_init :: "'e file_operations \<Rightarrow> 'e fd option list" where
  "vfs_gfd_init console = replicate 3 (Some (console_fd console)) @ replicate (MAX_FDS - 3) None"

definition root_fds :: "int list" where
  "root_fds = [0, 1, 2] @ replicate (FD_MAX - 3) (-1)"

subsection \<open>Counting links\<close>

definition cnt :: "int list \<Rightarrow> int \<Rightarrow> nat" where
  "cnt a g = sum_list (map (\<lambda>x. if x = g then 1 else 0) a)"

definition links :: "int list list \<Rightarrow> int \<Rightarrow> nat" where
  "links as g = sum_list (map (\<lambda>a. cnt a g) as)"

lemma cnt_update:
  "i < length a \<Longrightarrow> cnt (a[i := v]) g + (if a ! i = g then 1 else 0) = cnt a g + (if v = g then 1 else 0)"
proof (induction a arbitrary: i)
  case (Cons b a)
  show ?case
  proof (cases i)
    case 0
    then show ?thesis by (simp add: cnt_def)
  next
    case (Suc j)
    then have "cnt (a[j := v]) g + (if a ! j = g then 1 else 0) = cnt a g + (if v = g then 1 else 0)"
      using Cons.IH [of j] Cons.prems by simp
    then show ?thesis using Suc by (simp add: cnt_def)
  qed
qed simp

lemma links_update:
  assumes "p < length as" "i < length (as ! p)"
  shows "links (as[p := (as ! p)[i := v]]) g + (if as ! p ! i = g then 1 else 0) = links as g + (if v = g then 1 else 0)"
  using assms
proof (induction as arbitrary: p)
  case (Cons a as)
  show ?case
  proof (cases p)
    case 0
    then show ?thesis using cnt_update [of i a v g] Cons.prems by (simp add: links_def)
  next
    case (Suc q)
    then show ?thesis using Cons.IH [of q] Cons.prems by (simp add: links_def)
  qed
qed simp

lemma cnt_zero: "cnt a g = 0 \<longleftrightarrow> g \<notin> set a"
  by (induction a) (auto simp: cnt_def)

lemma links_zero: "links as g = 0 \<longleftrightarrow> (\<forall>a \<in> set as. g \<notin> set a)"
  by (induction as) (auto simp: links_def cnt_zero)

lemma cnt_le: "cnt a g \<le> length a"
  by (induction a) (auto simp: cnt_def)

lemma links_le: "\<forall>a \<in> set as. length a = n \<Longrightarrow> links as g \<le> length as * n"
proof (induction as)
  case (Cons a as)
  then show ?case using cnt_le [of a g] by (simp add: links_def)
qed (simp add: links_def)

lemma links_append: "links (as @ [a]) g = links as g + cnt a g"
  by (simp add: links_def)

text \<open>
  The tables are well formed: they have their sizes, every link is empty or leads to an open file,
  and every open file has a positive count of references, which is the number of its links.
\<close>

definition tables_ok :: "'e fd option list \<Rightarrow> int list list \<Rightarrow> bool" where
  "tables_ok fds as \<longleftrightarrow> length fds = MAX_FDS \<and> length as \<le> 2 ^ 25 \<and> (\<forall>a \<in> set as. length a = FD_MAX) \<and>
     (\<forall>a \<in> set as. \<forall>g \<in> set a. g = -1 \<or> 0 \<le> g \<and> nat g < MAX_FDS \<and> fds ! nat g \<noteq> None) \<and>
     (\<forall>i x. i < MAX_FDS \<and> fds ! i = Some x \<longrightarrow> ref_count x = links as (int i) \<and> 0 < ref_count x)"

definition vfs_wf :: "'e vfs \<Rightarrow> bool" where
  "vfs_wf s \<longleftrightarrow> tables_ok (open_fds s) (fd_arrays s)"

lemma tables_okD:
  assumes "tables_ok fds as"
  shows "length fds = MAX_FDS" "\<And>a. a \<in> set as \<Longrightarrow> length a = FD_MAX"
    "\<And>a g. a \<in> set as \<Longrightarrow> g \<in> set a \<Longrightarrow> g = -1 \<or> 0 \<le> g \<and> nat g < MAX_FDS \<and> fds ! nat g \<noteq> None"
    "\<And>i x. i < MAX_FDS \<Longrightarrow> fds ! i = Some x \<Longrightarrow> ref_count x = links as (int i) \<and> 0 < ref_count x"
    "length as \<le> 2 ^ 25"
  using assms unfolding tables_ok_def by blast+

lemma tables_okI:
  assumes "length fds = MAX_FDS" "length as \<le> 2 ^ 25" "\<And>a. a \<in> set as \<Longrightarrow> length a = FD_MAX"
    "\<And>a g. a \<in> set as \<Longrightarrow> g \<in> set a \<Longrightarrow> g = -1 \<or> 0 \<le> g \<and> nat g < MAX_FDS \<and> fds ! nat g \<noteq> None"
    "\<And>i x. i < MAX_FDS \<Longrightarrow> fds ! i = Some x \<Longrightarrow> ref_count x = links as (int i) \<and> 0 < ref_count x"
  shows "tables_ok fds as"
  using assms unfolding tables_ok_def by blast

lemma links_bound: "tables_ok fds as \<Longrightarrow> links as g \<le> 2 ^ 31"
proof -
  assume t: "tables_ok fds as"
  have "links as g \<le> length as * FD_MAX" using tables_okD(2) [OF t] by (intro links_le) blast
  also have "\<dots> \<le> 2 ^ 25 * FD_MAX" using tables_okD(5) [OF t] by simp
  finally show ?thesis by (simp add: FD_MAX_def)
qed

lemma closed_no_links:
  assumes "tables_ok fds as" "i < MAX_FDS" "fds ! i = None"
  shows "links as (int i) = 0"
  unfolding links_zero
proof (intro ballI notI)
  fix a assume "a \<in> set as" "int i \<in> set a"
  then show False using tables_okD(3) [OF assms(1), of a "int i"] assms(3) by simp
qed

lemma set_update_links: "a \<in> set (as[p := (as ! p)[i := v]]) \<Longrightarrow> p < length as \<Longrightarrow>
  a \<in> set as \<or> a = (as ! p)[i := v]"
  using set_update_subset_insert by fast

lemma link_ok:
  assumes t: "tables_ok fds as" and p: "p < length as" "i < FD_MAX" "as ! p ! i = -1"
    and g: "g < MAX_FDS" "ref_count y = links as (int g) + 1"
  shows "tables_ok (fds[g := Some y]) (as[p := (as ! p)[i := int g]])"
proof -
  let ?as = "as[p := (as ! p)[i := int g]]" and ?fds = "fds[g := Some y]"
  note d = tables_okD [OF t]
  have l: "i < length (as ! p)" using d(2) p(1,2) by simp
  have ln: "links ?as h = links as h + (if int g = h then 1 else 0)" if "h \<noteq> -1" for h
    using links_update [OF p(1) l, of "int g" h] p(3) that by simp
  have "length a = FD_MAX" if "a \<in> set ?as" for a
    using set_update_links [OF that p(1)] d(2) p(1) by auto
  moreover have "h = -1 \<or> 0 \<le> h \<and> nat h < MAX_FDS \<and> ?fds ! nat h \<noteq> None" if "a \<in> set ?as" "h \<in> set a" for a h
  proof -
    have "h = int g \<or> (\<exists>b \<in> set as. h \<in> set b)"
      using set_update_links [OF that(1) p(1)] that(2) set_update_subset_insert [of "as ! p" i "int g"] p(1) by auto
    then show ?thesis
    proof
      assume "h = int g"
      then show ?thesis using g(1) d(1) by simp
    next
      assume "\<exists>b \<in> set as. h \<in> set b"
      then have "h = -1 \<or> 0 \<le> h \<and> nat h < MAX_FDS \<and> fds ! nat h \<noteq> None" using d(3) by blast
      then show ?thesis using d(1) g(1) by (cases "nat h = g") auto
    qed
  qed
  moreover have "ref_count x = links ?as (int j) \<and> 0 < ref_count x" if "j < MAX_FDS" "?fds ! j = Some x" for j x
  proof (cases "j = g")
    case True
    then show ?thesis using that d(1) ln [of "int g"] g(2) by simp
  next
    case False
    then show ?thesis using that d(4) [of j x] ln [of "int j"] by simp
  qed
  ultimately show ?thesis using d(1,5) by (intro tables_okI) ((simp only: length_list_update; fail) | blast)+
qed

lemma unlink_ok:
  assumes t: "tables_ok fds as" and p: "p < length as" "i < FD_MAX" "as ! p ! i = int g"
    and g: "g < MAX_FDS" "fds ! g = Some x" "e = (if ref_count x = 1 then None else Some y)" "ref_count y = ref_count x - 1"
  shows "tables_ok (fds[g := e]) (as[p := (as ! p)[i := -1]])"
proof -
  let ?as = "as[p := (as ! p)[i := -1]]" and ?fds = "fds[g := e]"
  note d = tables_okD [OF t]
  have l: "i < length (as ! p)" using d(2) p(1,2) by simp
  have ln: "links ?as h + (if int g = h then 1 else 0) = links as h" if "h \<noteq> -1" for h
    using links_update [OF p(1) l, of "-1" h] p(3) that by simp
  have rc: "ref_count x = links as (int g)" "0 < ref_count x" using d(4) [OF g(1,2)] by simp_all
  have "length a = FD_MAX" if "a \<in> set ?as" for a
    using set_update_links [OF that p(1)] d(2) p(1) by auto
  moreover have "h = -1 \<or> 0 \<le> h \<and> nat h < MAX_FDS \<and> ?fds ! nat h \<noteq> None" if m: "a \<in> set ?as" "h \<in> set a" for a h
  proof (cases "h = -1")
    case False
    have "\<exists>b \<in> set as. h \<in> set b"
      using set_update_links [OF m(1) p(1)] m(2) False set_update_subset_insert [of "as ! p" i "-1"] p(1) by auto
    then have h: "0 \<le> h" "nat h < MAX_FDS" "fds ! nat h \<noteq> None" using d(3) False by blast+
    have "e \<noteq> None" if "nat h = g"
    proof -
      have "0 < links ?as (int g)" using m links_zero [of ?as "int g"] that h(1) by auto
      then have "ref_count x \<noteq> 1" using ln [of "int g"] rc by simp
      then show ?thesis using g(3) by simp
    qed
    then show ?thesis using h d(1) g(1) by (cases "nat h = g") auto
  qed simp
  moreover have "ref_count z = links ?as (int j) \<and> 0 < ref_count z" if "j < MAX_FDS" "?fds ! j = Some z" for j z
  proof (cases "j = g")
    case True
    then have "z = y" "ref_count x \<noteq> 1" using that d(1) g(3) by (auto split: if_splits)
    then show ?thesis using True ln [of "int g"] rc g(4) by auto
  next
    case False
    then show ?thesis using that d(4) [of j z] ln [of "int j"] by simp
  qed
  ultimately show ?thesis using d(1,5) by (intro tables_okI) ((simp only: length_list_update; fail) | blast)+
qed

lemma entry_ok:
  assumes t: "tables_ok fds as" and g: "g < MAX_FDS" "fds ! g = Some x" "ref_count y = ref_count x"
  shows "tables_ok (fds[g := Some y]) as"
proof -
  note d = tables_okD [OF t]
  have "h = -1 \<or> 0 \<le> h \<and> nat h < MAX_FDS \<and> fds[g := Some y] ! nat h \<noteq> None" if "a \<in> set as" "h \<in> set a" for a h
    using d(3) [OF that] d(1) g(1) by (cases "nat h = g") auto
  moreover have "ref_count z = links as (int j) \<and> 0 < ref_count z" if "j < MAX_FDS" "fds[g := Some y] ! j = Some z" for j z
    using that d(1) d(4) [of j z] d(4) [OF g(1,2)] g by (cases "j = g") auto
  ultimately show ?thesis using d(1,2,5) by (intro tables_okI) ((simp only: length_list_update; fail) | blast)+
qed

subsection \<open>The operations keep the tables well formed\<close>

lemma local_fd_Some:
  assumes "local_fd p lfd s = Some g"
  shows "0 \<le> lfd" "p < length (fd_arrays s)" "nat lfd < length (fd_arrays s ! p)" "fd_arrays s ! p ! nat lfd = g"
  using assms by (auto simp: local_fd_def split: if_splits Option.bind_splits)

lemma local_fd_wf:
  assumes "vfs_wf s" "local_fd p lfd s = Some g"
  shows "nat lfd < FD_MAX" "g = -1 \<or> 0 \<le> g \<and> nat g < MAX_FDS \<and> open_fds s ! nat g \<noteq> None"
proof -
  note l = local_fd_Some [OF assms(2)] and d = tables_okD [OF assms(1) [unfolded vfs_wf_def]]
  have m: "fd_arrays s ! p \<in> set (fd_arrays s)" using l(2) by simp
  show "nat lfd < FD_MAX" using l(3) d(2) [OF m] by simp
  have "g \<in> set (fd_arrays s ! p)" using l(3,4) by auto
  then show "g = -1 \<or> 0 \<le> g \<and> nat g < MAX_FDS \<and> open_fds s ! nat g \<noteq> None" using d(3) [OF m] by blast
qed

lemma local_fd_cong: "fd_arrays s' = fd_arrays s \<Longrightarrow> local_fd p l s' = local_fd p l s"
  by (simp add: local_fd_def)

lemma local_fd_open_fds [simp]: "local_fd p l (s\<lparr>open_fds := x\<rparr>) = local_fd p l s"
  by (simp add: local_fd_def)

lemma set_local_fd_eq:
  "local_fd p lfd s = Some h \<Longrightarrow>
   set_local_fd p lfd g s = Some (s\<lparr>fd_arrays := (fd_arrays s)[p := (fd_arrays s ! p)[nat lfd := g]]\<rparr>)"
  by (simp add: set_local_fd_def)

lemma gfd_entry_wf:
  assumes "vfs_wf s" "0 \<le> g" "nat g < MAX_FDS"
  shows "gfd_entry s g = Some (open_fds s ! nat g)"
  using assms tables_okD(1) unfolding vfs_wf_def by (fastforce simp: gfd_entry_def)

lemma vfs_link_ok:
  assumes w: "vfs_wf s" and l: "local_fd p lfd s = Some (-1)" and g: "0 \<le> g" "nat g < MAX_FDS" "open_fds s ! nat g = Some x"
  shows "\<exists>s'. vfs_link_fd p lfd g s = Some s' \<and> vfs_wf s'"
proof -
  let ?as = "(fd_arrays s)[p := (fd_arrays s ! p)[nat lfd := g]]"
  let ?y = "x\<lparr>ref_count := (ref_count x + 1) mod 2 ^ 32\<rparr>"
  let ?s = "s\<lparr>fd_arrays := ?as, open_fds := (open_fds s)[nat g := Some ?y]\<rparr>"
  have t: "tables_ok (open_fds s) (fd_arrays s)" using w by (simp add: vfs_wf_def)
  have len: "length (open_fds s) = MAX_FDS" by (rule tables_okD(1) [OF t])
  have rc: "ref_count x = links (fd_arrays s) g" using tables_okD(4) [OF t g(2,3)] g(1) by simp
  have "ref_count x + 1 < 2 ^ 32" using rc links_bound [OF t, of g] by simp
  then have "ref_count ?y = links (fd_arrays s) (int (nat g)) + 1" using rc g(1) by simp
  then have "tables_ok (open_fds ?s) (fd_arrays ?s)"
    using link_ok [OF t local_fd_Some(2) [OF l] local_fd_wf(1) [OF w l] local_fd_Some(4) [OF l] g(2), of ?y] g(1) by simp
  moreover have "vfs_link_fd p lfd g s = Some ?s"
    using set_local_fd_eq [OF l, of g] g len
    by (simp add: vfs_link_fd_def vfs_inc_ref_def vfs_is_valid_gfd_def upd_gfd_def gfd_entry_def)
  ultimately show ?thesis by (simp add: vfs_wf_def)
qed

lemma do_close_eq:
  assumes w: "vfs_wf s" and l: "local_fd p lfd s = Some g" and g: "0 \<le> g" "open_fds s ! nat g = Some x"
  shows "do_close p lfd s =
    (let s1 = s\<lparr>open_fds := (open_fds s)[nat g := Some (x\<lparr>ref_count := ref_count x - 1\<rparr>)],
       fd_arrays := (fd_arrays s)[p := (fd_arrays s ! p)[nat lfd := -1]]\<rparr> in release_gfd g s1)"
proof -
  have t: "tables_ok (open_fds s) (fd_arrays s)" using w by (simp add: vfs_wf_def)
  have n: "nat g < MAX_FDS" using local_fd_wf(2) [OF w l] g(1) by auto
  have rc: "ref_count x \<noteq> 0" using tables_okD(4) [OF t n g(2)] by simp
  have e: "gfd_entry s g = Some (Some x)" using gfd_entry_wf [OF w g(1) n] g(2) by simp
  let ?s0 = "s\<lparr>open_fds := (open_fds s)[nat g := Some (x\<lparr>ref_count := ref_count x - 1\<rparr>)]\<rparr>"
  have "local_fd p lfd ?s0 = Some g" using l by simp
  from set_local_fd_eq [OF this, of "-1"] show ?thesis
    using local_fd_Some(1) [OF l] l e rc g by (simp add: do_close_def upd_gfd_def Let_def)
qed

lemma release_cases:
  assumes r: "release_gfd g s = Some s'" and g: "0 \<le> g" "nat g < length (open_fds s)" "open_fds s ! nat g = Some y"
  shows "fd_arrays s' = fd_arrays s \<and> open_fds s' = (open_fds s)[nat g := if ref_count y = 0 then None else Some y]"
proof -
  have e: "gfd_entry s g = Some (Some y)" using g by (simp add: gfd_entry_def)
  have v: "vfs_refcount g s = Some (ref_count y)" using e g(1) by (simp add: vfs_refcount_def vfs_is_valid_gfd_def)
  show ?thesis
  proof (cases "ref_count y = 0")
    case True
    then show ?thesis using r v by (auto simp: release_gfd_def Let_def split: if_splits Option.bind_splits option.splits)
  next
    case False
    then have "s' = s" using r v by (simp add: release_gfd_def)
    then show ?thesis using False g(3) list_update_id [of "open_fds s" "nat g"] by simp
  qed
qed

lemma do_close_ok:
  assumes "vfs_wf s" "do_close p lfd s = Some s'"
  shows "vfs_wf s' \<and>
    (s' = s \<and> (local_fd p lfd s = None \<or> local_fd p lfd s = Some (-1)) \<or>
     (\<exists>g x e. local_fd p lfd s = Some g \<and> 0 \<le> g \<and> open_fds s ! nat g = Some x \<and>
       fd_arrays s' = (fd_arrays s)[p := (fd_arrays s ! p)[nat lfd := -1]] \<and> open_fds s' = (open_fds s)[nat g := e]))"
proof (cases "lfd < 0")
  case True
  then show ?thesis using assms by (simp add: do_close_def local_fd_def)
next
  case False
  then obtain g where g: "local_fd p lfd s = Some g" using assms(2) by (auto simp: do_close_def split: Option.bind_splits)
  show ?thesis
  proof (cases "g < 0")
    case True
    then show ?thesis using assms g local_fd_wf(2) [OF assms(1) g] False by (auto simp: do_close_def)
  next
    case nn: False
    then have n: "0 \<le> g" "nat g < MAX_FDS" "open_fds s ! nat g \<noteq> None" using local_fd_wf(2) [OF assms(1) g] by auto
    then obtain x where x: "open_fds s ! nat g = Some x" by blast
    have t: "tables_ok (open_fds s) (fd_arrays s)" using assms(1) by (simp add: vfs_wf_def)
    have len: "length (open_fds s) = MAX_FDS" by (rule tables_okD(1) [OF t])
    have rc: "0 < ref_count x" using tables_okD(4) [OF t n(2) x] by simp
    let ?y = "x\<lparr>ref_count := ref_count x - 1\<rparr>"
    let ?e = "if ref_count x = 1 then None else Some ?y"
    let ?s1 = "s\<lparr>open_fds := (open_fds s)[nat g := Some ?y], fd_arrays := (fd_arrays s)[p := (fd_arrays s ! p)[nat lfd := -1]]\<rparr>"
    have "release_gfd g ?s1 = Some s'" using do_close_eq [OF assms(1) g n(1) x] assms(2) by (simp add: Let_def)
    from release_cases [OF this n(1)] have e: "fd_arrays s' = fd_arrays ?s1" "open_fds s' = (open_fds s)[nat g := ?e]"
      using n(2) len rc by (auto split: if_splits)
    have "tables_ok ((open_fds s)[nat g := ?e]) (fd_arrays ?s1)"
      using unlink_ok [OF t local_fd_Some(2) [OF g] local_fd_wf(1) [OF assms(1) g] _ n(2) x refl, of ?y] local_fd_Some(4) [OF g] n(1)
      by simp
    then have "vfs_wf s'" using e by (simp add: vfs_wf_def)
    then show ?thesis using g n(1) x e by auto
  qed
qed

lemma proc_new_fd_ok:
  assumes "proc_new_fd p s = Some lfd" "0 \<le> lfd"
  shows "local_fd p lfd s = Some (-1)"
  using assms first_index_SomeD [of "\<lambda>g. g = -1" "fd_arrays s ! p"]
  by (auto simp: proc_new_fd_def local_fd_def split: Option.bind_splits option.splits)

lemma vfs_open_eq:
  assumes "first_index (\<lambda>e. e = None) (open_fds s) = Some i" "i < length (open_fds s)" "fst mem" "fname = None \<or> snd mem"
  shows "vfs_open mem p fname ops ty s =
    do {
      (lfd, s3) \<leftarrow> proc_register_fd p (int i) (s\<lparr>open_fds := (open_fds s)[i := Some \<lparr>filename = fname, flags_operating_mode = 0,
        flags_access_mode = 0, flags_open = 0, fd_type = ty, ref_count = 1, fops = ops, priv = 0\<rparr>]\<rparr>);
      if lfd < 0 then Some (-1, s3\<lparr>open_fds := (open_fds s3)[i := None]\<rparr>) else Some (lfd, s3)
    }"
  using assms by (auto simp: vfs_open_def vfs_inc_ref_def vfs_is_valid_gfd_def upd_gfd_def gfd_entry_def Let_def)

lemma vfs_open_ok:
  assumes w: "vfs_wf s" and o: "vfs_open mem p fname ops ty s = Some (lfd, s')"
  shows "vfs_wf s' \<and> drv s' = drv s \<and> (lfd < 0 \<longrightarrow> open_fds s' = open_fds s \<and> fd_arrays s' = fd_arrays s) \<and>
    (0 \<le> lfd \<longrightarrow> (\<exists>i x. first_index (\<lambda>e. e = None) (open_fds s) = Some i \<and> i < MAX_FDS \<and> local_fd p lfd s' = Some (int i) \<and>
      open_fds s' = (open_fds s)[i := Some x] \<and> fops x = ops \<and> fd_arrays s' = (fd_arrays s)[p := (fd_arrays s ! p)[nat lfd := int i]]))"
proof (cases "first_index (\<lambda>e. e = None) (open_fds s)")
  case None
  then show ?thesis using o w by (auto simp: vfs_open_def set_errno_def vfs_wf_def)
next
  case (Some i)
  have t: "tables_ok (open_fds s) (fd_arrays s)" using w by (simp add: vfs_wf_def)
  have len: "length (open_fds s) = MAX_FDS" by (rule tables_okD(1) [OF t])
  have i: "i < MAX_FDS" "open_fds s ! i = None" using first_index_SomeD [OF Some] len by simp_all
  show ?thesis
  proof (cases "fst mem \<and> (fname = None \<or> snd mem)")
    case False
    then show ?thesis using o w Some by (auto simp: vfs_open_def set_errno_def vfs_wf_def split: if_splits)
  next
    case True
    let ?x = "\<lparr>filename = fname, flags_operating_mode = 0, flags_access_mode = 0, flags_open = 0, fd_type = ty, ref_count = 1,
      fops = ops, priv = 0\<rparr>"
    let ?s2 = "s\<lparr>open_fds := (open_fds s)[i := Some ?x]\<rparr>"
    have eq: "vfs_open mem p fname ops ty s =
        do { (lfd, s3) \<leftarrow> proc_register_fd p (int i) ?s2;
          if lfd < 0 then Some (-1, s3\<lparr>open_fds := (open_fds s3)[i := None]\<rparr>) else Some (lfd, s3) }"
      by (rule vfs_open_eq) (use Some i(1) len True in auto)
    have pn: "proc_new_fd p ?s2 = proc_new_fd p s" by (simp add: proc_new_fd_def)
    obtain l where l: "proc_new_fd p s = Some l" using o eq pn by (auto simp: proc_register_fd_def split: Option.bind_splits)
    show ?thesis
    proof (cases "l < 0")
      case True
      then have "lfd = -1" "s' = set_errno ENFILE ?s2\<lparr>open_fds := (open_fds s)[i := None]\<rparr>"
        using o eq pn l by (auto simp: proc_register_fd_def set_errno_def)
      moreover have "(open_fds s)[i := None] = open_fds s" using i(2) list_update_id [of "open_fds s" i] by simp
      ultimately show ?thesis using w by (simp add: vfs_wf_def set_errno_def)
    next
      case False
      then have lf: "local_fd p l s = Some (-1)" using proc_new_fd_ok [OF l] by simp
      let ?s3 = "?s2\<lparr>fd_arrays := (fd_arrays s)[p := (fd_arrays s ! p)[nat l := int i]]\<rparr>"
      have "set_local_fd p l (int i) ?s2 = Some ?s3" using set_local_fd_eq [of p l ?s2 "-1" "int i"] lf by simp
      then have r: "lfd = l" "s' = ?s3" using o eq pn l False by (auto simp: proc_register_fd_def)
      have "tables_ok (open_fds ?s3) (fd_arrays ?s3)"
        using link_ok [OF t local_fd_Some(2) [OF lf] local_fd_wf(1) [OF w lf] local_fd_Some(4) [OF lf] i(1), of ?x]
          closed_no_links [OF t i] by simp
      moreover have "local_fd p l ?s3 = Some (int i)" using local_fd_Some(1-3) [OF lf] by (simp add: local_fd_def)
      ultimately show ?thesis using r Some i(1) False by (auto simp: vfs_wf_def intro!: exI [of _ ?x])
    qed
  qed
qed

lemma do_dup_ok:
  assumes "vfs_wf s" "do_dup p oldfd s = Some (r, s')"
  shows "vfs_wf s'"
proof (cases "oldfd < 0 \<or> oldfd > int MAX_FDS")
  case True
  then show ?thesis using assms by (auto simp: do_dup_def)
next
  case False
  then obtain l where l: "proc_new_fd p s = Some l" using assms(2) by (auto simp: do_dup_def split: Option.bind_splits)
  show ?thesis
  proof (cases "l < 0")
    case True
    then show ?thesis using assms l False by (simp add: do_dup_def)
  next
    case nn: False
    then obtain g where g: "vfs_get_gfd p oldfd s = Some g" "vfs_link_fd p l g s = Some s'"
      using assms(2) l False by (auto simp: do_dup_def split: Option.bind_splits)
    have lf: "local_fd p l s = Some (-1)" using proc_new_fd_ok [OF l] nn by simp
    have "g = -1 \<or> (\<exists>x. 0 \<le> g \<and> nat g < MAX_FDS \<and> open_fds s ! nat g = Some x)"
      using g(1) False local_fd_wf(2) [OF assms(1), of p oldfd]
      by (auto simp: vfs_get_gfd_def split: Option.bind_splits if_splits)
    then show ?thesis
    proof
      assume m: "g = -1"
      have "(fd_arrays s)[p := (fd_arrays s ! p)[nat l := -1]] = fd_arrays s"
        using local_fd_Some(4) [OF lf] list_update_id [of "fd_arrays s ! p" "nat l"] by simp
      then have "s' = s" using g(2) m set_local_fd_eq [OF lf, of "-1"]
        by (simp add: vfs_link_fd_def vfs_inc_ref_def vfs_is_valid_gfd_def)
      then show ?thesis using assms(1) by simp
    next
      assume "\<exists>x. 0 \<le> g \<and> nat g < MAX_FDS \<and> open_fds s ! nat g = Some x"
      then show ?thesis using vfs_link_ok [OF assms(1) lf] g(2) by fastforce
    qed
  qed
qed

lemma vfs_get_gfd_valid:
  assumes "vfs_wf s" "vfs_get_gfd p lfd s = Some g" "0 \<le> g"
  shows "local_fd p lfd s = Some g" "nat g < MAX_FDS" "\<exists>x. open_fds s ! nat g = Some x"
proof -
  show l: "local_fd p lfd s = Some g"
    using assms(2,3) by (auto simp: vfs_get_gfd_def split: Option.bind_splits if_splits)
  show "nat g < MAX_FDS" "\<exists>x. open_fds s ! nat g = Some x" using local_fd_wf(2) [OF assms(1) l] assms(3) by auto
qed

lemma vfs_get_gfd_wf:
  assumes "vfs_wf s" "local_fd p lfd s = Some g"
  shows "vfs_get_gfd p lfd s = Some g"
proof -
  have "0 \<le> lfd" by (rule local_fd_Some(1) [OF assms(2)])
  then show ?thesis using assms(2) local_fd_wf(2) [OF assms] gfd_entry_wf [OF assms(1), of g]
    by (auto simp: vfs_get_gfd_def)
qed

text \<open>
  Duplicating a descriptor onto another one keeps the tables well formed when the two do not
  already share their file.
\<close>

lemma do_dup2_ok:
  assumes w: "vfs_wf s" and d: "do_dup2 p oldfd newfd s = Some (r, s')"
    and ne: "vfs_get_gfd p oldfd s \<noteq> vfs_get_gfd p newfd s \<or> vfs_get_gfd p oldfd s = Some (-1)"
  shows "vfs_wf s'"
proof (cases "newfd < 0 \<or> newfd > int MAX_FDS \<or> oldfd < 0 \<or> oldfd > int MAX_FDS")
  case True
  then show ?thesis using d w by (auto simp: do_dup2_def split: if_splits)
next
  case False
  then obtain g where g: "vfs_get_gfd p oldfd s = Some g" using d by (auto simp: do_dup2_def split: Option.bind_splits)
  show ?thesis
  proof (cases "g < 0")
    case True
    then show ?thesis using d w False g by (auto simp: do_dup2_def fail_def set_errno_def vfs_wf_def)
  next
    case nn: False
    then obtain g' where g': "vfs_get_gfd p newfd s = Some g'" using d False g by (auto simp: do_dup2_def split: Option.bind_splits)
    have gg: "g \<noteq> g'" using ne g g' nn by auto
    obtain s1 g1 where s1: "do_close p newfd s = Some s1" "vfs_get_gfd p oldfd s1 = Some g1" "vfs_link_fd p newfd g1 s1 = Some s'"
      using d False g g' nn gg by (auto simp: do_dup2_def split: Option.bind_splits)
    note o = vfs_get_gfd_valid [OF w g]
    have lo: "local_fd p oldfd s = Some g" using o(1) nn by simp
    obtain h where lh: "local_fd p newfd s = Some h"
      using g' False by (auto simp: vfs_get_gfd_def split: Option.bind_splits if_splits)
    have hg: "h = g'" using vfs_get_gfd_wf [OF w lh] g' by simp
    have "oldfd \<noteq> newfd" using lo lh hg gg by auto
    then have on: "nat oldfd \<noteq> nat newfd" using local_fd_Some(1) [OF lo] local_fd_Some(1) [OF lh] by simp
    have w1: "vfs_wf s1" using do_close_ok [OF w s1(1)] by blast
    have "local_fd p newfd s1 = Some (-1) \<and> local_fd p oldfd s1 = Some g \<and> open_fds s1 ! nat g = open_fds s ! nat g"
    proof (cases "h = -1")
      case True
      then have "s1 = s" using s1(1) lh False by (simp add: do_close_def)
      then show ?thesis using lh lo True by simp
    next
      case h: False
      then obtain e where e: "fd_arrays s1 = (fd_arrays s)[p := (fd_arrays s ! p)[nat newfd := -1]]"
          "open_fds s1 = (open_fds s)[nat h := e]" "0 \<le> h"
        using do_close_ok [OF w s1(1)] lh by auto
      have "nat h \<noteq> nat g" using hg gg e(3) nn by simp
      then show ?thesis
        using e on local_fd_Some [OF lo] local_fd_Some [OF lh] by (auto simp: local_fd_def)
    qed
    moreover from this have "g1 = g" using vfs_get_gfd_wf [OF w1, of p oldfd g] s1(2) by simp
    ultimately show ?thesis using vfs_link_ok [OF w1, of p newfd g] s1(3) o(2,3) nn by fastforce
  qed
qed

text \<open>Otherwise the count grows without a new descriptor.\<close>

definition shares :: "nat \<Rightarrow> int \<Rightarrow> int \<Rightarrow> 'e vfs \<Rightarrow> bool" where
  "shares p oldfd newfd s \<longleftrightarrow> (\<exists>g\<ge>0. vfs_get_gfd p oldfd s = Some g \<and> vfs_get_gfd p newfd s = Some g)"

lemma do_dup2_shared:
  assumes w: "vfs_wf s" and d: "do_dup2 p oldfd newfd s = Some (r, s')" and sh: "shares p oldfd newfd s"
  shows "\<not> vfs_wf s'"
proof -
  obtain g where g: "0 \<le> g" "vfs_get_gfd p oldfd s = Some g" "vfs_get_gfd p newfd s = Some g"
    using sh by (auto simp: shares_def)
  note o = vfs_get_gfd_valid [OF w g(2,1)] and n = vfs_get_gfd_valid [OF w g(3,1)]
  have t: "tables_ok (open_fds s) (fd_arrays s)" using w by (simp add: vfs_wf_def)
  obtain x where x: "open_fds s ! nat g = Some x" using o(3) by blast
  have rc: "ref_count x = links (fd_arrays s) g" using tables_okD(4) [OF t o(2) x] g(1) by simp
  have small: "ref_count x + 1 < 2 ^ 32" using rc links_bound [OF t, of g] by simp
  have range: "0 \<le> oldfd" "oldfd \<le> int MAX_FDS" "0 \<le> newfd" "newfd \<le> int MAX_FDS"
    using local_fd_Some(1,3) [OF o(1)] local_fd_Some(1,3) [OF n(1)] local_fd_wf(1) [OF w o(1)] local_fd_wf(1) [OF w n(1)]
    by (simp_all add: MAX_FDS_def FD_MAX_def)
  have l: "vfs_link_fd p newfd g s = Some s'"
    using d g range by (auto simp: do_dup2_def split: Option.bind_splits)
  have "(fd_arrays s)[p := (fd_arrays s ! p)[nat newfd := g]] = fd_arrays s"
    using local_fd_Some(4) [OF n(1)] list_update_id [of "fd_arrays s ! p" "nat newfd"] by simp
  then have "set_local_fd p newfd g s = Some s" using set_local_fd_eq [OF n(1), of g] by simp
  then have s': "s' = s\<lparr>open_fds := (open_fds s)[nat g := Some (x\<lparr>ref_count := (ref_count x + 1) mod 2 ^ 32\<rparr>)]\<rparr>"
    using l x g(1) o(2) tables_okD(1) [OF t]
    by (simp add: vfs_link_fd_def vfs_inc_ref_def vfs_is_valid_gfd_def upd_gfd_def gfd_entry_def)
  show ?thesis
  proof
    assume "vfs_wf s'"
    then have "tables_ok (open_fds s') (fd_arrays s')" by (simp add: vfs_wf_def)
    moreover have "open_fds s' ! nat g = Some (x\<lparr>ref_count := (ref_count x + 1) mod 2 ^ 32\<rparr>)"
      using s' o(2) tables_okD(1) [OF t] by simp
    ultimately have "(ref_count x + 1) mod 2 ^ 32 = links (fd_arrays s') (int (nat g))"
      using tables_okD(4) [of "open_fds s'" "fd_arrays s'" "nat g"] o(2) by fastforce
    then show False using s' rc small g(1) by simp
  qed
qed

lemma do_dup2_wf:
  assumes "vfs_wf s" "do_dup2 p oldfd newfd s = Some (r, s')"
  shows "vfs_wf s' \<longleftrightarrow> \<not> shares p oldfd newfd s"
proof (cases "shares p oldfd newfd s")
  case False
  then have "vfs_get_gfd p oldfd s \<noteq> vfs_get_gfd p newfd s \<or> vfs_get_gfd p oldfd s = Some (-1) \<or> vfs_get_gfd p oldfd s = None"
    using local_fd_wf(2) [OF assms(1), of p oldfd] by (auto simp: shares_def vfs_get_gfd_def split: Option.bind_splits if_splits)
  moreover have "vfs_wf s'" if "vfs_get_gfd p oldfd s = None"
    using assms that by (auto simp: do_dup2_def split: if_splits)
  ultimately show ?thesis using do_dup2_ok [OF assms] False by blast
qed (use do_dup2_shared [OF assms] in simp)

lemma add_empty_ok:
  assumes "tables_ok fds as" "length as < 2 ^ 25"
  shows "tables_ok fds (as @ [replicate FD_MAX (-1)])"
proof -
  note d = tables_okD [OF assms(1)]
  have "cnt (replicate FD_MAX (-1)) (int i) = 0" for i by (simp add: cnt_zero)
  then have ln: "links (as @ [replicate FD_MAX (-1)]) (int i) = links as (int i)" for i by (simp add: links_append)
  show ?thesis
  proof (rule tables_okI)
    show "length a = FD_MAX" if "a \<in> set (as @ [replicate FD_MAX (-1)])" for a using that d(2) by auto
    show "g = -1 \<or> 0 \<le> g \<and> nat g < MAX_FDS \<and> fds ! nat g \<noteq> None" if "a \<in> set (as @ [replicate FD_MAX (-1)])" "g \<in> set a" for a g
      using that d(3) by (auto simp: FD_MAX_def)
    show "ref_count x = links (as @ [replicate FD_MAX (-1)]) (int i) \<and> 0 < ref_count x" if "i < MAX_FDS" "fds ! i = Some x" for i x
      using d(4) [OF that] ln by simp
  qed (use d(1) assms(2) in simp_all)
qed

lemma clone_loop_ok:
  assumes "tables_ok (open_fds s) (fd_arrays s @ [pre @ replicate (length gs) (-1)])" "length pre + length gs = FD_MAX"
    "clone_loop gs s = Some (ds, s')" "\<forall>g \<in> set gs. nat g < MAX_FDS"
  shows "tables_ok (open_fds s') (fd_arrays s' @ [pre @ ds])"
  using assms
proof (induction gs arbitrary: s pre ds)
  case Nil
  then show ?case by simp
next
  case (Cons g gs)
  let ?as = "fd_arrays s @ [pre @ replicate (length (g # gs)) (-1)]"
  note t = Cons.prems(1)
  have len: "length (open_fds s) = MAX_FDS" by (rule tables_okD(1) [OF t])
  show ?case
  proof (cases "g < 0 \<or> open_fds s ! nat g = None")
    case True
    then have v: "vfs_is_valid_gfd g s = Some False"
      using Cons.prems(4) len by (auto simp: vfs_is_valid_gfd_def gfd_entry_def)
    then obtain ds' where r: "clone_loop gs s = Some (ds', s')" "ds = -1 # ds'"
      using Cons.prems(3) by (auto split: Option.bind_splits)
    show ?thesis using Cons.IH [of s "pre @ [-1]", OF _ _ r(1)] t Cons.prems(2,4) r(2) by simp
  next
    case False
    then obtain x where x: "0 \<le> g" "open_fds s ! nat g = Some x" by auto
    have n: "nat g < MAX_FDS" using Cons.prems(4) by simp
    have e: "gfd_entry s g = Some (Some x)" using x n len by (simp add: gfd_entry_def)
    let ?y = "x\<lparr>ref_count := (ref_count x + 1) mod 2 ^ 32\<rparr>"
    let ?s1 = "s\<lparr>open_fds := (open_fds s)[nat g := Some ?y]\<rparr>"
    have inc: "vfs_is_valid_gfd g s = Some True" "vfs_inc_ref g s = Some ?s1"
      using e x(1) by (simp_all add: vfs_is_valid_gfd_def vfs_inc_ref_def upd_gfd_def)
    then obtain ds' where r: "clone_loop gs ?s1 = Some (ds', s')" "ds = g # ds'"
      using Cons.prems(3) by (auto split: Option.bind_splits)
    have rc: "ref_count x = links ?as g" using tables_okD(4) [OF t n x(2)] x(1) by simp
    have "ref_count ?y = links ?as (int (nat g)) + 1" using rc links_bound [OF t, of g] x(1) by simp
    moreover have "?as ! length (fd_arrays s) ! length pre = -1" by (simp add: nth_append)
    moreover have "length pre < FD_MAX" using Cons.prems(2) by simp
    ultimately have "tables_ok (open_fds ?s1) (?as[length (fd_arrays s) := (?as ! length (fd_arrays s))[length pre := int (nat g)]])"
      using link_ok [OF t, of "length (fd_arrays s)" "length pre" "nat g" ?y] n by simp
    then have "tables_ok (open_fds ?s1) (fd_arrays ?s1 @ [(pre @ [g]) @ replicate (length gs) (-1)])"
      using x(1) by (simp add: nth_append list_update_append)
    from Cons.IH [OF this _ r(1)] show ?thesis using Cons.prems(2,4) r(2) by simp
  qed
qed

lemma vfs_clone_ok:
  assumes w: "vfs_wf s" and c: "vfs_clone_fd p s = Some s'" and l: "length (fd_arrays s) < 2 ^ 25"
  shows "vfs_wf s'"
proof -
  obtain ds s1 where a: "p < length (fd_arrays s)" "clone_loop (fd_arrays s ! p) s = Some (ds, s1)"
      "s' = s1\<lparr>fd_arrays := fd_arrays s1 @ [ds]\<rparr>"
    using c by (auto simp: vfs_clone_fd_def split: Option.bind_splits)
  have t: "tables_ok (open_fds s) (fd_arrays s)" using w by (simp add: vfs_wf_def)
  have m: "fd_arrays s ! p \<in> set (fd_arrays s)" using a(1) by simp
  have len: "length (fd_arrays s ! p) = FD_MAX" by (rule tables_okD(2) [OF t m])
  have "nat g < MAX_FDS" if "g \<in> set (fd_arrays s ! p)" for g
    using tables_okD(3) [OF t m that] by (auto simp: MAX_FDS_def)
  then have "tables_ok (open_fds s1) (fd_arrays s1 @ [[] @ ds])"
    using clone_loop_ok [of s "[]" "fd_arrays s ! p" ds s1] add_empty_ok [OF t l] a(2) len by simp
  then show ?thesis using a(3) by (simp add: vfs_wf_def)
qed

subsection \<open>Properties of the file descriptors\<close>

text \<open>
  The call of the driver's \<open>open\<close> fails: the file name leads to a driver, \<open>vfs_open\<close> succeeds with
  the global entry \<open>g\<close>, and the driver refuses.
\<close>

definition open_type :: "nat \<Rightarrow> vfs_type" where
  "open_type flags = (if flags div O_DIRECTORY mod 2 = 1 then VFS_TYPE_DIR else VFS_TYPE_FILE)"

definition open_refused ::
  "(string \<Rightarrow> 'e file_operations option) \<Rightarrow> bool \<times> bool \<Rightarrow> nat \<Rightarrow> string \<Rightarrow> nat \<Rightarrow> 'e vfs \<Rightarrow> bool" where
  "open_refused devs mem p fname flags s \<longleftrightarrow>
     (\<exists>f op lfd s1 g. open_fops devs fname s = Some (Some f) \<and> op_open f = Some op \<and>
        vfs_open mem p (Some fname) (Some f) (open_type flags) s = Some (lfd, s1) \<and> 0 \<le> lfd \<and>
        local_fd p lfd s1 = Some g \<and> fst (op g fname (drv s)) \<noteq> 0)"

lemma do_open_refused:
  assumes w: "vfs_wf s" and rf: "open_refused devs mem p fname flags s"
  shows "\<exists>s1 lfd i. do_open devs mem p fname flags s = Some (-1, s1) \<and> open_fds s1 = open_fds s \<and>
    local_fd p lfd s1 = Some (int i) \<and> first_index (\<lambda>e. e = None) (open_fds s) = Some i"
proof -
  obtain f op l s' g where f: "open_fops devs fname s = Some (Some f)" "op_open f = Some op" and
    s': "vfs_open mem p (Some fname) (Some f) (open_type flags) s = Some (l, s')" and
    l: "0 \<le> l" "local_fd p l s' = Some g" "fst (op g fname (drv s)) \<noteq> 0"
    using rf by (auto simp: open_refused_def)
  obtain i x where i: "first_index (\<lambda>e. e = None) (open_fds s) = Some i" "open_fds s' = (open_fds s)[i := Some x]" "g = int i"
    and d: "drv s' = drv s" using vfs_open_ok [OF w s'] l(1,2) by auto
  have ii: "i < length (open_fds s)" "open_fds s ! i = None" using first_index_SomeD [OF i(1)] by simp_all
  let ?s2 = "s'\<lparr>open_fds := (open_fds s')[i := Some (x\<lparr>flags_open := flags\<rparr>)]\<rparr>"
  have sm: "vfs_set_open_mode (int i) flags s' = Some ?s2"
    using i(2) ii(1) by (simp add: vfs_set_open_mode_def upd_gfd_def gfd_entry_def)
  obtain k e where o: "op g fname (drv s) = (k, e)" by fastforce
  let ?s1 = "?s2\<lparr>drv := e, open_fds := (open_fds ?s2)[i := None]\<rparr>"
  have "do_open devs mem p fname flags s = Some (-1, ?s1)"
    using f s' l i(3) sm o d by (simp add: do_open_def open_type_def Let_def)
  moreover have "open_fds ?s1 = open_fds s" using i(2) ii(2) list_update_id [of "open_fds s" i] by simp
  moreover have "local_fd p l ?s1 = Some (int i)" using l(2) i(3) local_fd_cong [of ?s1 s' p l] by simp
  ultimately show ?thesis using i(1) by blast
qed

lemma do_open_accepted:
  assumes w: "vfs_wf s" and o: "do_open devs mem p fname flags s = Some (r, s')" and nr: "\<not> open_refused devs mem p fname flags s"
  shows "vfs_wf s'"
proof (cases "open_fops devs fname s")
  case None
  then show ?thesis using o w by (simp add: do_open_def)
next
  case (Some ops)
  obtain l s1 where s1: "vfs_open mem p (Some fname) ops (open_type flags) s = Some (l, s1)"
    using o Some by (auto simp: do_open_def open_type_def Let_def split: Option.bind_splits)
  note v = vfs_open_ok [OF w s1]
  show ?thesis
  proof (cases "l < 0")
    case True
    then show ?thesis using o Some s1 v by (auto simp: do_open_def open_type_def fail_def set_errno_def vfs_wf_def)
  next
    case False
    then obtain i x where i: "i < MAX_FDS" "local_fd p l s1 = Some (int i)" "open_fds s1 = (open_fds s)[i := Some x]"
      and w1: "vfs_wf s1" and d: "drv s1 = drv s" using v by auto
    have "length (open_fds s) = MAX_FDS" using w tables_okD(1) by (auto simp: vfs_wf_def)
    then have xi: "open_fds s1 ! i = Some x" "length (open_fds s1) = MAX_FDS" using i by simp_all
    let ?s2 = "s1\<lparr>open_fds := (open_fds s1)[i := Some (x\<lparr>flags_open := flags\<rparr>)]\<rparr>"
    have sm: "vfs_set_open_mode (int i) flags s1 = Some ?s2"
      using xi i(1) by (simp add: vfs_set_open_mode_def upd_gfd_def gfd_entry_def)
    have acc: "fst (op (int i) fname (drv s)) = 0" if "ops = Some f" "op_open f = Some op" for f op
      using nr that Some s1 False i(2) unfolding open_refused_def by fastforce
    have "s' = ?s2 \<or> (\<exists>d. s' = ?s2\<lparr>drv := d\<rparr>)"
    proof -
      obtain f where f: "ops = Some f"
        using o Some s1 False i(2) sm by (auto simp: do_open_def open_type_def Let_def split: Option.bind_splits)
      show ?thesis
        using o Some s1 False i(2) sm f acc [OF f] d
        by (auto simp: do_open_def open_type_def Let_def split: option.splits prod.splits if_splits)
    qed
    moreover have "tables_ok (open_fds ?s2) (fd_arrays ?s2)"
      using entry_ok [of "open_fds s1" "fd_arrays s1" i x] w1 i(1) xi by (simp add: vfs_wf_def)
    ultimately show ?thesis by (auto simp: vfs_wf_def)
  qed
qed

lemma do_open_wf:
  assumes "vfs_wf s" "do_open devs mem p fname flags s = Some (r, s')"
  shows "vfs_wf s' \<longleftrightarrow> \<not> open_refused devs mem p fname flags s"
proof (cases "open_refused devs mem p fname flags s")
  case True
  then obtain lfd i where l: "local_fd p lfd s' = Some (int i)" "first_index (\<lambda>e. e = None) (open_fds s') = Some i"
    using do_open_refused [OF assms(1) True] assms(2) by auto
  then have "open_fds s' ! i = None" using first_index_SomeD by blast
  then show ?thesis using local_fd_wf(2) [of s' p lfd "int i"] l(1) True by auto
qed (use do_open_accepted [OF assms] in simp)

text \<open>The calls of a process on its descriptors; the others change the state of the drivers or the error number only.\<close>

datatype 'e vfs_call =
    Open "string \<Rightarrow> 'e file_operations option" "bool \<times> bool" string nat
  | Open_pipe "bool \<times> bool" "'e file_operations option" vfs_type
  | Close int | Dup int | Dup2 int int | Fork | Io 'e "vfs_error option"

fun vfs_exec :: "nat \<Rightarrow> 'e vfs_call \<Rightarrow> 'e vfs \<Rightarrow> 'e vfs option" where
  "vfs_exec p (Open devs mem fname flags) s = map_option snd (do_open devs mem p fname flags s)"
| "vfs_exec p (Open_pipe mem ops ty) s = map_option snd (vfs_open mem p None ops ty s)"
| "vfs_exec p (Close lfd) s = do_close p lfd s"
| "vfs_exec p (Dup lfd) s = map_option snd (do_dup p lfd s)"
| "vfs_exec p (Dup2 oldfd newfd) s = map_option snd (do_dup2 p oldfd newfd s)"
| "vfs_exec p Fork s = vfs_clone_fd p s"
| "vfs_exec p (Io d e) s = Some (s\<lparr>drv := d, verrno := e\<rparr>)"

text \<open>The calls that keep the tables well formed: all but two, and as many processes as there can be.\<close>

fun sound_call :: "nat \<Rightarrow> 'e vfs_call \<Rightarrow> 'e vfs \<Rightarrow> bool" where
  "sound_call p (Open devs mem fname flags) s \<longleftrightarrow> \<not> open_refused devs mem p fname flags s"
| "sound_call p (Dup2 oldfd newfd) s \<longleftrightarrow> \<not> shares p oldfd newfd s"
| "sound_call p Fork s \<longleftrightarrow> length (fd_arrays s) < 2 ^ 25"
| "sound_call p c s \<longleftrightarrow> True"

lemma clone_loop_arrays: "clone_loop gs s = Some (ds, s') \<Longrightarrow> fd_arrays s' = fd_arrays s"
  by (induction gs arbitrary: s ds)
    (fastforce simp: vfs_inc_ref_def upd_gfd_def split: Option.bind_splits if_splits)+

lemma vfs_exec_wf:
  assumes w: "vfs_wf s" and c: "vfs_exec p c s = Some s'"
  shows "vfs_wf s' \<longleftrightarrow> sound_call p c s"
proof (cases c)
  case (Open devs mem fname flags)
  then show ?thesis using c do_open_wf [OF w] by fastforce
next
  case (Open_pipe mem ops ty)
  then show ?thesis using c vfs_open_ok [OF w] by fastforce
next
  case (Close lfd)
  then show ?thesis using c do_close_ok [OF w] by auto
next
  case (Dup lfd)
  then show ?thesis using c do_dup_ok [OF w] by fastforce
next
  case (Dup2 oldfd newfd)
  then show ?thesis using c do_dup2_wf [OF w] by fastforce
next
  case Fork
  have "length (fd_arrays s) < 2 ^ 25" if "vfs_wf s'"
  proof -
    have "length (fd_arrays s') = Suc (length (fd_arrays s))"
      using c Fork clone_loop_arrays by (fastforce simp: vfs_clone_fd_def split: Option.bind_splits)
    then show ?thesis using that by (simp add: vfs_wf_def tables_ok_def)
  qed
  then show ?thesis using c Fork vfs_clone_ok [OF w] by auto
next
  case (Io d e)
  then show ?thesis using c w by (auto simp: vfs_wf_def)
qed

inductive vfs_run :: "'e vfs \<Rightarrow> 'e vfs \<Rightarrow> bool" for s0 where
  vfs_start: "vfs_run s0 s0"
| vfs_called: "vfs_run s0 s \<Longrightarrow> sound_call p c s \<Longrightarrow> vfs_exec p c s = Some s' \<Longrightarrow> vfs_run s0 s'"

lemma vfs_run_wf: "vfs_run s0 s \<Longrightarrow> vfs_wf s0 \<Longrightarrow> vfs_wf s"
  by (induction rule: vfs_run.induct) (auto simp: vfs_exec_wf)

lemma links_root: "links [root_fds] (int i) = (if i < 3 then 1 else 0)"
proof -
  have "cnt ([0, 1, 2] @ a) g = cnt [0, 1, 2] g + cnt a g" for a g by (simp add: cnt_def)
  moreover have "cnt (replicate n (-1)) (int i) = 0" for n by (simp add: cnt_zero)
  moreover have "i = 0 \<or> i = 1 \<or> i = 2 \<or> \<not> i < 3" by linarith
  ultimately show ?thesis by (auto simp: links_def root_fds_def cnt_def)
qed

lemma vfs_init_wf:
  assumes "open_fds s = vfs_gfd_init console" "fd_arrays s = [root_fds]"
  shows "vfs_wf s"
  unfolding vfs_wf_def assms
proof (rule tables_okI)
  have nth: "vfs_gfd_init console ! i = (if i < 3 then Some (console_fd console) else None)" if "i < MAX_FDS" for i
    using that by (simp add: vfs_gfd_init_def nth_append MAX_FDS_def)
  show "length (vfs_gfd_init console) = MAX_FDS" by (simp add: vfs_gfd_init_def MAX_FDS_def)
  show "length a = FD_MAX" if "a \<in> set [root_fds]" for a using that by (simp add: root_fds_def FD_MAX_def)
  show "g = -1 \<or> 0 \<le> g \<and> nat g < MAX_FDS \<and> vfs_gfd_init console ! nat g \<noteq> None" if "a \<in> set [root_fds]" "g \<in> set a" for a g
  proof -
    have "g = 0 \<or> g = 1 \<or> g = 2 \<or> g = -1" using that by (auto simp: root_fds_def)
    then show ?thesis using nth [of "nat g"] by (auto simp: MAX_FDS_def)
  qed
  show "ref_count x = links [root_fds] (int i) \<and> 0 < ref_count x" if "i < MAX_FDS" "vfs_gfd_init console ! i = Some x" for i x
    using that nth [of i] links_root [of i] by (auto simp: console_fd_def split: if_splits)
qed simp

text \<open>
  C10. Well-formedness of the descriptor tables. Processes open, close, duplicate and inherit
  descriptors, starting from the tables at start-up, but no driver refuses an \<open>open\<close>, no descriptor
  is duplicated onto one that already leads to the same file, and there are at most \<open>2 ^ 25\<close>
  processes. Then every local descriptor that is in use leads to an open entry of the global table,
  and the reference count of an open entry is positive and equal to the number of local descriptors
  that lead to it. So an entry stays open as long as, and not longer than, some process refers to
  it, and the assertion of \<open>do_close\<close> on the count never fails. The restriction is exact: in such a
  state, a call keeps this property if and only if it is none of the excluded ones.
\<close>

theorem fd_tables_well_formed:
  assumes "open_fds s0 = vfs_gfd_init console" "fd_arrays s0 = [root_fds]" "vfs_run s0 s"
  shows "length (open_fds s) = MAX_FDS \<and> (\<forall>a \<in> set (fd_arrays s). length a = FD_MAX) \<and>
    (\<forall>p lfd g. local_fd p lfd s = Some g \<longrightarrow> g = -1 \<or> 0 \<le> g \<and> nat g < MAX_FDS \<and> open_fds s ! nat g \<noteq> None) \<and>
    (\<forall>i x. i < MAX_FDS \<and> open_fds s ! i = Some x \<longrightarrow> ref_count x = links (fd_arrays s) (int i) \<and> 0 < ref_count x) \<and>
    (\<forall>p c s'. vfs_exec p c s = Some s' \<longrightarrow> (vfs_wf s' \<longleftrightarrow> sound_call p c s))"
proof -
  have w: "vfs_wf s" by (rule vfs_run_wf [OF assms(3) vfs_init_wf [OF assms(1,2)]])
  then have t: "tables_ok (open_fds s) (fd_arrays s)" by (simp add: vfs_wf_def)
  show ?thesis using tables_okD(1,2,4) [OF t] local_fd_wf(2) [OF w] vfs_exec_wf [OF w] by blast
qed

definition ex_ops :: "nat file_operations" where
  "ex_ops = \<lparr>op_open = Some (\<lambda>g f d. (if f = ''bad'' then -1 else 0, d)), op_close = None, op_read = None, op_write = None, op_lseek = None,
     op_ioctl = None, op_readdir = None, op_stat = None, op_mmap = None\<rparr>"

definition ex_vfs :: "nat vfs" where
  "ex_vfs = \<lparr>open_fds = vfs_gfd_init ex_ops, fd_arrays = [root_fds], fs_fat = Some ex_ops, fs_dev = None, drv = 0, verrno = None\<rparr>"

lemma ex_free: "first_index (\<lambda>e. e = None) (vfs_gfd_init c) = Some 3" "first_index (\<lambda>g. g = -1) root_fds = Some 3"
  by (simp_all add: vfs_gfd_init_def root_fds_def MAX_FDS_def FD_MAX_def numeral_eq_Suc)

lemma ex_entry: "vfs_gfd_init c ! 1 = Some (console_fd c)" "length (vfs_gfd_init c) = 128" "root_fds ! 1 = 1" "root_fds ! 3 = -1" "length root_fds = 64"
  by (simp_all add: vfs_gfd_init_def MAX_FDS_def root_fds_def FD_MAX_def nth_append)

theorem fd_tables_well_formed_witness:
  "\<exists>s x. do_dup 0 1 ex_vfs = Some (3, s) \<and> open_fds s ! 1 = Some x \<and> ref_count x = 2 \<and> links (fd_arrays s) 1 = 2"
proof -
  let ?s = "ex_vfs\<lparr>fd_arrays := [root_fds[3 := 1]], open_fds := (vfs_gfd_init ex_ops)[1 := Some ((console_fd ex_ops)\<lparr>ref_count := Suc (Suc 0)\<rparr>)]\<rparr>"
  have d: "do_dup 0 1 ex_vfs = Some (3, ?s)"
    by (simp add: do_dup_def ex_vfs_def proc_new_fd_def ex_free ex_entry [unfolded One_nat_def] vfs_get_gfd_def local_fd_def gfd_entry_def
        vfs_link_fd_def set_local_fd_def vfs_inc_ref_def vfs_is_valid_gfd_def upd_gfd_def MAX_FDS_def console_fd_def)
  have run: "vfs_run ex_vfs ?s" by (rule vfs_called [OF vfs_start, of 0 "Dup 1"]) (use d in simp_all)
  have "open_fds ex_vfs = vfs_gfd_init ex_ops" "fd_arrays ex_vfs = [root_fds]" by (simp_all add: ex_vfs_def)
  note w = fd_tables_well_formed [OF this run]
  have o: "open_fds ?s ! 1 = Some ((console_fd ex_ops)\<lparr>ref_count := Suc (Suc 0)\<rparr>)" by (simp add: ex_entry)
  have "(1::nat) < MAX_FDS" by (simp add: MAX_FDS_def)
  with w o have "ref_count ((console_fd ex_ops)\<lparr>ref_count := Suc (Suc 0)\<rparr>) = links (fd_arrays ?s) (int 1)" by blast
  then show ?thesis using d o by (intro exI [of _ ?s]) simp
qed

lemma vfs_open_links:
  assumes "vfs_open mem q fname ops ty s = Some (lfd, s')" "0 \<le> lfd"
  shows "\<exists>i x. first_index (\<lambda>e. e = None) (open_fds s) = Some i \<and> local_fd q lfd s = Some (-1) \<and>
    open_fds s' = (open_fds s)[i := Some x] \<and> ref_count x = 1 \<and> fops x = ops \<and> fd_arrays s' = (fd_arrays s)[q := (fd_arrays s ! q)[nat lfd := int i]] \<and>
    drv s' = drv s"
proof -
  obtain i where i: "first_index (\<lambda>e. e = None) (open_fds s) = Some i" "fst mem" "fname = None \<or> snd mem"
    using assms by (auto simp: vfs_open_def split: option.splits if_splits)
  have len: "i < length (open_fds s)" using first_index_SomeD [OF i(1)] by simp
  let ?x = "\<lparr>filename = fname, flags_operating_mode = 0, flags_access_mode = 0, flags_open = 0, fd_type = ty, ref_count = 1,
    fops = ops, priv = 0\<rparr>"
  let ?s2 = "s\<lparr>open_fds := (open_fds s)[i := Some ?x]\<rparr>"
  have r: "proc_register_fd q (int i) ?s2 = Some (lfd, s')"
    using assms vfs_open_eq [OF i(1) len i(2,3), of q ops ty] by (auto split: Option.bind_splits if_splits)
  have pn: "proc_new_fd q ?s2 = proc_new_fd q s" by (simp add: proc_new_fd_def)
  then have n: "proc_new_fd q s = Some lfd" using r assms(2) by (auto simp: proc_register_fd_def split: Option.bind_splits if_splits)
  have l: "local_fd q lfd s = Some (-1)" by (rule proc_new_fd_ok [OF n assms(2)])
  then have "set_local_fd q lfd (int i) ?s2 = Some (?s2\<lparr>fd_arrays := (fd_arrays s)[q := (fd_arrays s ! q)[nat lfd := int i]]\<rparr>)"
    using set_local_fd_eq [of q lfd ?s2 "-1" "int i"] by simp
  then have "s' = ?s2\<lparr>fd_arrays := (fd_arrays s)[q := (fd_arrays s ! q)[nat lfd := int i]]\<rparr>"
    using r pn n assms(2) by (simp add: proc_register_fd_def)
  then show ?thesis using i(1) l by (auto intro!: exI [of _ ?x])
qed

text \<open>
  C36. A driver that refuses an \<open>open\<close> leaves a stale descriptor behind. The call reports \<open>-1\<close> and
  releases the global entry, but the table of the process still leads to it; and the next file
  that any process opens gets exactly this entry. From then on the process that failed to open
  its own file reads and writes the file of the other one, whose reference count is 1 although
  two descriptors lead to it.
\<close>

theorem failed_open_leaves_stale_fd:
  assumes "vfs_wf s" "open_refused devs mem p fname flags s"
  shows "\<exists>s1 lfd g. do_open devs mem p fname flags s = Some (-1, s1) \<and> local_fd p lfd s1 = Some g \<and> gfd_entry s1 g = Some None \<and>
    (\<forall>mem' q fname' ops ty lfd' s2. vfs_open mem' q fname' ops ty s1 = Some (lfd', s2) \<and> 0 \<le> lfd' \<longrightarrow>
      (p, lfd) \<noteq> (q, lfd') \<and> vfs_get_gfd p lfd s2 = Some g \<and> vfs_get_gfd q lfd' s2 = Some g \<and>
      (\<exists>x. gfd_entry s2 g = Some (Some x) \<and> ref_count x = 1 \<and> fops x = ops))"
proof -
  obtain s1 lfd i where o: "do_open devs mem p fname flags s = Some (-1, s1)"
    and l: "local_fd p lfd s1 = Some (int i)" "first_index (\<lambda>e. e = None) (open_fds s1) = Some i"
    using do_open_refused [OF assms] by metis
  have i: "i < length (open_fds s1)" "open_fds s1 ! i = None" using first_index_SomeD [OF l(2)] by simp_all
  have "(p, lfd) \<noteq> (q, lfd') \<and> vfs_get_gfd p lfd s2 = Some (int i) \<and> vfs_get_gfd q lfd' s2 = Some (int i) \<and>
      (\<exists>x. gfd_entry s2 (int i) = Some (Some x) \<and> ref_count x = 1 \<and> fops x = ops)"
    if n: "vfs_open mem' q fname' ops ty s1 = Some (lfd', s2)" "0 \<le> lfd'" for mem' q fname' ops ty lfd' s2
  proof -
    obtain x where x: "local_fd q lfd' s1 = Some (-1)" "open_fds s2 = (open_fds s1)[i := Some x]" "ref_count x = 1" "fops x = ops"
        "fd_arrays s2 = (fd_arrays s1)[q := (fd_arrays s1 ! q)[nat lfd' := int i]]"
      using vfs_open_links [OF n] l(2) by auto
    have ne: "(p, lfd) \<noteq> (q, lfd')" using l(1) x(1) by auto
    note lp = local_fd_Some [OF l(1)] and lq = local_fd_Some [OF x(1)]
    have "local_fd p lfd s2 = Some (int i)" "local_fd q lfd' s2 = Some (int i)"
      using lp lq x(5) by (auto simp: local_fd_def nth_list_update)
    then have "vfs_get_gfd p lfd s2 = Some (int i)" "vfs_get_gfd q lfd' s2 = Some (int i)"
      using lp(1) lq(1) x(2) i(1) by (auto simp: vfs_get_gfd_def gfd_entry_def)
    then show ?thesis using ne x(2-4) i(1) by (simp add: gfd_entry_def)
  qed
  moreover have "gfd_entry s1 (int i) = Some None" using i by (simp add: gfd_entry_def)
  ultimately show ?thesis using o l(1) by blast
qed

lemma ex_failed_open:
  "do_open (\<lambda>_. None) (True, True) 0 ''bad'' 0 ex_vfs = Some (-1, ex_vfs\<lparr>fd_arrays := [root_fds[3 := 3]]\<rparr>)"
proof -
  have "vfs_gfd_init ex_ops ! 3 = None" by (simp add: vfs_gfd_init_def MAX_FDS_def nth_append)
  then have "(vfs_gfd_init ex_ops)[3 := None] = vfs_gfd_init ex_ops" by (metis list_update_id)
  then show ?thesis
    by (simp add: do_open_def open_fops_def DEV_PREFIX_def vfs_open_eq [of _ 3] ex_vfs_def ex_free ex_entry proc_register_fd_def proc_new_fd_def
        set_local_fd_def local_fd_def vfs_set_open_mode_def upd_gfd_def gfd_entry_def ex_ops_def Let_def)
qed

theorem failed_open_leaves_stale_fd_witness:
  "\<exists>s1 s2 lfd g. do_open (\<lambda>_. None) (True, True) 0 ''bad'' 0 ex_vfs = Some (-1, s1) \<and>
    vfs_open (True, True) 0 (Some ''f'') None VFS_TYPE_FILE s1 = Some (4, s2) \<and> lfd \<noteq> 4 \<and>
    vfs_get_gfd 0 lfd s2 = Some g \<and> vfs_get_gfd 0 4 s2 = Some g"
proof -
  let ?s1 = "ex_vfs\<lparr>fd_arrays := [root_fds[3 := 3]]\<rparr>"
  have w: "vfs_wf ex_vfs" by (rule vfs_init_wf) (simp_all add: ex_vfs_def)
  have "\<exists>s'. vfs_open (True, True) 0 (Some ''bad'') (Some ex_ops) (open_type 0) ex_vfs = Some (3, s') \<and> local_fd 0 3 s' = Some 3"
    by (simp add: vfs_open_eq [of _ 3] ex_vfs_def ex_free ex_entry proc_register_fd_def proc_new_fd_def set_local_fd_def local_fd_def)
  moreover have "open_fops (\<lambda>_. None) ''bad'' ex_vfs = Some (Some ex_ops)"
    by (simp add: open_fops_def DEV_PREFIX_def ex_vfs_def)
  moreover have "op_open ex_ops = Some (\<lambda>g f d. (if f = ''bad'' then -1 else 0, d))" by (simp add: ex_ops_def)
  ultimately have rf: "open_refused (\<lambda>_. None) (True, True) 0 ''bad'' 0 ex_vfs"
    unfolding open_refused_def by (fastforce intro: exI [of _ "3 :: int"])
  have f4: "first_index (\<lambda>g. g = -1) (root_fds[3 := 3]) = Some 4"
    by (simp add: root_fds_def FD_MAX_def numeral_eq_Suc)
  obtain s2 where o: "vfs_open (True, True) 0 (Some ''f'') None VFS_TYPE_FILE ?s1 = Some (4, s2)"
    by (simp add: vfs_open_eq [of _ 3] ex_vfs_def ex_free ex_entry proc_register_fd_def proc_new_fd_def f4 set_local_fd_def local_fd_def)
  obtain s1 lfd g where t: "do_open (\<lambda>_. None) (True, True) 0 ''bad'' 0 ex_vfs = Some (-1, s1)"
    "\<forall>mem' q fname' ops ty lfd' s2. vfs_open mem' q fname' ops ty s1 = Some (lfd', s2) \<and> 0 \<le> lfd' \<longrightarrow>
      (0, lfd) \<noteq> (q, lfd') \<and> vfs_get_gfd 0 lfd s2 = Some g \<and> vfs_get_gfd q lfd' s2 = Some g"
    using failed_open_leaves_stale_fd [OF w rf] by blast
  then have "s1 = ?s1" using ex_failed_open by simp
  then have "(0, lfd) \<noteq> (0 :: nat, 4 :: int) \<and> vfs_get_gfd 0 lfd s2 = Some g \<and> vfs_get_gfd 0 4 s2 = Some g" using t(2) o by force
  then show ?thesis using ex_failed_open o by blast
qed

end
