(* ===== verification/So3_Pipe.thy ===== *)
theory So3_Pipe
  imports So3_Ipc So3_Vfs
begin

section \<open>Pipes\<close>

text \<open>
  Model of \<open>so3/ipc/pipe.c\<close> over the completions, the scheduler and the file descriptors. The
  private data of the two global descriptors of a pipe point to its \<open>pipe_desc\<close>, the argument
  \<open>pd\<close> of the operations. What a call does under \<open>pd->lock\<close> is one step, so the lock does not
  appear. A call that has to wait releases the lock, calls \<open>wait_for_completion\<close> and takes the lock
  again: \<open>pipe_read\<close> and \<open>pipe_write\<close> are the calls up to the release, \<open>pipe_read_resume\<close> and
  \<open>pipe_write_resume\<close> continue when the lock is taken again. The buffer is a function from
  positions to bytes; both positions stay below \<open>PIPE_SIZE\<close>.
\<close>

subsection \<open>The operations\<close>

definition PIPE_SIZE :: nat where
  "PIPE_SIZE = 4096"

record pipe_desc =
  pipe_buf :: "nat \<Rightarrow> nat"
  pgfd0 :: int
  pgfd1 :: int
  pos_read :: nat
  pos_write :: nat
  wait_for_writer :: completion
  wait_for_reader :: completion

definition otherend :: "int \<Rightarrow> pipe_desc option \<Rightarrow> int" where
  "otherend g d = (case d of None \<Rightarrow> -22 | Some pd \<Rightarrow> if pgfd0 pd = g then pgfd1 pd else pgfd0 pd)"

definition pipe_full :: "pipe_desc \<Rightarrow> bool" where
  "pipe_full pd \<longleftrightarrow> (pos_write pd + 1) mod PIPE_SIZE = pos_read pd"

definition pipe_empty :: "pipe_desc \<Rightarrow> bool" where
  "pipe_empty pd \<longleftrightarrow> pos_write pd = pos_read pd"

text \<open>The outcomes of \<open>pipe_read_byte\<close>: the values 1, 0 and -1, and the entry into the wait.\<close>

datatype rd_byte = Rd_one nat | Rd_none | Rd_closed | Rd_wait

definition pipe_read_byte :: "int \<Rightarrow> bool \<Rightarrow> pipe_desc \<Rightarrow> rd_byte \<times> pipe_desc" where
  "pipe_read_byte g suspend pd =
     (if suspend \<and> pipe_empty pd \<and> otherend g (Some pd) \<noteq> -1 then (Rd_wait, pd)
      else if pipe_empty pd then (Rd_none, pd)
      else (Rd_one (pipe_buf pd (pos_read pd)), pd\<lparr>pos_read := (pos_read pd + 1) mod PIPE_SIZE\<rparr>))"

definition pipe_read_byte_resume :: "int \<Rightarrow> pipe_desc \<Rightarrow> rd_byte \<times> pipe_desc" where
  "pipe_read_byte_resume g pd =
     (if pipe_empty pd \<and> otherend g (Some pd) = -1 then (Rd_closed, pd) else pipe_read_byte g True pd)"

text \<open>The turns of the loop of \<open>pipe_read\<close> behind the first one.\<close>

fun read_loop :: "int \<Rightarrow> nat \<Rightarrow> pipe_desc \<Rightarrow> nat list \<times> pipe_desc" where
  "read_loop g 0 pd = ([], pd)"
| "read_loop g (Suc n) pd =
     (case pipe_read_byte g False pd of
        (Rd_one v, pd1) \<Rightarrow> (case read_loop g n pd1 of (vs, pd2) \<Rightarrow> (v # vs, pd2))
      | (_, pd1) \<Rightarrow> ([], pd1))"

text \<open>The two calls of \<open>complete\<close>.\<close>

definition signal_reader :: "pipe_desc \<Rightarrow> kernel \<Rightarrow> (pipe_desc \<times> kernel) option" where
  "signal_reader pd s = do { (x, s1) \<leftarrow> complete (wait_for_reader pd) s; Some (pd\<lparr>wait_for_reader := x\<rparr>, s1) }"

definition signal_writer :: "pipe_desc \<Rightarrow> kernel \<Rightarrow> (pipe_desc \<times> kernel) option" where
  "signal_writer pd s = do { (x, s1) \<leftarrow> complete (wait_for_writer pd) s; Some (pd\<lparr>wait_for_writer := x\<rparr>, s1) }"

datatype rd_result = Rd_returns int "nat list" "vfs_error option" | Rd_waits

definition read_complete :: "nat list \<Rightarrow> pipe_desc \<Rightarrow> kernel \<Rightarrow> (rd_result \<times> pipe_desc \<times> kernel) option" where
  "read_complete vs pd s = do { (pd1, s1) \<leftarrow> signal_reader pd s; Some (Rd_returns (int (length vs)) vs None, pd1, s1) }"

definition read_rest :: "int \<Rightarrow> nat \<Rightarrow> rd_byte \<times> pipe_desc \<Rightarrow> kernel \<Rightarrow> (rd_result \<times> pipe_desc \<times> kernel) option" where
  "read_rest g n r s =
     (case r of
        (Rd_wait, pd) \<Rightarrow> Some (Rd_waits, pd, s)
      | (Rd_closed, pd) \<Rightarrow> Some (Rd_returns 0 [] (Some EPIPE), pd, s)
      | (Rd_none, pd) \<Rightarrow> read_complete [] pd s
      | (Rd_one v, pd) \<Rightarrow> (case read_loop g (n - 1) pd of (vs, pd1) \<Rightarrow> read_complete (v # vs) pd1 s))"

definition pipe_read :: "int \<Rightarrow> bool \<Rightarrow> int \<Rightarrow> pipe_desc \<Rightarrow> kernel \<Rightarrow> (rd_result \<times> pipe_desc \<times> kernel) option" where
  "pipe_read g buffer count pd s =
     (if \<not> buffer \<or> count \<le> 0 then Some (Rd_returns (-1) [] (Some EPIPE), pd, s)
      else if otherend g (Some pd) = -1 \<and> pipe_empty pd then Some (Rd_returns 0 [] (Some EPIPE), pd, s)
      else read_rest g (nat count) (pipe_read_byte g True pd) s)"

definition pipe_read_resume :: "int \<Rightarrow> nat \<Rightarrow> pipe_desc \<Rightarrow> kernel \<Rightarrow> (rd_result \<times> pipe_desc \<times> kernel) option" where
  "pipe_read_resume g n pd s = read_rest g n (pipe_read_byte_resume g pd) s"

text \<open>\<open>None\<close> is the entry into the wait.\<close>

definition pipe_write_byte :: "pipe_desc \<Rightarrow> nat \<Rightarrow> pipe_desc option" where
  "pipe_write_byte pd v =
     (if pipe_full pd then None
      else Some (pd\<lparr>pipe_buf := (pipe_buf pd)(pos_write pd := v), pos_write := (pos_write pd + 1) mod PIPE_SIZE\<rparr>))"

text \<open>The loop of \<open>pipe_write\<close>, up to its end or to a byte for which there is no room; it returns the bytes that are left.\<close>

fun write_loop :: "nat list \<Rightarrow> pipe_desc \<Rightarrow> nat list \<times> pipe_desc" where
  "write_loop [] pd = ([], pd)"
| "write_loop (v # vs) pd = (case pipe_write_byte pd v of None \<Rightarrow> (v # vs, pd) | Some pd1 \<Rightarrow> write_loop vs pd1)"

datatype wr_result = Wr_returns int "vfs_error option" | Wr_waits "nat list"

definition write_rest :: "int \<Rightarrow> nat list \<Rightarrow> pipe_desc \<Rightarrow> kernel \<Rightarrow> (wr_result \<times> pipe_desc \<times> kernel) option" where
  "write_rest count vs pd s =
     (case write_loop vs pd of
        ([], pd1) \<Rightarrow> do { (pd2, s1) \<leftarrow> signal_writer pd1 s; Some (Wr_returns count None, pd2, s1) }
      | (rest, pd1) \<Rightarrow> Some (Wr_waits rest, pd1, s))"

definition pipe_write :: "int \<Rightarrow> nat list option \<Rightarrow> int \<Rightarrow> pipe_desc \<Rightarrow> kernel \<Rightarrow> (wr_result \<times> pipe_desc \<times> kernel) option" where
  "pipe_write g buffer count pd s =
     (if buffer = None \<or> count \<le> 0 then Some (Wr_returns (-1) (Some EPIPE), pd, s)
      else if otherend g (Some pd) = -1 \<and> pipe_full pd then Some (Wr_returns (-1) (Some EPIPE), pd, s)
      else write_rest count (take (nat count) (the buffer)) pd s)"

definition pipe_write_resume :: "int \<Rightarrow> nat list \<Rightarrow> pipe_desc \<Rightarrow> kernel \<Rightarrow> (wr_result \<times> pipe_desc \<times> kernel) option" where
  "pipe_write_resume count rest pd s =
     (if pipe_full pd then Some (Wr_returns (-1) (Some EPIPE), pd, s) else write_rest count rest pd s)"

definition O_RDONLY :: nat where
  "O_RDONLY = 0"

definition O_WRONLY :: nat where
  "O_WRONLY = 1"

definition signal_close :: "nat \<Rightarrow> pipe_desc \<Rightarrow> kernel \<Rightarrow> (pipe_desc \<times> kernel) option" where
  "signal_close opflags pd s =
     do {
       (pd1, s1) \<leftarrow> (if opflags = O_RDONLY then signal_reader pd s else Some (pd, s));
       if opflags = O_WRONLY then signal_writer pd1 s1 else Some (pd1, s1)
     }"

text \<open>The descriptor is freed with the second end; \<open>None\<close> as the new descriptor stands for this.\<close>


definition pipe_close :: "int \<Rightarrow> 'e vfs \<Rightarrow> pipe_desc \<Rightarrow> kernel \<Rightarrow> (pipe_desc option \<times> kernel) option" where
  "pipe_close g f pd s =
     do {
       opflags \<leftarrow> vfs_get_access_mode g f;
       privdata \<leftarrow> vfs_get_priv g f;
       if privdata = 0 then None
       else do {
         (pd1, s1) \<leftarrow> signal_close opflags pd s;
         if otherend g (Some pd1) = -1 then Some (None, s1)
         else if pgfd0 pd1 = g then Some (Some (pd1\<lparr>pgfd0 := -1\<rparr>), s1)
         else Some (Some (pd1\<lparr>pgfd1 := -1\<rparr>), s1)
       }
     }"

text \<open>
  \<open>do_pipe\<close>: \<open>addr\<close> is the address of the new descriptor, 0 when there is no memory, which is a
  panic; \<open>buf\<close> is the content of the new buffer, if there is one, and \<open>mem0\<close>, \<open>mem1\<close> tell
  whether \<open>vfs_open\<close> gets its memory. A failure of \<open>vfs_open\<close> is not noticed.
\<close>

definition do_pipe ::
  "nat \<Rightarrow> (nat \<Rightarrow> nat) option \<Rightarrow> bool \<times> bool \<Rightarrow> bool \<times> bool \<Rightarrow> 'e file_operations \<Rightarrow> nat \<Rightarrow> 'e vfs \<Rightarrow>
    (int \<times> (int \<times> int \<times> pipe_desc) option \<times> 'e vfs) option" where
  "do_pipe addr buf mem0 mem1 pipe_fops p f =
     (if addr = 0 then None
      else case buf of
        None \<Rightarrow> Some (-1, None, set_errno ENOMEM f)
      | Some b \<Rightarrow> do {
          (fd0, f1) \<leftarrow> vfs_open mem0 p None (Some pipe_fops) VFS_TYPE_PIPE f;
          (fd1, f2) \<leftarrow> vfs_open mem1 p None (Some pipe_fops) VFS_TYPE_PIPE f1;
          g0 \<leftarrow> vfs_get_gfd p fd0 f2;
          g1 \<leftarrow> vfs_get_gfd p fd1 f2;
          f3 \<leftarrow> vfs_set_access_mode g0 O_RDONLY f2;
          f4 \<leftarrow> vfs_set_access_mode g1 O_WRONLY f3;
          f5 \<leftarrow> vfs_set_priv g0 addr f4;
          f6 \<leftarrow> vfs_set_priv g1 addr f5;
          Some (0, Some (fd0, fd1, \<lparr>pipe_buf = b, pgfd0 = g0, pgfd1 = g1, pos_read = 0, pos_write = 0,
            wait_for_writer = init_completion, wait_for_reader = init_completion\<rparr>), f6)
        })"

subsection \<open>Interleaved use by the threads\<close>

text \<open>
  Where a thread is in a call: outside, before the wait, asleep in it, or behind it. A reader
  keeps its descriptor and the number of bytes it asked for, a writer the value it is to return
  and the bytes that are left. The two last components of a state are the bytes that readers
  have received and that writers have stored.
\<close>

datatype pipe_pc =
    P_out
  | R_wait int nat | R_sleep int nat | R_back int nat
  | W_wait int "nat list" | W_sleep int "nat list" | W_back int "nat list"

type_synonym pipe_sys = "pipe_desc \<times> kernel \<times> (nat \<Rightarrow> pipe_pc) \<times> nat list \<times> nat list"

fun received :: "rd_result \<Rightarrow> nat list" where
  "received (Rd_returns n vs e) = vs"
| "received Rd_waits = []"

fun after_read :: "int \<Rightarrow> nat \<Rightarrow> rd_result \<Rightarrow> pipe_pc" where
  "after_read g n (Rd_returns k vs e) = P_out"
| "after_read g n Rd_waits = R_wait g n"

text \<open>The bytes of \<open>vs\<close> that a call of a writer has stored when it returns or waits.\<close>

fun stored :: "nat list \<Rightarrow> wr_result \<Rightarrow> nat list" where
  "stored vs (Wr_returns n e) = (if n < 0 then [] else vs)"
| "stored vs (Wr_waits rest) = take (length vs - length rest) vs"

fun after_write :: "int \<Rightarrow> wr_result \<Rightarrow> pipe_pc" where
  "after_write n (Wr_returns k e) = P_out"
| "after_write n (Wr_waits rest) = W_wait n rest"

text \<open>
  Each call starts with interrupts enabled, since \<open>wait_for_completion\<close> demands this; so this is
  the mask that a call restores after its sleep.
\<close>

inductive pipe_step :: "pipe_sys \<Rightarrow> pipe_sys \<Rightarrow> bool" where
  p_read: "current_thread s = Some c \<Longrightarrow> pc c = P_out \<Longrightarrow> pipe_read g b n pd s = Some (r, pd', s') \<Longrightarrow>
    pipe_step (pd, s, pc, R, W) (pd', s', pc(c := after_read g (nat n) r), R @ received r, W)"
| p_read_wait: "current_thread s = Some c \<Longrightarrow> pc c = R_wait g n \<Longrightarrow>
    wait_for_completion (wait_for_writer pd) s = Some (r, x, s') \<Longrightarrow>
    pipe_step (pd, s, pc, R, W) (pd\<lparr>wait_for_writer := x\<rparr>, s', pc(c := if r = Passed then R_back g n else R_sleep g n), R, W)"
| p_read_awake: "current_thread s = Some c \<Longrightarrow> pc c = R_sleep g n \<Longrightarrow> wait_resume c True (wait_for_writer pd) s = Some (r, x, s') \<Longrightarrow>
    pipe_step (pd, s, pc, R, W) (pd\<lparr>wait_for_writer := x\<rparr>, s', pc(c := if r = Passed then R_back g n else R_sleep g n), R, W)"
| p_read_back: "current_thread s = Some c \<Longrightarrow> pc c = R_back g n \<Longrightarrow> pipe_read_resume g n pd s = Some (r, pd', s') \<Longrightarrow>
    pipe_step (pd, s, pc, R, W) (pd', s', pc(c := after_read g n r), R @ received r, W)"
| p_write: "current_thread s = Some c \<Longrightarrow> pc c = P_out \<Longrightarrow> pipe_write g (Some vs) (int (length vs)) pd s = Some (r, pd', s') \<Longrightarrow>
    pipe_step (pd, s, pc, R, W) (pd', s', pc(c := after_write (int (length vs)) r), R, W @ stored vs r)"
| p_write_wait: "current_thread s = Some c \<Longrightarrow> pc c = W_wait n vs \<Longrightarrow>
    wait_for_completion (wait_for_reader pd) s = Some (r, x, s') \<Longrightarrow>
    pipe_step (pd, s, pc, R, W) (pd\<lparr>wait_for_reader := x\<rparr>, s', pc(c := if r = Passed then W_back n vs else W_sleep n vs), R, W)"
| p_write_awake: "current_thread s = Some c \<Longrightarrow> pc c = W_sleep n vs \<Longrightarrow> wait_resume c True (wait_for_reader pd) s = Some (r, x, s') \<Longrightarrow>
    pipe_step (pd, s, pc, R, W) (pd\<lparr>wait_for_reader := x\<rparr>, s', pc(c := if r = Passed then W_back n vs else W_sleep n vs), R, W)"
| p_write_back: "current_thread s = Some c \<Longrightarrow> pc c = W_back n vs \<Longrightarrow> pipe_write_resume n vs pd s = Some (r, pd', s') \<Longrightarrow>
    pipe_step (pd, s, pc, R, W) (pd', s', pc(c := after_write n r), R, W @ stored vs r)"
| p_close: "current_thread s = Some c \<Longrightarrow> pc c = P_out \<Longrightarrow> pipe_close g (f :: unit vfs) pd s = Some (Some pd', s') \<Longrightarrow>
    pipe_step (pd, s, pc, R, W) (pd', s', pc, R, W)"
| p_elsewhere: "schedule s = Some s' \<or> waiting s = Some s' \<or> (\<exists>t. ready t s = Some s') \<Longrightarrow>
    pipe_step (pd, s, pc, R, W) (pd, s', pc, R, W)"

subsection \<open>The content of a pipe\<close>

definition pipe_ok :: "pipe_desc \<Rightarrow> bool" where
  "pipe_ok pd \<longleftrightarrow> pos_read pd < PIPE_SIZE \<and> pos_write pd < PIPE_SIZE"

definition pipe_count :: "pipe_desc \<Rightarrow> nat" where
  "pipe_count pd = (if pos_read pd \<le> pos_write pd then pos_write pd - pos_read pd else pos_write pd + PIPE_SIZE - pos_read pd)"

definition pipe_data :: "pipe_desc \<Rightarrow> nat list" where
  "pipe_data pd = map (\<lambda>i. pipe_buf pd ((pos_read pd + i) mod PIPE_SIZE)) [0..<pipe_count pd]"

lemma length_pipe_data [simp]: "length (pipe_data pd) = pipe_count pd"
  by (simp add: pipe_data_def)

lemma nth_pipe_data: "i < pipe_count pd \<Longrightarrow> pipe_data pd ! i = pipe_buf pd ((pos_read pd + i) mod PIPE_SIZE)"
  by (simp add: pipe_data_def)

lemma pipe_count_bound: "pipe_ok pd \<Longrightarrow> pipe_count pd < PIPE_SIZE"
  by (auto simp: pipe_ok_def pipe_count_def)

lemma pipe_empty_iff: "pipe_ok pd \<Longrightarrow> pipe_empty pd \<longleftrightarrow> pipe_data pd = []"
  by (auto simp: pipe_ok_def pipe_empty_def pipe_data_def pipe_count_def)

lemma pipe_full_iff: "pipe_ok pd \<Longrightarrow> pipe_full pd \<longleftrightarrow> pipe_count pd = PIPE_SIZE - 1"
  by (auto simp: pipe_ok_def pipe_full_def pipe_count_def ring_next)

lemma take_byte:
  assumes "pipe_ok pd" "\<not> pipe_empty pd" "pd' = pd\<lparr>pos_read := (pos_read pd + 1) mod PIPE_SIZE\<rparr>"
  shows "pipe_ok pd'" "pipe_data pd = pipe_buf pd (pos_read pd) # pipe_data pd'"
proof -
  have b: "pos_read pd < PIPE_SIZE" "pos_write pd < PIPE_SIZE" "pos_write pd \<noteq> pos_read pd"
    using assms(1,2) by (auto simp: pipe_ok_def pipe_empty_def)
  show "pipe_ok pd'" using b by (simp add: pipe_ok_def assms(3))
  have c: "pipe_count pd = Suc (pipe_count pd')" using b by (auto simp: pipe_count_def assms(3) ring_next)
  have "pipe_data pd ! i = (pipe_buf pd (pos_read pd) # pipe_data pd') ! i" if "i < pipe_count pd" for i
  proof (cases i)
    case 0
    then show ?thesis using that b by (simp add: nth_pipe_data)
  next
    case (Suc k)
    then have "pipe_data pd' ! k = pipe_buf pd ((Suc (pos_read pd) mod PIPE_SIZE + k) mod PIPE_SIZE)"
      using that c nth_pipe_data [of k pd'] by (simp add: assms(3))
    then show ?thesis using that Suc by (simp add: nth_pipe_data mod_simps)
  qed
  then show "pipe_data pd = pipe_buf pd (pos_read pd) # pipe_data pd'" using c by (intro nth_equalityI) auto
qed

lemma put_byte:
  assumes "pipe_ok pd" "pipe_write_byte pd v = Some pd'"
  shows "pipe_ok pd'" "pipe_data pd' = pipe_data pd @ [v]"
proof -
  have f: "\<not> pipe_full pd" and e: "pd' = pd\<lparr>pipe_buf := (pipe_buf pd)(pos_write pd := v), pos_write := (pos_write pd + 1) mod PIPE_SIZE\<rparr>"
    using assms(2) by (auto simp: pipe_write_byte_def split: if_splits)
  have b: "pos_read pd < PIPE_SIZE" "pos_write pd < PIPE_SIZE" "(pos_write pd + 1) mod PIPE_SIZE \<noteq> pos_read pd"
    using assms(1) f by (auto simp: pipe_ok_def pipe_full_def)
  show "pipe_ok pd'" using b by (simp add: pipe_ok_def e)
  have c: "pipe_count pd' = Suc (pipe_count pd)" using b by (auto simp: pipe_count_def e ring_next split: if_splits)
  have w: "(pos_read pd + i) mod PIPE_SIZE = pos_write pd \<longleftrightarrow> i = pipe_count pd" if "i \<le> pipe_count pd" for i
    using that b pipe_count_bound [OF assms(1)] by (auto simp: pipe_count_def ring_index)
  have "pipe_data pd' ! i = (pipe_data pd @ [v]) ! i" if "i < pipe_count pd'" for i
  proof -
    have "pipe_data pd' ! i = ((pipe_buf pd)(pos_write pd := v)) ((pos_read pd + i) mod PIPE_SIZE)"
      using nth_pipe_data [OF that] by (simp add: e)
    then show ?thesis using that c w [of i] by (cases "i = pipe_count pd") (auto simp: nth_append nth_pipe_data)
  qed
  then show "pipe_data pd' = pipe_data pd @ [v]" using c by (intro nth_equalityI) auto
qed

lemma read_byte_ok:
  assumes "pipe_ok pd" "pipe_read_byte g w pd = (r, pd')"
  shows "pipe_ok pd' \<and> pipe_data pd = (case r of Rd_one v \<Rightarrow> [v] | _ \<Rightarrow> []) @ pipe_data pd' \<and> r \<noteq> Rd_closed \<and>
    (r = Rd_none \<or> r = Rd_wait \<longrightarrow> pipe_data pd = [])"
  using assms take_byte [OF assms(1) _ refl] pipe_empty_iff [OF assms(1)]
  by (auto simp: pipe_read_byte_def split: if_splits)

lemma read_loop_ok:
  assumes "pipe_ok pd" "read_loop g n pd = (vs, pd')"
  shows "pipe_ok pd' \<and> vs = take n (pipe_data pd) \<and> pipe_data pd' = drop n (pipe_data pd)"
  using assms
proof (induction g n pd arbitrary: vs pd' rule: read_loop.induct)
  case (2 g n pd)
  obtain r pd1 where r: "pipe_read_byte g False pd = (r, pd1)" by fastforce
  note ok = read_byte_ok [OF 2(2) r]
  show ?case
  proof (cases r)
    case (Rd_one v)
    obtain ws pd2 where w: "read_loop g n pd1 = (ws, pd2)" by fastforce
    have "pipe_ok pd2 \<and> ws = take n (pipe_data pd1) \<and> pipe_data pd2 = drop n (pipe_data pd1)"
      using 2(1) [OF r [symmetric] Rd_one _ w] ok by simp
    then show ?thesis using 2(3) r Rd_one w ok by simp
  qed (use 2(3) r ok in \<open>auto simp: pipe_read_byte_def split: if_splits\<close>)
qed simp

lemma write_loop_ok:
  assumes "pipe_ok pd" "write_loop vs pd = (rest, pd')"
  shows "pipe_ok pd' \<and> (\<exists>ws. vs = ws @ rest \<and> pipe_data pd' = pipe_data pd @ ws) \<and> (rest \<noteq> [] \<longrightarrow> pipe_full pd') \<and>
    wait_for_writer pd' = wait_for_writer pd \<and> wait_for_reader pd' = wait_for_reader pd"
  using assms
proof (induction vs pd rule: write_loop.induct)
  case (2 v vs pd)
  show ?case
  proof (cases "pipe_write_byte pd v")
    case None
    then show ?thesis using 2(2,3) by (auto simp: pipe_write_byte_def split: if_splits)
  next
    case (Some pd1)
    have "wait_for_writer pd1 = wait_for_writer pd" "wait_for_reader pd1 = wait_for_reader pd"
      using Some by (auto simp: pipe_write_byte_def split: if_splits)
    then show ?thesis using 2(1) [OF Some put_byte(1) [OF 2(2) Some]] 2(3) Some put_byte(2) [OF 2(2) Some] by auto
  qed
qed simp

subsection \<open>First in, first out\<close>

fun pc_ok :: "pipe_pc \<Rightarrow> bool" where
  "pc_ok P_out \<longleftrightarrow> True"
| "pc_ok (R_wait g n) \<longleftrightarrow> 0 < n"
| "pc_ok (R_sleep g n) \<longleftrightarrow> 0 < n"
| "pc_ok (R_back g n) \<longleftrightarrow> 0 < n"
| "pc_ok (W_wait n vs) \<longleftrightarrow> 0 \<le> n"
| "pc_ok (W_sleep n vs) \<longleftrightarrow> 0 \<le> n"
| "pc_ok (W_back n vs) \<longleftrightarrow> 0 \<le> n"

definition pipe_inv :: "pipe_sys \<Rightarrow> bool" where
  "pipe_inv = (\<lambda>(pd, s, pc, R, W). pipe_ok pd \<and> W = R @ pipe_data pd \<and> (\<forall>t. pc_ok (pc t)))"

lemma data_frame:
  "pipe_data (pd\<lparr>wait_for_writer := x\<rparr>) = pipe_data pd" "pipe_data (pd\<lparr>wait_for_reader := x\<rparr>) = pipe_data pd"
  "pipe_data (pd\<lparr>pgfd0 := g\<rparr>) = pipe_data pd" "pipe_data (pd\<lparr>pgfd1 := g\<rparr>) = pipe_data pd"
  "pipe_ok (pd\<lparr>wait_for_writer := x\<rparr>) = pipe_ok pd" "pipe_ok (pd\<lparr>wait_for_reader := x\<rparr>) = pipe_ok pd"
  "pipe_ok (pd\<lparr>pgfd0 := g\<rparr>) = pipe_ok pd" "pipe_ok (pd\<lparr>pgfd1 := g\<rparr>) = pipe_ok pd"
  by (simp_all add: pipe_data_def pipe_count_def pipe_ok_def)

lemma signal_frame:
  "signal_reader pd s = Some (pd', s') \<Longrightarrow> pipe_data pd' = pipe_data pd \<and> pipe_ok pd' = pipe_ok pd"
  "signal_writer pd s = Some (pd', s') \<Longrightarrow> pipe_data pd' = pipe_data pd \<and> pipe_ok pd' = pipe_ok pd"
  by (auto simp: signal_reader_def signal_writer_def bind_eq_Some_conv data_frame)

lemma read_rest_ok:
  assumes "pipe_ok pd" "r0 = Rd_closed \<and> pd0 = pd \<or> pipe_read_byte g w pd = (r0, pd0)" "read_rest g n (r0, pd0) s = Some (r, pd', s')"
    "0 < n"
  shows "pipe_ok pd' \<and> pipe_data pd = received r @ pipe_data pd' \<and> length (received r) \<le> n"
proof (cases "r0 = Rd_closed")
  case True
  then show ?thesis using assms(1-3) read_byte_ok [OF assms(1)] by (auto simp: read_rest_def)
next
  case False
  then have r0: "pipe_read_byte g w pd = (r0, pd0)" using assms(2) by simp
  note ok = read_byte_ok [OF assms(1) r0]
  show ?thesis
  proof (cases r0)
    case (Rd_one v)
    obtain vs pd1 where l: "read_loop g (n - 1) pd0 = (vs, pd1)" by fastforce
    have "pipe_ok pd1 \<and> vs = take (n - 1) (pipe_data pd0) \<and> pipe_data pd1 = drop (n - 1) (pipe_data pd0)"
      using read_loop_ok [OF _ l] ok by blast
    then show ?thesis using ok Rd_one l assms(3,4)
      by (auto simp: read_rest_def read_complete_def bind_eq_Some_conv dest: signal_frame)
  qed (use ok assms(3) False in \<open>auto simp: read_rest_def read_complete_def bind_eq_Some_conv dest: signal_frame\<close>)
qed

lemma pipe_read_ok:
  assumes "pipe_ok pd" "pipe_read g b n pd s = Some (r, pd', s')"
  shows "pipe_ok pd' \<and> pipe_data pd = received r @ pipe_data pd' \<and> int (length (received r)) \<le> max n 0"
proof -
  obtain r0 pd0 where r0: "pipe_read_byte g True pd = (r0, pd0)" by fastforce
  show ?thesis
    using assms read_rest_ok [OF assms(1) disjI2 [OF r0], of "nat n" s r pd' s'] r0
    by (auto simp: pipe_read_def split: if_splits)
qed

lemma pipe_read_resume_ok:
  assumes "pipe_ok pd" "pipe_read_resume g n pd s = Some (r, pd', s')" "0 < n"
  shows "pipe_ok pd' \<and> pipe_data pd = received r @ pipe_data pd'"
proof -
  obtain r0 pd0 where r0: "pipe_read_byte_resume g pd = (r0, pd0)" by fastforce
  then have "r0 = Rd_closed \<and> pd0 = pd \<or> pipe_read_byte g True pd = (r0, pd0)"
    by (auto simp: pipe_read_byte_resume_def split: if_splits)
  then show ?thesis using read_rest_ok [OF assms(1)] assms(2,3) r0 by (auto simp: pipe_read_resume_def)
qed

lemma write_rest_ok:
  assumes "pipe_ok pd" "write_rest n vs pd s = Some (r, pd', s')" "0 \<le> n"
  shows "pipe_ok pd' \<and> pipe_data pd' = pipe_data pd @ stored vs r"
proof -
  obtain rest pd1 where l: "write_loop vs pd = (rest, pd1)" by fastforce
  note ok = write_loop_ok [OF assms(1) l]
  show ?thesis
    using ok l assms(2,3) by (cases rest) (auto simp: write_rest_def bind_eq_Some_conv dest: signal_frame)
qed

lemma signal_close_frame:
  "signal_close m pd s = Some (pd', s') \<Longrightarrow> pipe_data pd' = pipe_data pd \<and> pipe_ok pd' = pipe_ok pd"
  by (cases "m = O_RDONLY"; cases "m = O_WRONLY")
    (auto simp: signal_close_def O_RDONLY_def O_WRONLY_def bind_eq_Some_conv dest: signal_frame)

lemma pipe_close_ok:
  assumes "pipe_ok pd" "pipe_close g f pd s = Some (Some pd', s')"
  shows "pipe_ok pd' \<and> pipe_data pd' = pipe_data pd"
  using assms by (auto simp: pipe_close_def bind_eq_Some_conv data_frame split: if_splits dest: signal_close_frame)

lemma pipe_write_ok:
  assumes "pipe_ok pd" "pipe_write g (Some vs) (int (length vs)) pd s = Some (r, pd', s')"
  shows "pipe_ok pd' \<and> pipe_data pd' = pipe_data pd @ stored vs r"
  using assms write_rest_ok [OF assms(1), of "int (length vs)" vs s r pd' s'] by (auto simp: pipe_write_def split: if_splits)

lemma pipe_write_resume_ok:
  assumes "pipe_ok pd" "pipe_write_resume n vs pd s = Some (r, pd', s')" "0 \<le> n"
  shows "pipe_ok pd' \<and> pipe_data pd' = pipe_data pd @ stored vs r"
  using assms write_rest_ok [OF assms(1) _ assms(3)] by (auto simp: pipe_write_resume_def split: if_splits)

lemma after_read_ok: "0 < n \<Longrightarrow> pc_ok (after_read g n r)"
  by (cases r) simp_all

lemma after_write_ok: "0 \<le> n \<Longrightarrow> pc_ok (after_write n r)"
  by (cases r) simp_all

lemma after_pipe_read_ok: "pipe_read g b n pd s = Some (r, pd', s') \<Longrightarrow> pc_ok (after_read g (nat n) r)"
  by (cases "0 < n") (auto simp: pipe_read_def after_read_ok)

lemma pipe_inv_pc: "pipe_inv (pd, s, pc, R, W) \<Longrightarrow> pc c = p \<Longrightarrow> pc_ok p"
  by (auto simp: pipe_inv_def)

lemma pipe_inv_data: "pipe_inv (pd, s, pc, R, W) \<Longrightarrow> pipe_ok pd" "pipe_inv (pd, s, pc, R, W) \<Longrightarrow> W = R @ pipe_data pd"
  by (auto simp: pipe_inv_def)

lemma pipe_invI:
  assumes "pipe_inv (pd, s, pc, R, W)" "pipe_ok pd'" "W' = R' @ pipe_data pd'" "pc_ok p"
  shows "pipe_inv (pd', s', pc(c := p), R', W')"
  using assms by (auto simp: pipe_inv_def)

lemma pipe_inv_wait:
  assumes "pipe_inv (pd, s, pc, R, W)" "pc c = p" "pc_ok p \<Longrightarrow> pc_ok p'"
  shows "pipe_inv (pd\<lparr>wait_for_writer := x\<rparr>, s', pc(c := p'), R, W)" "pipe_inv (pd\<lparr>wait_for_reader := x\<rparr>, s', pc(c := p'), R, W)"
  using assms(3) [OF pipe_inv_pc [OF assms(1,2)]] pipe_inv_data [OF assms(1)] by (auto intro!: pipe_invI [OF assms(1)] simp: data_frame)

lemma pipe_step_inv:
  assumes "pipe_step z z'" "pipe_inv z"
  shows "pipe_inv z'"
  using assms
proof (induction rule: pipe_step.induct)
  case (p_read s c pc g b n pd r pd' s' R W)
  note d = pipe_inv_data [OF p_read(4)]
  show ?case
    using pipe_read_ok [OF d(1) p_read(3)] after_pipe_read_ok [OF p_read(3)] d(2) by (intro pipe_invI [OF p_read(4)]) auto
next
  case (p_read_back s c pc g n pd r pd' s' R W)
  note d = pipe_inv_data [OF p_read_back(4)]
  have n: "0 < n" using pipe_inv_pc [OF p_read_back(4,2)] by simp
  show ?case
    using pipe_read_resume_ok [OF d(1) p_read_back(3) n] after_read_ok [OF n] d(2) by (intro pipe_invI [OF p_read_back(4)]) auto
next
  case (p_write s c pc g vs pd r pd' s' R W)
  note d = pipe_inv_data [OF p_write(4)]
  show ?case
    using pipe_write_ok [OF d(1) p_write(3)] after_write_ok d(2) by (intro pipe_invI [OF p_write(4)]) auto
next
  case (p_write_back s c pc n vs pd r pd' s' R W)
  note d = pipe_inv_data [OF p_write_back(4)]
  have n: "0 \<le> n" using pipe_inv_pc [OF p_write_back(4,2)] by simp
  show ?case
    using pipe_write_resume_ok [OF d(1) p_write_back(3) n] after_write_ok [OF n] d(2) by (intro pipe_invI [OF p_write_back(4)]) auto
next
  case (p_close s c pc g f pd pd' s' R W)
  note d = pipe_inv_data [OF p_close(4)]
  show ?case using p_close(4) pipe_close_ok [OF d(1) p_close(3)] by (simp add: pipe_inv_def)
next
  case (p_read_wait s c pc g n pd r x s' R W)
  show ?case by (rule pipe_inv_wait(1) [OF p_read_wait(4,2)]) simp
next
  case (p_read_awake s c pc g n pd r x s' R W)
  show ?case by (rule pipe_inv_wait(1) [OF p_read_awake(4,2)]) simp
next
  case (p_write_wait s c pc n vs pd r x s' R W)
  show ?case by (rule pipe_inv_wait(2) [OF p_write_wait(4,2)]) simp
next
  case (p_write_awake s c pc n vs pd r x s' R W)
  show ?case by (rule pipe_inv_wait(2) [OF p_write_awake(4,2)]) simp
qed (simp add: pipe_inv_def)

lemma pipe_reachable_inv: "pipe_step\<^sup>*\<^sup>* z z' \<Longrightarrow> pipe_inv z \<Longrightarrow> pipe_inv z'"
  by (induction rule: rtranclp_induct) (auto intro: pipe_step_inv)

lemma pipe_read_takes:
  assumes "pipe_ok pd" "pipe_data pd \<noteq> []" "0 < n" "pipe_read g True (int n) pd s = Some (r, pd', s')"
  shows "r = Rd_returns (int (length (take n (pipe_data pd)))) (take n (pipe_data pd)) None"
proof -
  let ?pd = "pd\<lparr>pos_read := (pos_read pd + 1) mod PIPE_SIZE\<rparr>"
  have e: "\<not> pipe_empty pd" using assms(1,2) pipe_empty_iff by blast
  note b = take_byte [OF assms(1) e refl]
  obtain vs pd1 where l: "read_loop g (n - 1) ?pd = (vs, pd1)" by fastforce
  have "r = Rd_returns (int (length (pipe_buf pd (pos_read pd) # vs))) (pipe_buf pd (pos_read pd) # vs) None"
    using assms(3,4) e l by (auto simp: pipe_read_def pipe_read_byte_def read_rest_def read_complete_def bind_eq_Some_conv)
  then show ?thesis using read_loop_ok [OF b(1) l] b(2) assms(3) by (cases n) simp_all
qed

lemma do_pipe_fresh:
  assumes "do_pipe addr buf m0 m1 ops p f = Some (k, Some (fd0, fd1, pd), f')"
  shows "pipe_ok pd \<and> pipe_data pd = []"
  using assms by (auto simp: do_pipe_def bind_eq_Some_conv pipe_ok_def pipe_data_def pipe_count_def PIPE_SIZE_def
      split: if_splits option.splits)

text \<open>
  C11. First in, first out. Whatever calls threads make on a pipe and in whatever order they run,
  wait and wake, the bytes that readers have received followed by those in the buffer are the
  bytes that writers have stored. Never more than \<open>PIPE_SIZE - 1\<close> bytes are in the buffer; the
  tests for an empty and a full pipe are exact; and a read from a pipe that is not empty returns at
  once the next bytes, as many as there are up to the number asked for.
\<close>

theorem pipe_fifo:
  assumes "do_pipe addr buf m0 m1 ops p f = Some (k, Some (fd0, fd1, pd0), f')"
    and "pipe_step\<^sup>*\<^sup>* (pd0, s0, \<lambda>t. P_out, [], []) (pd, s, pc, R, W)"
  shows "W = R @ pipe_data pd \<and> length (pipe_data pd) < PIPE_SIZE \<and> (pipe_empty pd \<longleftrightarrow> R = W) \<and>
    (pipe_full pd \<longleftrightarrow> length W = length R + PIPE_SIZE - 1) \<and>
    (\<forall>g n r pd' s1 s2. 0 < n \<and> R \<noteq> W \<and> pipe_read g True (int n) pd s1 = Some (r, pd', s2) \<longrightarrow>
       r = Rd_returns (int (min n (length W - length R))) (take n (drop (length R) W)) None)"
proof -
  have "pipe_inv (pd0, s0, \<lambda>t. P_out, [], [])" using do_pipe_fresh [OF assms(1)] by (simp add: pipe_inv_def)
  then have "pipe_inv (pd, s, pc, R, W)" using pipe_reachable_inv [OF assms(2)] by blast
  then have ok: "pipe_ok pd" and w: "W = R @ pipe_data pd" by (rule pipe_inv_data)+
  have "r = Rd_returns (int (min n (length W - length R))) (take n (drop (length R) W)) None"
    if "0 < n" "R \<noteq> W" "pipe_read g True (int n) pd s1 = Some (r, pd', s2)" for g n r pd' s1 s2
    using pipe_read_takes [OF ok _ that(1,3)] that(2) w by (simp add: min.commute)
  then show ?thesis using pipe_count_bound [OF ok] pipe_empty_iff [OF ok] pipe_full_iff [OF ok] w by auto
qed

definition ex_files :: "unit vfs" where
  "ex_files = \<lparr>open_fds = [None, None, None], fd_arrays = [[-1, -1, -1]], fs_fat = None, fs_dev = None, drv = (), verrno = None\<rparr>"

definition ex_fops :: "unit file_operations" where
  "ex_fops = \<lparr>op_open = None, op_close = None, op_read = None, op_write = None, op_lseek = None, op_ioctl = None,
    op_readdir = None, op_stat = None, op_mmap = None\<rparr>"

definition ex_pipe :: pipe_desc where
  "ex_pipe = \<lparr>pipe_buf = (\<lambda>_. 0), pgfd0 = 0, pgfd1 = 1, pos_read = 0, pos_write = 0,
    wait_for_writer = init_completion, wait_for_reader = init_completion\<rparr>"

lemma ex_do_pipe: "\<exists>f'. do_pipe 64 (Some (\<lambda>_. 0)) (True, True) (True, True) ex_fops 0 ex_files = Some (0, Some (0, 1, ex_pipe), f')"
  by (simp add: do_pipe_def vfs_open_def ex_files_def first_index.simps vfs_inc_ref_def vfs_is_valid_gfd_def gfd_entry_def
      at_index_def upd_gfd_def proc_register_fd_def proc_new_fd_def set_local_fd_def local_fd_def vfs_get_gfd_def
      vfs_set_access_mode_def vfs_set_priv_def ex_pipe_def)

lemma ex_pipe_run:
  "\<exists>pd s pc. pipe_step\<^sup>*\<^sup>* (ex_pipe, ex_kernel SCHED_POLICY_RR, \<lambda>t. P_out, [], []) (pd, s, pc, [7], [7, 8])"
proof -
  let ?s = "ex_kernel SCHED_POLICY_RR"
  have c: "current_thread ?s = Some 1" by (simp add: ex_kernel_def)
  obtain pd1 where w: "pipe_write 1 (Some [7, 8]) (int (length [7, 8 :: nat])) ex_pipe ?s = Some (Wr_returns 2 None, pd1, ?s)"
    and pd1: "pd1 = ex_pipe\<lparr>pipe_buf := (\<lambda>_. 0)(0 := 7, 1 := 8), pos_write := 2, wait_for_writer := \<lparr>ccount = 1, cwaiters = []\<rparr>\<rparr>"
    by (simp add: pipe_write_def ex_pipe_def otherend_def write_rest_def pipe_write_byte_def pipe_full_def PIPE_SIZE_def
        signal_writer_def complete_def init_completion_def)
  obtain pd2 where r: "pipe_read 0 True 1 pd1 ?s = Some (Rd_returns 1 [7] None, pd2, ?s)"
    by (simp add: pd1 pipe_read_def ex_pipe_def otherend_def read_rest_def pipe_read_byte_def pipe_empty_def PIPE_SIZE_def
        read_complete_def signal_reader_def complete_def init_completion_def)
  have "pipe_step (ex_pipe, ?s, \<lambda>t. P_out, [], []) (pd1, ?s, (\<lambda>t. P_out)(1 := P_out), [], [7, 8])"
    using pipe_step.p_write [OF c _ w, of "\<lambda>t. P_out" "[]" "[]"] by simp
  moreover have "pipe_step (pd1, ?s, (\<lambda>t. P_out)(1 := P_out), [], [7, 8]) (pd2, ?s, (\<lambda>t. P_out)(1 := P_out, 1 := P_out), [7], [7, 8])"
    using pipe_step.p_read [OF c _ r, of "(\<lambda>t. P_out)(1 := P_out)" "[]" "[7, 8]"] by simp
  ultimately show ?thesis by (meson r_into_rtranclp rtranclp.rtrancl_into_rtrancl)
qed

theorem pipe_fifo_witness:
  "\<exists>f' pd s pc. do_pipe 64 (Some (\<lambda>_. 0)) (True, True) (True, True) ex_fops 0 ex_files = Some (0, Some (0, 1, ex_pipe), f') \<and>
    pipe_step\<^sup>*\<^sup>* (ex_pipe, ex_kernel SCHED_POLICY_RR, \<lambda>t. P_out, [], []) (pd, s, pc, [7], [7, 8]) \<and> pipe_data pd = [8]"
proof -
  obtain f' where f: "do_pipe 64 (Some (\<lambda>_. 0)) (True, True) (True, True) ex_fops 0 ex_files = Some (0, Some (0, 1, ex_pipe), f')"
    using ex_do_pipe by blast
  obtain pd s pc where r: "pipe_step\<^sup>*\<^sup>* (ex_pipe, ex_kernel SCHED_POLICY_RR, \<lambda>t. P_out, [], []) (pd, s, pc, [7], [7, 8])"
    using ex_pipe_run by blast
  show ?thesis using pipe_fifo [OF f r] f r by auto
qed

lemma write_loop_overflow:
  assumes "pipe_ok pd" "pipe_data pd = []" "PIPE_SIZE \<le> length vs"
  shows "\<exists>pd'. write_loop vs pd = (drop (PIPE_SIZE - 1) vs, pd') \<and> pipe_full pd' \<and> pipe_data pd' = take (PIPE_SIZE - 1) vs \<and>
    wait_for_writer pd' = wait_for_writer pd \<and> wait_for_reader pd' = wait_for_reader pd"
proof -
  obtain rest pd' where l: "write_loop vs pd = (rest, pd')" by fastforce
  then obtain ws where w: "pipe_ok pd'" "vs = ws @ rest" "pipe_data pd' = ws" "rest \<noteq> [] \<longrightarrow> pipe_full pd'"
    "wait_for_writer pd' = wait_for_writer pd" "wait_for_reader pd' = wait_for_reader pd"
    using write_loop_ok [OF assms(1) l] assms(2) by auto
  have n: "length ws = pipe_count pd'" using w(3) length_pipe_data by metis
  have "rest \<noteq> []" using n pipe_count_bound [OF w(1)] w(2) assms(3) by auto
  then have f: "pipe_full pd'" using w(4) by blast
  then have "length ws = PIPE_SIZE - 1" using pipe_full_iff [OF w(1)] n by simp
  then show ?thesis using l w f by simp
qed

text \<open>
  C37. A write of \<open>PIPE_SIZE\<close> bytes or more to an empty pipe, by a thread outside interrupt context
  and with interrupts enabled, does not complete when the readers wait for data. The writer fills the buffer and stops without having signalled \<open>wait_for_writer\<close>. If
  no read has ended since the last wait, the writer goes to sleep as well, and all the readers still
  sleep with the buffer full. Otherwise the signal left from that read lets the writer pass, which
  then finds the pipe full and returns an error, although the other end is open, and the bytes
  stored so far stay in the pipe.
\<close>

theorem pipe_large_write_stalls:
  assumes "sched_inv s" "current_thread s = Some c" "not_idle s c" "\<not> in_interrupt s \<and> irqs_on s c"
    and "pipe_ok pd" "pipe_empty pd" "PIPE_SIZE \<le> length vs"
  shows "\<exists>pd1 rest. pipe_write g (Some vs) (int (length vs)) pd s = Some (Wr_waits rest, pd1, s) \<and>
    pipe_full pd1 \<and> pipe_data pd1 @ rest = vs \<and> wait_for_writer pd1 = wait_for_writer pd \<and>
    (ccount (wait_for_reader pd) = 0 \<longrightarrow>
      (\<exists>x s1. wait_for_completion (wait_for_reader pd1) s = Some (Suspended, x, s1) \<and> sleeping s1 = insert c (sleeping s))) \<and>
    (0 < ccount (wait_for_reader pd) \<longrightarrow>
      (\<exists>x. wait_for_completion (wait_for_reader pd1) s = Some (Passed, x, s) \<and>
        pipe_write_resume (int (length vs)) rest (pd1\<lparr>wait_for_reader := x\<rparr>) s =
          Some (Wr_returns (-1) (Some EPIPE), pd1\<lparr>wait_for_reader := x\<rparr>, s)))"
proof -
  have "pipe_data pd = []" using assms(5,6) pipe_empty_iff by blast
  then obtain pd1 where l: "write_loop vs pd = (drop (PIPE_SIZE - 1) vs, pd1)" "pipe_full pd1" "pipe_data pd1 = take (PIPE_SIZE - 1) vs"
    "wait_for_writer pd1 = wait_for_writer pd" "wait_for_reader pd1 = wait_for_reader pd"
    using write_loop_overflow [OF assms(5) _ assms(7)] by blast
  have "\<not> pipe_full pd"
    using assms(5,6) by (auto simp: pipe_empty_def pipe_full_def pipe_ok_def ring_next PIPE_SIZE_def split: if_splits)
  moreover have "drop (PIPE_SIZE - 1) vs \<noteq> []" "vs \<noteq> []" using assms(7) by (auto simp: PIPE_SIZE_def)
  ultimately have w: "pipe_write g (Some vs) (int (length vs)) pd s = Some (Wr_waits (drop (PIPE_SIZE - 1) vs), pd1, s)"
    using l(1) by (simp add: pipe_write_def write_rest_def split: list.split)
  let ?x = "wait_for_reader pd"
  have "\<exists>x s1. wait_for_completion ?x s = Some (Suspended, x, s1) \<and> sleeping s1 = insert c (sleeping s)" if "ccount ?x = 0"
    using wait_suspends [OF assms(1-3)] that assms(4) by blast
  moreover have "wait_for_completion ?x s = Some (Passed, ?x\<lparr>ccount := ccount ?x - 1\<rparr>, s)" if "0 < ccount ?x"
    using wait_passes [OF that assms(2)] assms(4) by simp
  moreover have "pipe_write_resume n rest (pd1\<lparr>wait_for_reader := x\<rparr>) s =
      Some (Wr_returns (-1) (Some EPIPE), pd1\<lparr>wait_for_reader := x\<rparr>, s)" for n rest x
    using l(2) by (simp add: pipe_write_resume_def pipe_full_def)
  ultimately show ?thesis using w l(2-5) by (intro exI [of _ pd1] exI [of _ "drop (PIPE_SIZE - 1) vs"]) simp
qed

theorem pipe_large_write_stalls_witness:
  "\<exists>pd1 rest x s1. pipe_write 1 (Some (replicate 5000 7)) 5000 ex_pipe (ex_kernel SCHED_POLICY_RR) =
      Some (Wr_waits rest, pd1, ex_kernel SCHED_POLICY_RR) \<and> pipe_full pd1 \<and>
    wait_for_completion (wait_for_reader pd1) (ex_kernel SCHED_POLICY_RR) = Some (Suspended, x, s1) \<and> 1 \<in> sleeping s1"
  using pipe_large_write_stalls [OF ex_kernel_inv, of SCHED_POLICY_RR 1 ex_pipe "replicate 5000 7" 1]
  by (auto simp: ex_kernel_def not_idle_def ex_pipe_def pipe_ok_def pipe_empty_def PIPE_SIZE_def init_completion_def)

end
