(* ===== verification/So3_List_Sort.thy ===== *)
theory So3_List_Sort
  imports So3_Prelude "HOL-Library.Multiset"
begin

section \<open>Sorting of lists\<close>

text \<open>
  Model of \<open>so3/lib/list_sort.c\<close>. A null-terminated singly linked list is a HOL list, the pending
  sublists, which the code chains through their \<open>prev\<close> pointers, are a list of lists with the
  newest first. Following a null pointer, which the functions exclude by their \<open>nonnull\<close>
  attributes, is \<open>None\<close>. The comparison function is an argument; the calls of it that only give
  the caller an opportunity to reschedule do not change the list. A list has fewer nodes than
  there are addresses, so the counter of type \<open>size_t\<close> does not wrap.

  A circular doubly linked list is the sequence of its nodes along the \<open>next\<close> pointers and the list
  of the \<open>prev\<close> pointers, pairs of a node and its predecessor; \<open>None\<close> stands for the head.
\<close>

subsection \<open>The functions\<close>

type_synonym 'a cmp_func = "'a \<Rightarrow> 'a \<Rightarrow> int"

fun merge :: "'a cmp_func \<Rightarrow> 'a list \<Rightarrow> 'a list \<Rightarrow> 'a list option" where
  "merge cmp (x # a) (y # b) =
     (if cmp x y \<le> 0
      then (if a = [] then Some (x # y # b) else do { r \<leftarrow> merge cmp a (y # b); Some (x # r) })
      else (if b = [] then Some (y # x # a) else do { r \<leftarrow> merge cmp (x # a) b; Some (y # r) }))"
| "merge cmp _ _ = None"

type_synonym 'a prevs = "('a option \<times> 'a option) list"

text \<open>The last node of the list from \<open>head\<close> to \<open>tail\<close>.\<close>

definition tail_of :: "'a list \<Rightarrow> 'a option" where
  "tail_of h = (if h = [] then None else Some (last h))"

text \<open>The loop over the remainder, and the \<open>prev\<close> pointer of the head.\<close>

fun finish_prev :: "'a list \<Rightarrow> 'a prevs \<Rightarrow> 'a list \<Rightarrow> 'a list \<times> 'a prevs" where
  "finish_prev h pv [] = (h, pv @ [(None, tail_of h)])"
| "finish_prev h pv (y # b) = finish_prev (h @ [y]) (pv @ [(Some y, tail_of h)]) b"

text \<open>
  The last merge appends to the list from \<open>head\<close> to \<open>tail\<close>, whose \<open>prev\<close> pointers \<open>pv\<close> are already
  written, and then the remainder.
\<close>

fun merge_final :: "'a cmp_func \<Rightarrow> 'a list \<Rightarrow> 'a prevs \<Rightarrow> 'a list \<Rightarrow> 'a list \<Rightarrow> ('a list \<times> 'a prevs) option" where
  "merge_final cmp h pv (x # a) (y # b) =
     (if cmp x y \<le> 0
      then (if a = [] then Some (finish_prev (h @ [x]) (pv @ [(Some x, tail_of h)]) (y # b))
            else merge_final cmp (h @ [x]) (pv @ [(Some x, tail_of h)]) a (y # b))
      else (if b = [] then Some (finish_prev (h @ [y]) (pv @ [(Some y, tail_of h)]) (x # a))
            else merge_final cmp (h @ [y]) (pv @ [(Some y, tail_of h)]) (x # a) b))"
| "merge_final cmp h pv _ _ = None"

text \<open>
  One round on the pending sublists: \<open>tail\<close> moves over as many sublists as the counter has low
  one bits, and the next two sublists are merged unless the rest of the counter is zero.
\<close>

fun merge_pending :: "'a cmp_func \<Rightarrow> nat \<Rightarrow> 'a list list \<Rightarrow> 'a list list option" where
  "merge_pending cmp bits ps =
     (if bits mod 2 = 1 then (case ps of p # ps' \<Rightarrow> do { r \<leftarrow> merge_pending cmp (bits div 2) ps'; Some (p # r) } | [] \<Rightarrow> None)
      else if bits \<noteq> 0 then (case ps of a # b # ps' \<Rightarrow> do { r \<leftarrow> merge cmp b a; Some (r # ps') } | _ \<Rightarrow> None)
      else Some ps)"

declare merge_pending.simps [simp del]

fun sort_rounds :: "'a cmp_func \<Rightarrow> nat \<Rightarrow> 'a list list \<Rightarrow> 'a list \<Rightarrow> 'a list list option" where
  "sort_rounds cmp n ps [] = Some ps"
| "sort_rounds cmp n ps (x # xs) =
     do { ps' \<leftarrow> merge_pending cmp n ps; sort_rounds cmp (n + 1) ([x] # ps') xs }"

text \<open>The merges at the end of the input, up to the last one.\<close>

fun merge_all :: "'a cmp_func \<Rightarrow> 'a list \<Rightarrow> 'a list list \<Rightarrow> ('a list \<times> 'a list) option" where
  "merge_all cmp l (p # q # ps) = do { r \<leftarrow> merge cmp p l; merge_all cmp r (q # ps) }"
| "merge_all cmp l [p] = Some (p, l)"
| "merge_all cmp l [] = None"

text \<open>The argument is the list with its \<open>prev\<close> pointers, which only matter when nothing is done.\<close>

definition list_sort :: "'a cmp_func \<Rightarrow> 'a list \<times> 'a prevs \<Rightarrow> ('a list \<times> 'a prevs) option" where
  "list_sort cmp = (\<lambda>(xs, pv).
     (if length xs \<le> 1 then Some (xs, pv)
      else do {
        ps \<leftarrow> sort_rounds cmp 0 [] xs;
        case ps of
          [] \<Rightarrow> None
        | l # ps' \<Rightarrow> do { (p, r) \<leftarrow> merge_all cmp l ps'; merge_final cmp [] [] p r }
      }))"

subsection \<open>Merging\<close>

text \<open>The order of a comparison function, and the contract of a stable sort.\<close>

definition cmp_order :: "'a cmp_func \<Rightarrow> bool" where
  "cmp_order cmp \<longleftrightarrow> (\<forall>x y z. cmp x y \<le> 0 \<longrightarrow> cmp y z \<le> 0 \<longrightarrow> cmp x z \<le> 0) \<and> (\<forall>x y. cmp x y \<le> 0 \<or> cmp y x \<le> 0)"

definition same_rank :: "'a cmp_func \<Rightarrow> 'a \<Rightarrow> 'a \<Rightarrow> bool" where
  "same_rank cmp x y \<longleftrightarrow> cmp x y \<le> 0 \<and> cmp y x \<le> 0"

definition stable_sorted :: "'a cmp_func \<Rightarrow> 'a list \<Rightarrow> 'a list \<Rightarrow> bool" where
  "stable_sorted cmp xs ys \<longleftrightarrow> sorted_wrt (\<lambda>x y. cmp x y \<le> 0) ys \<and> mset ys = mset xs \<and>
     (\<forall>z. filter (same_rank cmp z) ys = filter (same_rank cmp z) xs)"

text \<open>The \<open>prev\<close> pointers of a list whose first predecessor is \<open>p\<close>.\<close>

fun prev_links :: "'a option \<Rightarrow> 'a list \<Rightarrow> 'a prevs" where
  "prev_links p [] = [(None, p)]"
| "prev_links p (x # xs) = (Some x, p) # prev_links (Some x) xs"

lemma tail_of_snoc [simp]: "tail_of (h @ [x]) = Some x"
  by (simp add: tail_of_def)

lemma finish_prev_eq: "finish_prev h pv b = (h @ b, pv @ prev_links (tail_of h) b)"
  by (induction h pv b rule: finish_prev.induct) simp_all

lemma merge_final_merge:
  "merge_final cmp h pv a b = map_option (\<lambda>r. (h @ r, pv @ prev_links (tail_of h) r)) (merge cmp a b)"
  by (induction cmp h pv a b rule: merge_final.induct)
    (auto simp: finish_prev_eq option.map_comp comp_def Option.map_conv_bind_option)

lemma merge_returns:
  assumes "a \<noteq> []" "b \<noteq> []"
  shows "\<exists>r. merge cmp a b = Some r \<and> mset r = mset a + mset b"
  using assms by (induction cmp a b rule: merge.induct) auto

lemma no_rank_filter:
  assumes "cmp_order cmp" "same_rank cmp z y" "\<not> cmp x y \<le> 0" "sorted_wrt (\<lambda>x y. cmp x y \<le> 0) (x # a)"
  shows "filter (same_rank cmp z) (x # a) = []"
proof -
  have "\<not> same_rank cmp z w" if "w \<in> set (x # a)" for w
  proof -
    have "cmp x x \<le> 0" using assms(1) unfolding cmp_order_def by blast
    then have "cmp x w \<le> 0" using that assms(4) by auto
    then show ?thesis using assms(1-3) unfolding cmp_order_def same_rank_def by blast
  qed
  then show ?thesis by (simp add: filter_empty_conv)
qed

lemma merge_sorted:
  assumes "cmp_order cmp" "sorted_wrt (\<lambda>x y. cmp x y \<le> 0) a" "sorted_wrt (\<lambda>x y. cmp x y \<le> 0) b" "merge cmp a b = Some r"
  shows "sorted_wrt (\<lambda>x y. cmp x y \<le> 0) r \<and> (\<forall>z. filter (same_rank cmp z) r = filter (same_rank cmp z) (a @ b))"
  using assms
proof (induction cmp a b arbitrary: r rule: merge.induct)
  case (1 cmp x a y b)
  note tr = 1(3) [unfolded cmp_order_def]
  show ?case
  proof (cases "cmp x y \<le> 0")
    case le: True
    obtain r' where r: "r = x # r'" and r': "(a = [] \<and> r' = y # b) \<or> (a \<noteq> [] \<and> merge cmp a (y # b) = Some r')"
      using 1(6) le by (auto simp: bind_eq_Some_conv split: if_splits)
    have s: "sorted_wrt (\<lambda>x y. cmp x y \<le> 0) r'" "filter (same_rank cmp z) r' = filter (same_rank cmp z) (a @ y # b)" for z
      using r' 1(1) [OF le _ 1(3)] 1(4,5) by auto
    have "set r' = set a \<union> set (y # b)" using r' merge_returns [of a "y # b" cmp] mset_eq_setD [of r' "a @ y # b"] by auto
    moreover have "cmp x w \<le> 0" if "w \<in> set (y # b)" for w using that le 1(5) tr by auto
    ultimately have "\<forall>w \<in> set r'. cmp x w \<le> 0" using 1(4) by auto
    then show ?thesis using s unfolding r by simp
  next
    case nle: False
    obtain r' where r: "r = y # r'" and r': "(b = [] \<and> r' = x # a) \<or> (b \<noteq> [] \<and> merge cmp (x # a) b = Some r')"
      using 1(6) nle by (auto simp: bind_eq_Some_conv split: if_splits)
    have s: "sorted_wrt (\<lambda>x y. cmp x y \<le> 0) r'" "filter (same_rank cmp z) r' = filter (same_rank cmp z) ((x # a) @ b)" for z
      using r' 1(2) [OF nle _ 1(3)] 1(4,5) by auto
    have "set r' = set (x # a) \<union> set b" using r' merge_returns [of "x # a" b cmp] mset_eq_setD [of r' "(x # a) @ b"] by auto
    moreover have "cmp y x \<le> 0" using nle tr by blast
    then have "cmp y w \<le> 0" if "w \<in> set (x # a)" for w using that 1(4) tr by auto
    ultimately have "\<forall>w \<in> set r'. cmp y w \<le> 0" using 1(5) by auto
    moreover have "filter (same_rank cmp z) (y # r') = filter (same_rank cmp z) ((x # a) @ y # b)" for z
      using s(2) [of z] no_rank_filter [OF 1(3) _ nle 1(4), of z] by (cases "same_rank cmp z y") auto
    ultimately show ?thesis using s(1) unfolding r by simp
  qed
qed simp_all

text \<open>The merge of two stably sorted pieces of the input, the older one first.\<close>

lemma merge_stable:
  assumes "cmp_order cmp" "stable_sorted cmp xs a" "stable_sorted cmp ys b" "a \<noteq> []" "b \<noteq> []"
  shows "\<exists>r. merge cmp a b = Some r \<and> stable_sorted cmp (xs @ ys) r \<and> r \<noteq> []"
proof -
  obtain r where r: "merge cmp a b = Some r" "mset r = mset a + mset b" using merge_returns [OF assms(4,5)] by blast
  then have "stable_sorted cmp (xs @ ys) r"
    using merge_sorted [OF assms(1) _ _ r(1)] assms(2,3) by (simp add: stable_sorted_def)
  then show ?thesis using r assms(4) by auto
qed

subsection \<open>The pending sublists\<close>

text \<open>
  The sublists are stable sorts of consecutive pieces of the input; their number is the number
  of binary digits of the counter.
\<close>

fun digits :: "nat \<Rightarrow> nat" where
  "digits n = (if n = 0 then 0 else digits (n div 2) + 1)"

declare digits.simps [simp del]

fun pieces :: "'a cmp_func \<Rightarrow> 'a list \<Rightarrow> 'a list list \<Rightarrow> bool" where
  "pieces cmp xs [] \<longleftrightarrow> xs = []"
| "pieces cmp xs (p # ps) \<longleftrightarrow> (\<exists>us vs. xs = us @ vs \<and> pieces cmp us ps \<and> stable_sorted cmp vs p \<and> p \<noteq> [])"

lemma digits_pos: "0 < n \<Longrightarrow> \<exists>k. digits n = Suc k"
  by (subst digits.simps) simp

lemma digits_Suc_odd: "n mod 2 = 1 \<Longrightarrow> digits (Suc n) = Suc (digits (Suc (n div 2)))"
  by (subst digits.simps) (simp add: div_Suc mod_Suc split: if_splits)

lemma digits_Suc_even: "n mod 2 = 0 \<Longrightarrow> n \<noteq> 0 \<Longrightarrow> digits (Suc n) = digits n"
  by (subst (1 2) digits.simps) (simp add: div_Suc mod_Suc)

lemma merge_pending_ok:
  assumes "cmp_order cmp" "pieces cmp xs ps" "length ps = digits c"
  shows "\<exists>ps'. merge_pending cmp c ps = Some ps' \<and> pieces cmp xs ps' \<and> Suc (length ps') = digits (Suc c)"
  using assms
proof (induction c arbitrary: xs ps rule: less_induct)
  case (less c)
  consider (odd) "c mod 2 = 1" | (even) "c mod 2 = 0" "c \<noteq> 0" | (zero) "c = 0" by (cases "c mod 2 = 1") auto
  then show ?case
  proof cases
    case odd
    then have c: "digits c = Suc (digits (c div 2))" "c div 2 < c" by (auto simp: digits.simps [of c] intro: Nat.gr0I)
    then obtain p ps1 where ps: "ps = p # ps1" "length ps1 = digits (c div 2)" using less.prems(3) by (cases ps) auto
    obtain us vs where u: "xs = us @ vs" "pieces cmp us ps1" "stable_sorted cmp vs p" "p \<noteq> []"
      using less.prems(2) ps(1) by auto
    obtain q where "merge_pending cmp (c div 2) ps1 = Some q" "pieces cmp us q" "Suc (length q) = digits (Suc (c div 2))"
      using less.IH [OF c(2) less.prems(1) u(2) ps(2)] by blast
    then show ?thesis using odd ps(1) u digits_Suc_odd [OF odd] by (subst merge_pending.simps) auto
  next
    case even
    then have "0 < c div 2" by (cases "c = 1") auto
    then obtain k where k: "digits (c div 2) = Suc k" using digits_pos by blast
    then have "length ps = Suc (Suc k)" using less.prems(3) even by (simp add: digits.simps [of c])
    then obtain a b ps1 where ps: "ps = a # b # ps1" by (cases ps; cases "tl ps") auto
    obtain us vs ws where u: "xs = (us @ ws) @ vs" "pieces cmp us ps1" "stable_sorted cmp ws b" "b \<noteq> []"
      "stable_sorted cmp vs a" "a \<noteq> []" using less.prems(2) ps by auto
    obtain r where "merge cmp b a = Some r" "stable_sorted cmp (ws @ vs) r" "r \<noteq> []"
      using merge_stable [OF less.prems(1) u(3,5,4,6)] by blast
    then show ?thesis using even ps u(1,2) digits_Suc_even [OF even] less.prems(3) by (subst merge_pending.simps) auto
  next
    case zero
    then show ?thesis using less.prems by (subst merge_pending.simps) (simp add: digits.simps)
  qed
qed

lemma stable_single: "cmp_order cmp \<Longrightarrow> stable_sorted cmp [x] [x]"
  by (simp add: stable_sorted_def)

lemma sort_rounds_ok:
  assumes "cmp_order cmp" "pieces cmp us ps" "length ps = digits c"
  shows "\<exists>ps'. sort_rounds cmp c ps xs = Some ps' \<and> pieces cmp (us @ xs) ps' \<and> length ps' = digits (c + length xs)"
  using assms(2,3)
proof (induction xs arbitrary: us ps c)
  case (Cons x xs)
  obtain q where q: "merge_pending cmp c ps = Some q" "pieces cmp us q" "Suc (length q) = digits (Suc c)"
    using merge_pending_ok [OF assms(1) Cons.prems] by blast
  have "pieces cmp (us @ [x]) ([x] # q)" using q(2) stable_single [OF assms(1)] by auto
  then show ?case using Cons.IH [of "us @ [x]" "[x] # q" "c + 1"] q by auto
qed simp

lemma merge_all_ok:
  assumes "cmp_order cmp" "pieces cmp us ps" "ps \<noteq> []" "stable_sorted cmp vs l" "l \<noteq> []"
  shows "\<exists>p r xs ys. merge_all cmp l ps = Some (p, r) \<and> us @ vs = xs @ ys \<and> stable_sorted cmp xs p \<and> p \<noteq> [] \<and>
    stable_sorted cmp ys r \<and> r \<noteq> []"
  using assms
proof (induction cmp l ps arbitrary: us vs rule: merge_all.induct)
  case (1 cmp l p q ps)
  obtain us1 us2 where u: "us = us1 @ us2" "pieces cmp us1 (q # ps)" "stable_sorted cmp us2 p" "p \<noteq> []"
    using 1(3) by auto
  obtain r where r: "merge cmp p l = Some r" "stable_sorted cmp (us2 @ vs) r" "r \<noteq> []"
    using merge_stable [OF 1(2) u(3) 1(5) u(4) 1(6)] by blast
  show ?case using 1(1) [OF r(1) 1(2) u(2) _ r(2,3)] r(1) u(1) by simp
next
  case (2 cmp l p)
  then show ?case by auto
qed simp

lemma list_sort_short: "length xs \<le> 1 \<Longrightarrow> stable_sorted cmp xs xs"
  by (cases xs) (auto simp: stable_sorted_def)

text \<open>
  C12. For every comparison function whose order is a total preorder, \<open>list_sort\<close> never follows a
  null pointer and returns the elements of the list in ascending order, elements of equal rank
  in the order in which they were in the list. From a circular doubly linked list it makes one
  again: the predecessor of each element is the one before it, that of the first one is the head,
  and that of the head is the last one.
\<close>

theorem list_sort_stable:
  assumes "cmp_order cmp"
  shows "\<exists>ys. list_sort cmp (xs, prev_links None xs) = Some (ys, prev_links None ys) \<and> sorted_wrt (\<lambda>x y. cmp x y \<le> 0) ys \<and> mset ys = mset xs \<and>
    (\<forall>z. filter (same_rank cmp z) ys = filter (same_rank cmp z) xs)"
proof (cases "length xs \<le> 1")
  case True
  then show ?thesis using list_sort_short [OF True, of cmp] by (simp add: list_sort_def stable_sorted_def)
next
  case False
  obtain ps where ps: "sort_rounds cmp 0 [] xs = Some ps" "pieces cmp xs ps" "length ps = digits (length xs)"
    using sort_rounds_ok [OF assms, of "[]" "[]" 0 xs] by (auto simp: digits.simps)
  obtain k where "digits (length xs div 2) = Suc k" using digits_pos [of "length xs div 2"] False by auto
  then have "length ps = Suc (Suc k)" using ps(3) False by (subst (asm) digits.simps) auto
  then obtain l ps' where l: "ps = l # ps'" "ps' \<noteq> []" by (cases ps; cases "tl ps") auto
  then obtain us vs where u: "xs = us @ vs" "pieces cmp us ps'" "stable_sorted cmp vs l" "l \<noteq> []" using ps(2) by auto
  obtain p r xs' ys' where m: "merge_all cmp l ps' = Some (p, r)" "xs = xs' @ ys'" "stable_sorted cmp xs' p" "p \<noteq> []"
    "stable_sorted cmp ys' r" "r \<noteq> []" using merge_all_ok [OF assms u(2) l(2) u(3,4)] u(1) by blast
  obtain q where "merge cmp p r = Some q" "stable_sorted cmp xs q"
    using merge_stable [OF assms m(3,5,4,6)] m(2) by blast
  then show ?thesis using False ps(1) l(1) m(1) by (simp add: list_sort_def merge_final_merge stable_sorted_def tail_of_def)
qed

definition ex_cmp :: "(nat \<times> nat) cmp_func" where
  "ex_cmp x y = int (fst x) - int (fst y)"

theorem list_sort_stable_witness:
  "cmp_order ex_cmp \<and>
   (\<exists>pv. list_sort ex_cmp ([(3, 0), (1, 0), (3, 1), (2, 0)], prev_links None [(3, 0), (1, 0), (3, 1), (2, 0)]) =
     Some ([(1, 0), (2, 0), (3, 0), (3, 1)], pv) \<and> pv = prev_links None [(1, 0), (2, 0), (3, 0), (3, 1)])"
proof -
  have o: "cmp_order ex_cmp" by (auto simp: cmp_order_def ex_cmp_def)
  let ?xs = "[(3, 0), (1, 0), (3, 1), (2, 0)] :: (nat \<times> nat) list"
  obtain pv where "list_sort ex_cmp (?xs, prev_links None ?xs) = Some ([(1, 0), (2, 0), (3, 0), (3, 1)], pv)"
    by (simp add: list_sort_def merge_pending.simps ex_cmp_def)
  then show ?thesis using o list_sort_stable [OF o, of ?xs] by auto
qed

end
