(* ===== verification/Spec2Isabelle.thy ===== *)
theory Spec2Isabelle
  imports So3_Prelude So3_Interfaces So3_Heap_Proofs So3_Frames So3_Sched_Proofs So3_Ipc So3_Bitmap So3_Timer So3_Evtchn So3_Gnttab So3_Pipe So3_List_Sort
begin

text \<open>
  \<^bold>\<open>A verification development for SO3.\<close>

  SO3 (\<open>src/so3\<close>) is a small operating system for ARM processors. Its kernel has a heap and a page
  frame allocator, a scheduler with threads and processes, mutexes, completions and semaphores,
  timers and softirqs, a virtual file system with pipes, and drivers. The same tree holds AVZ
  (\<open>src/so3/avz\<close>), a hypervisor whose domains communicate through event channels and granted pages.

  \<^bold>\<open>How the parts interact.\<close> The heap serves the queue entries of the scheduler and the tables of
  the file system. The blocking objects (mutexes, completions, semaphores) put the current thread
  to sleep with \<open>waiting\<close>, wake others with \<open>ready\<close> or \<open>wake_up\<close> and rely on \<open>schedule\<close>. Pipes are
  built from completions and file descriptors. The timer softirq calls the callbacks of timers and
  programs the oneshot device; the clock gives them the time.

  \<^bold>\<open>Conventions.\<close> A C function is a HOL function of the same name on the explicit state of its
  component, a record. It yields an \<open>option\<close>: \<open>None\<close> means that the call does not come back (failed
  \<open>ASSERT\<close> or \<open>BUG_ON\<close>, panic, access through a null pointer or outside an array, undefined shift,
  endless loop), and errors that are reported to the caller are values. Loops over pointers that
  might not end are \<open>partial_function\<close>s into \<open>option\<close>, so that termination is proved where a theorem
  says that a call returns, and no fuel is needed; all other loops are total functions.
  Pointers are natural numbers into a store, or names of objects where the code never computes with
  them. Machine integers are natural numbers with the wrap-around written out, or words. A function
  that sleeps, or that releases its lock in the middle, is cut there, and a step relation interleaves
  the parts of all threads (or processors). What a lock protects is one step; locks appear in the
  state only where a theorem depends on them. Code behind an interface that the component does not
  own (drivers, callbacks of timers, comparison functions, the clock) is an argument.

  \<^bold>\<open>Interfaces.\<close> \<open>So3_Interfaces\<close> has the contracts as locales: \<open>area_allocator\<close>, interpreted on
  \<open>malloc\<close> and \<open>free\<close>; \<open>slot_pool\<close>, interpreted on \<open>get_free_page\<close> and \<open>free_page\<close>; and
  \<open>thread_blocking\<close>, interpreted on \<open>waiting\<close> and \<open>ready\<close> of the scheduler, on which the proofs about
  mutexes, completions, semaphores and pipes rest. \<open>So3_Prelude\<close> holds types, collections of facts
  and generic lemmas, \<open>So3_Tables\<close> the search loops in fixed tables.

  \<^bold>\<open>Kernel heap\<close> (\<open>mm/heap.c\<close>). \<open>So3_Heap\<close> is the allocator on its two-dimensional list of free chunks
  in a store of chunk headers. \<open>So3_Heap_List\<close> shows that removal and insertion act on the list of
  size classes, \<open>So3_Heap_Tiling\<close> that the heap is tiled by free and allocated blocks and how each
  operation changes the tiling, \<open>So3_Heap_Proofs\<close> the properties for clients: areas are disjoint,
  aligned and inside the heap, no call hangs or panics in a reachable heap, everything freed is
  merged again, a double free is detected. The heap lies below \<open>2 ^ 64 - 2 ^ 32\<close>; the bytes of the
  areas are not part of the store, but clients may write them between the calls.

  \<^bold>\<open>Page frames and I/O mappings\<close> (\<open>mm/memory.c\<close>). \<open>So3_Frames\<close>: the frame table with its circular
  search and its first-fit search, its initialisation, and the sorted list of I/O mappings, with 64-bit
  addresses and 32-bit page counts. Pages are never held twice, contiguous requests are first fit,
  the initial table excludes kernel and frame table for memories of at most \<open>2 ^ 41 - 2 ^ 21\<close> bytes,
  I/O mappings do not overlap as long as the requests fit into the address space. The creation of a
  mapping in the page tables of the hardware is recorded, not modelled.

  \<^bold>\<open>Scheduler\<close> (\<open>kernel/schedule.c\<close>, control blocks of \<open>thread.h\<close> and \<open>process.h\<close>). \<open>So3_Sched\<close> has the
  queues, the three policies, \<open>schedule\<close>, \<open>waiting\<close>, \<open>zombie\<close> and \<open>wake_up\<close>; the context switch is
  the change of the current thread, with the interrupt mask of each thread. \<open>So3_Sched_Proofs\<close>: the
  queues always agree with the states of the threads, a step returns and leaves one thread running,
  round robin has a bounded wait, priorities are respected.

  \<^bold>\<open>Blocking\<close> (\<open>kernel/mutex.c\<close>, \<open>ipc/completion.c\<close>, \<open>ipc/semaphore.c\<close>). \<open>So3_Mutex\<close> proves for all
  interleavings mutual exclusion, that no wake-up is lost and that no \<open>BUG_ON\<close> is hit, the test of
  the interrupt mask included. \<open>So3_Ipc\<close> proves the hand-over of completions and the conservation of
  the tokens of a semaphore, and two defects: \<open>complete_all\<close> strands its waiters, and a semaphore
  loses a wake-up between the release of its mutex and \<open>waiting\<close>.

  \<^bold>\<open>Timers, softirqs and clock\<close> (\<open>kernel/timer.c\<close>, \<open>kernel/softirq.c\<close>, \<open>devices/timer.c\<close>). \<open>So3_Timer\<close>: the
  linked list of timers implements a map to deadlines, the softirq runs exactly the expired timers
  and programs the device for the earliest other one, the clock is monotone, the conversion factors
  are exact and do not overflow. One processor; callbacks that leave the timer list alone; times below
  \<open>2 ^ 63\<close> nanoseconds.

  \<^bold>\<open>Bitmaps\<close> (\<open>kernel/bitmap.c\<close>, \<open>arch/arm64/lib/findbit.c\<close>). \<open>So3_Bitmap\<close>: the word-wise operations,
  tests and searches equal their definitions on single bits; regions can be taken and released for
  the orders that fit in a word; shifts by the word size are undefined, and exactly then the model
  has no result.

  \<^bold>\<open>File descriptors and pipes\<close> (\<open>fs/vfs.c\<close>, parts of \<open>kernel/process.c\<close>, \<open>ipc/pipe.c\<close>). \<open>So3_Vfs\<close>: the
  global and the local tables agree and the reference counts are exact, under every call but two that
  are named and shown to break this, an \<open>open\<close> that the driver refuses and a \<open>dup2\<close> onto a sharing
  descriptor. \<open>So3_Pipe\<close>: a pipe delivers the bytes in order under all interleavings of readers and
  writers; a write of the size of the buffer or more stalls.

  \<^bold>\<open>Sorting\<close> (\<open>lib/list_sort.c\<close>). \<open>So3_List_Sort\<close>: \<open>list_sort\<close> is a stable sort and rebuilds the doubly
  linked list.

  \<^bold>\<open>Hypervisor\<close> (\<open>avz/kernel/event_channel.c\<close>, \<open>avz/kernel/gnttab.c\<close>). \<open>So3_Evtchn\<close>: the hypercalls
  implement a map between the ends of connections; connected channels deliver; closing a channel with
  a virtual interrupt blocks all further ones. \<open>So3_Gnttab\<close>: a granted page can be mapped by the target
  domain alone and, once revoked, by nobody; mappings made before stay.

  \<^bold>\<open>Not modelled.\<close> Assembly, start-up, page tables, caches and traps (\<open>arch\<close>), which are defined by the
  hardware; the drivers below the clock interface (\<open>devices\<close>), which are register accesses; creation of
  processes and threads, signals, tracing and the system call table (\<open>kernel\<close>, \<open>ipc/signal.c\<close>), which
  work on registers and user memory; text formatting (\<open>lib\<close>); third-party code (FatFs, lwIP, libfdt,
  libroxml, U-Boot, the C library of \<open>usr\<close>); the construction and scheduling of domains (\<open>avz/kernel\<close>);
  the guest side of the virtual devices (\<open>soo\<close>); multiprocessor support of the kernel, except that the
  event channels are modelled with several processors; scripts and images.
\<close>

end
